(* ===== verification/Book_Prelude.thy ===== *)
theory Book_Prelude
  imports Main "HOL-Library.Word" "HOL-Library.Monad_Syntax" "HOL-Library.List_Lexorder"
    "HOL-Library.Char_ord"
begin

text \<open>
  Shared vocabulary of the development: the machine integers of the Rust code, its error
  values, the standard-library containers the order book is built from, and the generic
  lemmas about them.

  \<^item> \<open>u64\<close> is a 64-bit word; the release build the README runs has no overflow checks,
    so \<open>+\<close> and \<open>*\<close> wrap. \<open>usize\<close> counters are \<open>nat\<close> with the bound written out
    where the code checks it (\<open>checked_add\<close>).
  \<^item> \<open>HashMap\<close> used only through \<open>get\<close>, \<open>insert\<close> and \<open>remove\<close> is a map
    \<open>'k \<rightharpoonup> 'v\<close>; a \<open>HashMap\<close> the code iterates over is an association list with
    distinct keys, in the (arbitrary) iteration order.
  \<^item> \<open>BTreeMap\<close> is an association list with strictly increasing keys, so that
    \<open>iter()\<close> is the list and \<open>iter().rev()\<close> its reverse.
\<close>

named_theorems book_simps \<open>unfolding rules of the small accessors and wrappers of the model\<close>

named_theorems inv_intros \<open>preservation of the component invariants\<close>

section \<open>Machine integers\<close>

type_synonym u64 = "64 word"
type_synonym u32 = nat
type_synonym usize = nat

definition u64_saturating_sub :: "u64 \<Rightarrow> u64 \<Rightarrow> u64" where
  "u64_saturating_sub a b = (if a < b then 0 else a - b)"

lemma unat_saturating_sub [simp]: "unat (u64_saturating_sub a b) = unat a - unat b"
  by (simp add: u64_saturating_sub_def unat_sub word_less_nat_alt not_less word_le_nat_alt)

lemma unat_sub_min [simp]:
  fixes a b :: u64
  shows "unat (u64_saturating_sub a (min a b)) = unat a - unat b"
    and "unat (u64_saturating_sub b (min a b)) = unat b - unat a"
  by (auto simp: min_def word_le_nat_alt)

lemma unat_u64_less: "unat (w :: u64) < 2 ^ 64"
  using unsigned_less [of w, where ?'a = nat] by simp

lemma unat_of_nat_small: "n \<le> unat (w :: 'a::len word) \<Longrightarrow> unat (of_nat n :: 'a word) = n"
  using unsigned_less [of w, where ?'a = nat] by (simp add: unat_of_nat del: unsigned_less)

lemma unat_of_nat_diff [simp]: "unat (of_nat (unat (w :: 'a::len word) - k) :: 'a word) = unat w - k"
  by (rule unat_of_nat_small [of _ w]) simp

definition usize_MAX :: usize where
  "usize_MAX = 2 ^ 64 - 1"

definition usize_checked_add :: "usize \<Rightarrow> usize \<Rightarrow> usize option" where
  "usize_checked_add a b = (if a + b \<le> usize_MAX then Some (a + b) else None)"

lemma usize_checked_add_Some_iff [simp]:
  "usize_checked_add a b = Some c \<longleftrightarrow> c = a + b \<and> a + b \<le> usize_MAX"
  by (auto simp: usize_checked_add_def)

lemma usize_checked_add_None_iff [simp]:
  "usize_checked_add a b = None \<longleftrightarrow> usize_MAX < a + b"
  by (auto simp: usize_checked_add_def)

section \<open>Errors\<close>

text \<open>
  The error values of \<open>prelude::Result\<close>: one constructor per message the code builds.
  Formatted detail that no caller inspects is left out, the data a message carries is kept.
\<close>

datatype error =
    ListIsEmpty
  | ParseFloatError string
  | JsonError string
  | InvalidLength nat
  | InvalidCoin string
  | OrderCountsDiffer string
  | OrdersDiffer
  | MissingBook string
  | ExtraOrderBooks
  | ParseIntError string
  | EnvVarError string
  | NotPositive string
  | IntervalOutOfRange
  | QueueByteOverflow
  | QueueLimit nat nat
  | UnexpectedBlock "64 word" "64 word"
  | MissingInsertBefore
  | MissingOpeningStatus
  | MissingOrder
  | PairByteOverflow
  | ValidationByteOverflow
  | IncompleteRecord
  | MalformedRecord error
  | IoError
  | FileReplaced
  | FileTruncated
  | RecordTooLarge
  | PartialTooOld
  | InvalidUtf8
  | ClockBeforeEpoch
  | SourceStale
  | SendTimeout
  | SendFailed
  | FrameTooLarge
  | SnapshotFailed
  | RequestTooLarge
  | TaskDisappeared
  | NoHomeDirectory

type_synonym 'a result = "error + 'a"

text \<open>The \<open>?\<close> operator: continue with the value, or return the error.\<close>

fun and_then :: "'a result \<Rightarrow> ('a \<Rightarrow> 'b result) \<Rightarrow> 'b result" where
  "and_then (Inl e) f = Inl e"
| "and_then (Inr x) f = f x"

lemma and_then_Inr [simp]: "and_then m f = Inr y \<longleftrightarrow> (\<exists>x. m = Inr x \<and> f x = Inr y)"
  by (cases m) auto

text \<open>\<open>usize::checked_add\<close> and wrapping subtraction.\<close>

definition checked_add :: "nat \<Rightarrow> nat \<Rightarrow> nat option" where
  "checked_add a b = (if a + b < 2 ^ 64 then Some (a + b) else None)"

definition usize_minus :: "nat \<Rightarrow> nat \<Rightarrow> nat" where
  "usize_minus a b = (if b \<le> a then a - b else a + 2 ^ 64 - b)"

section \<open>Ordered maps: the interface of \<open>BTreeMap\<close>\<close>

text \<open>
  What the order book relies on: a lookup sees the last write, the iteration order is
  strictly increasing in the key, and iteration visits exactly the keys with a value.
\<close>

locale ordered_map =
  fixes get :: "'m \<Rightarrow> 'k::linorder \<Rightarrow> 'v option"
    and put :: "'k \<Rightarrow> 'v \<Rightarrow> 'm \<Rightarrow> 'm"
    and del :: "'k \<Rightarrow> 'm \<Rightarrow> 'm"
    and keys :: "'m \<Rightarrow> 'k list"
    and invar :: "'m \<Rightarrow> bool"
  assumes get_put: "invar m \<Longrightarrow> get (put k v m) j = (if j = k then Some v else get m j)"
    and get_del: "invar m \<Longrightarrow> get (del k m) j = (if j = k then None else get m j)"
    and in_keys: "invar m \<Longrightarrow> k \<in> set (keys m) \<longleftrightarrow> get m k \<noteq> None"
    and keys_strict: "invar m \<Longrightarrow> sorted_wrt (<) (keys m)"
    and invar_put: "invar m \<Longrightarrow> invar (put k v m)"
    and invar_del: "invar m \<Longrightarrow> invar (del k m)"
begin

lemma set_keys_put: "invar m \<Longrightarrow> set (keys (put k v m)) = insert k (set (keys m))"
  by (auto simp: in_keys invar_put get_put split: if_splits)

lemma set_keys_del: "invar m \<Longrightarrow> set (keys (del k m)) = set (keys m) - {k}"
  by (auto simp: in_keys invar_del get_del split: if_splits)

lemma keys_put_present:
  assumes "invar m" and "get m k \<noteq> None"
  shows "keys (put k v m) = keys m"
proof (rule sorted_distinct_set_unique)
  show "sorted (keys (put k v m))" "distinct (keys (put k v m))"
    using keys_strict [OF invar_put [OF assms(1)]] strict_sorted_iff by auto
  show "sorted (keys m)" "distinct (keys m)"
    using keys_strict [OF assms(1)] strict_sorted_iff by auto
  show "set (keys (put k v m)) = set (keys m)"
    using assms by (auto simp: set_keys_put in_keys)
qed

end

section \<open>\<open>BTreeMap\<close> as a strictly sorted association list\<close>

type_synonym ('k, 'v) btree_map = "('k \<times> 'v) list"

abbreviation bt_sorted :: "('k::linorder, 'v) btree_map \<Rightarrow> bool" where
  "bt_sorted m \<equiv> sorted_wrt (<) (map fst m)"

fun bt_insert :: "'k::linorder \<Rightarrow> 'v \<Rightarrow> ('k, 'v) btree_map \<Rightarrow> ('k, 'v) btree_map" where
  "bt_insert k v [] = [(k, v)]"
| "bt_insert k v (e # m) =
     (if fst e < k then e # bt_insert k v m
      else if fst e = k then (k, v) # m
      else (k, v) # e # m)"

definition bt_remove :: "'k \<Rightarrow> ('k, 'v) btree_map \<Rightarrow> ('k, 'v) btree_map" where
  "bt_remove k m = filter (\<lambda>e. fst e \<noteq> k) m"

text \<open>\<open>entry(k).or_insert_with(d)\<close> followed by a mutation \<open>f\<close> of the entry's value.\<close>

definition bt_get_or :: "'v \<Rightarrow> ('k, 'v) btree_map \<Rightarrow> 'k \<Rightarrow> 'v" where
  "bt_get_or d m k = (case map_of m k of None \<Rightarrow> d | Some v \<Rightarrow> v)"

lemma map_of_bt_insert [simp]: "map_of (bt_insert k v m) = (map_of m)(k \<mapsto> v)"
  by (induction m) (auto simp: fun_eq_iff)

lemma keys_bt_insert [simp]: "fst ` set (bt_insert k v m) = insert k (fst ` set m)"
  by (induction m) auto

lemma bt_sorted_insert [simp]: "bt_sorted m \<Longrightarrow> bt_sorted (bt_insert k v m)"
proof (induction m)
  case Nil
  then show ?case by simp
next
  case (Cons e m)
  have "fst e < k \<Longrightarrow> \<forall>x \<in> fst ` set (bt_insert k v m). fst e < x"
    using Cons.prems by auto
  with Cons show ?case by (auto simp: image_iff Ball_def)
qed

lemma map_of_bt_remove [simp]: "map_of (bt_remove k m) = (map_of m)(k := None)"
  by (induction m) (auto simp: bt_remove_def fun_eq_iff)

lemma bt_sorted_filter: "bt_sorted m \<Longrightarrow> bt_sorted (filter P m)"
  by (induction m) auto

lemma bt_sorted_remove [simp]: "bt_sorted m \<Longrightarrow> bt_sorted (bt_remove k m)"
  by (simp add: bt_remove_def bt_sorted_filter)

lemma bt_sorted_distinct: "bt_sorted m \<Longrightarrow> distinct (map fst m)"
  by (simp add: strict_sorted_iff)

interpretation bt: ordered_map map_of bt_insert bt_remove "map fst" "bt_sorted"
  by unfold_locales (auto simp: map_of_eq_None_iff)

text \<open>Where a key sits in a sorted map: the shape the list proofs below work with.\<close>

lemma bt_split_present:
  assumes "bt_sorted m" and "map_of m k = Some v"
  obtains a b where "m = a @ (k, v) # b"
    and "\<And>e. e \<in> set a \<Longrightarrow> fst e < k" and "\<And>e. e \<in> set b \<Longrightarrow> k < fst e"
    and "\<And>w. bt_insert k w m = a @ (k, w) # b" and "bt_remove k m = a @ b"
proof -
  from assms(2) obtain a b where m: "m = a @ (k, v) # b"
    by (meson map_of_SomeD split_list)
  from assms(1) m have lo: "\<forall>e \<in> set a. fst e < k" and hi: "\<forall>e \<in> set b. k < fst e"
    by (auto simp: sorted_wrt_append)
  have "bt_insert k w (a @ (k, v) # b) = a @ (k, w) # b" for w
    using lo by (induction a) auto
  moreover have "filter (\<lambda>e. fst e \<noteq> k) a = a" "filter (\<lambda>e. fst e \<noteq> k) b = b"
    using lo hi by (auto simp: filter_id_conv)
  then have "bt_remove k m = a @ b"
    by (simp add: m bt_remove_def)
  ultimately show thesis using that m lo hi by blast
qed

lemma bt_split_absent:
  assumes "bt_sorted m" and "map_of m k = None"
  obtains a b where "m = a @ b"
    and "\<And>e. e \<in> set a \<Longrightarrow> fst e < k" and "\<And>e. e \<in> set b \<Longrightarrow> k < fst e"
    and "\<And>w. bt_insert k w m = a @ (k, w) # b" and "bt_remove k m = m"
proof -
  have "\<exists>a b. m = a @ b \<and> (\<forall>e \<in> set a. fst e < k) \<and> (\<forall>e \<in> set b. k < fst e)
      \<and> (\<forall>w. bt_insert k w m = a @ (k, w) # b)"
    using assms
  proof (induction m)
    case Nil
    then show ?case by simp
  next
    case (Cons e m)
    show ?case
    proof (cases "fst e < k")
      case True
      with Cons obtain a b where "m = a @ b" "\<forall>e \<in> set a. fst e < k" "\<forall>e \<in> set b. k < fst e"
        "\<forall>w. bt_insert k w m = a @ (k, w) # b"
        by (auto split: if_splits)
      with True show ?thesis
        by (intro exI [of _ "e # a"] exI [of _ b]) auto
    next
      case False
      with Cons.prems have "k < fst e"
        by (auto split: if_splits simp: not_less order.order_iff_strict)
      with Cons.prems show ?thesis
        by (intro exI [of _ "[]"] exI [of _ "e # m"]) auto
    qed
  qed
  moreover have "bt_remove k m = m"
    using assms(2) by (auto simp: bt_remove_def filter_id_conv map_of_eq_None_iff)
  ultimately show thesis using that by blast
qed

text \<open>Collecting pairs into a map: strictly increasing pairs come back unchanged.\<close>

lemma bt_insert_last: "\<forall>e \<in> set m. fst e < k \<Longrightarrow> bt_insert k v m = m @ [(k, v)]"
  by (induction m) auto

lemma bt_collect_sorted:
  assumes "bt_sorted (m @ es)"
  shows "foldl (\<lambda>m e. bt_insert (fst e) (snd e) m) m es = m @ es"
  using assms
proof (induction es arbitrary: m)
  case (Cons e es)
  then have "bt_insert (fst e) (snd e) m = m @ [e]"
    by (subst bt_insert_last) (auto simp: sorted_wrt_append)
  with Cons show ?case by simp
qed simp

lemma map_of_bt_collect:
  "map_of (foldl (\<lambda>m e. bt_insert (fst e) (f (snd e)) m) m es) k =
     (case map_of (rev es) k of None \<Rightarrow> map_of m k | Some v \<Rightarrow> Some (f v))"
  by (induction es arbitrary: m) (auto split: option.splits)

section \<open>Generic list facts\<close>

lemma map_of_filter_neq: "map_of (filter (\<lambda>e. fst e \<noteq> k) m) = (map_of m)(k := None)"
  using map_of_bt_remove [of k m] by (simp add: bt_remove_def)

lemma find_SomeD: "find P xs = Some x \<Longrightarrow> x \<in> set xs \<and> P x"
  by (induction xs) (auto split: if_splits)

lemma map_of_append_cong: "map_of a = map_of a' \<Longrightarrow> map_of b = map_of b' \<Longrightarrow> map_of (a @ b) = map_of (a' @ b')"
  by (simp add: map_of_append)

lemma fold_fun_upd_None [simp]:
  "fold (\<lambda>k m. m(k := None)) ks f = (\<lambda>x. if x \<in> set ks then None else f x)"
  by (induction ks arbitrary: f) (auto simp: fun_eq_iff)

end
