(* ===== verification/Keyed_List.thy ===== *)
theory Keyed_List
  imports Book_Prelude
begin

text \<open>
  The contract of \<open>LinkedList<K, T>\<close> (\<open>server/src/order_book/linked_list.rs\<close>): a list is the
  sequence of its (key, value) pairs from head to tail, keys distinct. Each operation of the
  code is given here on that sequence; \<open>Linked_List\<close> proves that the slab of doubly linked
  nodes implements exactly these, and \<open>Order_Book\<close> works with them.
\<close>

type_synonym ('k, 'v) keyed_list = "('k \<times> 'v) list"

abbreviation kl_keys :: "('k, 'v) keyed_list \<Rightarrow> 'k set" where
  "kl_keys xs \<equiv> fst ` set xs"

definition kl_new :: "('k, 'v) keyed_list" where
  "kl_new = []"

definition kl_push_back :: "('k, 'v) keyed_list \<Rightarrow> 'k \<Rightarrow> 'v \<Rightarrow> bool \<times> ('k, 'v) keyed_list" where
  "kl_push_back xs key value =
     (if key \<in> kl_keys xs then (False, xs) else (True, xs @ [(key, value)]))"

text \<open>Puts a pair in front of the node with key \<open>before\<close>.\<close>

fun kl_place :: "'k \<Rightarrow> 'k \<times> 'v \<Rightarrow> ('k, 'v) keyed_list \<Rightarrow> ('k, 'v) keyed_list" where
  "kl_place before e [] = []"
| "kl_place before e (x # xs) = (if fst x = before then e # x # xs else x # kl_place before e xs)"

definition kl_insert_before ::
    "('k, 'v) keyed_list \<Rightarrow> 'k \<Rightarrow> 'k \<Rightarrow> 'v \<Rightarrow> bool \<times> ('k, 'v) keyed_list" where
  "kl_insert_before xs before key value =
     (if key \<in> kl_keys xs then (False, xs)
      else if before \<notin> kl_keys xs then (False, xs)
      else (True, kl_place before (key, value) xs))"

definition kl_is_empty :: "('k, 'v) keyed_list \<Rightarrow> bool" where
  "kl_is_empty xs \<longleftrightarrow> xs = []"

definition kl_head_value :: "('k, 'v) keyed_list \<Rightarrow> 'v option" where
  "kl_head_value xs = (case xs of [] \<Rightarrow> None | x # _ \<Rightarrow> Some (snd x))"

text \<open>A write through the reference \<open>head_value_ref_mut_unsafe\<close> returns.\<close>

definition kl_write_head :: "('k, 'v) keyed_list \<Rightarrow> 'v \<Rightarrow> ('k, 'v) keyed_list" where
  "kl_write_head xs v = (case xs of [] \<Rightarrow> [] | x # ys \<Rightarrow> (fst x, v) # ys)"

definition kl_remove_front :: "('k, 'v) keyed_list \<Rightarrow> ('k, 'v) keyed_list result" where
  "kl_remove_front xs = (case xs of [] \<Rightarrow> Inl ListIsEmpty | _ # ys \<Rightarrow> Inr ys)"

definition kl_remove_node :: "('k, 'v) keyed_list \<Rightarrow> 'k \<Rightarrow> bool \<times> ('k, 'v) keyed_list" where
  "kl_remove_node xs key =
     (if key \<in> kl_keys xs then (True, filter (\<lambda>x. fst x \<noteq> key) xs) else (False, xs))"

definition kl_node_value :: "('k, 'v) keyed_list \<Rightarrow> 'k \<Rightarrow> 'v option" where
  "kl_node_value xs key = map_of xs key"

text \<open>A write through the reference \<open>node_value_mut\<close> returns.\<close>

definition kl_write_node :: "('k, 'v) keyed_list \<Rightarrow> 'k \<Rightarrow> 'v \<Rightarrow> ('k, 'v) keyed_list" where
  "kl_write_node xs key v = map (\<lambda>x. if fst x = key then (key, v) else x) xs"

definition kl_to_vec :: "('k, 'v) keyed_list \<Rightarrow> 'v list" where
  "kl_to_vec xs = map snd xs"

definition kl_fold :: "('k, 'v) keyed_list \<Rightarrow> ('a \<Rightarrow> 'v \<Rightarrow> 'a) \<Rightarrow> 'a \<Rightarrow> 'a" where
  "kl_fold xs f init = foldl f init (map snd xs)"

section \<open>Facts about the sequence operations\<close>

lemma kl_keys_place [simp]: "before \<in> kl_keys xs \<Longrightarrow> kl_keys (kl_place before e xs) = insert (fst e) (kl_keys xs)"
  by (induction xs) auto

lemma kl_place_absent [simp]: "before \<notin> kl_keys xs \<Longrightarrow> kl_place before e xs = xs"
  by (induction xs) auto

lemma kl_place_append:
  "before \<notin> kl_keys a \<Longrightarrow> kl_place before e (a @ (before, v) # b) = a @ e # (before, v) # b"
  by (induction a) auto

lemma kl_split:
  assumes "distinct (map fst xs)" and "k \<in> kl_keys xs"
  obtains a v b where "xs = a @ (k, v) # b" and "k \<notin> kl_keys a" and "k \<notin> kl_keys b"
proof -
  from assms(2) obtain v where "(k, v) \<in> set xs" by auto
  then obtain a b where ab: "xs = a @ (k, v) # b" by (meson split_list)
  with assms(1) have "k \<notin> kl_keys a" "k \<notin> kl_keys b" by auto
  with ab show thesis by (rule that)
qed

lemma map_fst_write_node [simp]: "map fst (kl_write_node xs key v) = map fst xs"
  by (induction xs) (auto simp: kl_write_node_def)

lemma map_fst_write_head [simp]: "map fst (kl_write_head xs v) = map fst xs"
  by (cases xs) (auto simp: kl_write_head_def)

lemma distinct_kl_place:
  "distinct (map fst xs) \<Longrightarrow> fst e \<notin> kl_keys xs \<Longrightarrow> distinct (map fst (kl_place before e xs))"
proof (induction xs)
  case Nil
  then show ?case by simp
next
  case (Cons x xs)
  have "kl_keys (kl_place before e xs) \<subseteq> insert (fst e) (kl_keys xs)"
    by (cases "before \<in> kl_keys xs") auto
  with Cons show ?case by auto
qed

section \<open>Runs of operations\<close>

text \<open>
  What a caller can do with a list and what it sees: one constructor per public method, and
  the value each returns.
\<close>

datatype ('k, 'v) list_op =
    PushBack 'k 'v
  | InsertBefore 'k 'k 'v
  | IsEmpty
  | HeadValue
  | WriteHead 'v
  | RemoveFront
  | RemoveNode 'k
  | NodeValue 'k
  | WriteNode 'k 'v
  | ToVec

datatype 'v observation =
    Returned bool
  | Outcome "unit result"
  | Value "'v option"
  | Values "'v list"

fun kl_step :: "('k, 'v) keyed_list \<Rightarrow> ('k, 'v) list_op \<Rightarrow> 'v observation \<times> ('k, 'v) keyed_list" where
  "kl_step xs (PushBack k v) = map_prod Returned id (kl_push_back xs k v)"
| "kl_step xs (InsertBefore b k v) = map_prod Returned id (kl_insert_before xs b k v)"
| "kl_step xs IsEmpty = (Returned (kl_is_empty xs), xs)"
| "kl_step xs HeadValue = (Value (kl_head_value xs), xs)"
| "kl_step xs (WriteHead v) = (Value (kl_head_value xs), kl_write_head xs v)"
| "kl_step xs RemoveFront =
     (case kl_remove_front xs of
        Inl e \<Rightarrow> (Outcome (Inl e), xs)
      | Inr ys \<Rightarrow> (Outcome (Inr ()), ys))"
| "kl_step xs (RemoveNode k) = map_prod Returned id (kl_remove_node xs k)"
| "kl_step xs (NodeValue k) = (Value (kl_node_value xs k), xs)"
| "kl_step xs (WriteNode k v) = (Value (kl_node_value xs k), kl_write_node xs k v)"
| "kl_step xs ToVec = (Values (kl_to_vec xs), xs)"

fun kl_run :: "('k, 'v) keyed_list \<Rightarrow> ('k, 'v) list_op list \<Rightarrow> 'v observation list" where
  "kl_run xs [] = []"
| "kl_run xs (op # ops) = (let (obs, ys) = kl_step xs op in obs # kl_run ys ops)"

lemma kl_step_distinct:
  assumes "distinct (map fst xs)"
  shows "distinct (map fst (snd (kl_step xs op)))"
  using assms
  by (cases op)
    (auto simp: kl_push_back_def kl_insert_before_def kl_remove_node_def kl_remove_front_def
      distinct_kl_place distinct_map_filter split: list.splits)

section \<open>The interface as clients see it\<close>

text \<open>Runs a provider's step function, collecting what the caller sees; \<open>None\<close> is a panic.\<close>

fun run_steps :: "('l \<Rightarrow> 'op \<Rightarrow> ('obs \<times> 'l) option) \<Rightarrow> 'l \<Rightarrow> 'op list \<Rightarrow> 'obs list option" where
  "run_steps step l [] = Some []"
| "run_steps step l (op # ops) =
     do { (obs, l') \<leftarrow> step l op; rest \<leftarrow> run_steps step l' ops; Some (obs # rest) }"

text \<open>
  A provider of keyed lists: a step function that may panic (\<open>None\<close>) and a representation
  relation. Every law is one step; the run lemma is proved once for all providers.
\<close>

locale keyed_queue =
  fixes rep :: "'l \<Rightarrow> ('k, 'v) keyed_list \<Rightarrow> bool"
    and create :: "'l"
    and step :: "'l \<Rightarrow> ('k, 'v) list_op \<Rightarrow> ('v observation \<times> 'l) option"
  assumes rep_create: "rep create kl_new"
    and rep_step: "rep l xs \<Longrightarrow>
      \<exists>l'. step l op = Some (fst (kl_step xs op), l') \<and> rep l' (snd (kl_step xs op))"
begin

lemma run_refines: "rep l xs \<Longrightarrow> run_steps step l ops = Some (kl_run xs ops)"
proof (induction ops arbitrary: l xs)
  case Nil
  then show ?case by simp
next
  case (Cons op ops)
  from rep_step [OF Cons.prems, of op] obtain l' where
    "step l op = Some (fst (kl_step xs op), l')" and l': "rep l' (snd (kl_step xs op))" by blast
  with Cons.IH [OF l'] show ?case by (simp add: case_prod_beta)
qed

lemma run_from_new: "run_steps step create ops = Some (kl_run [] ops)"
  using run_refines [OF rep_create] by (simp add: kl_new_def)

end

end
