(* ===== verification/Linked_List.thy ===== *)
theory Linked_List
  imports Keyed_List
begin

text \<open>
  \<open>LinkedList<K, T>\<close> of \<open>server/src/order_book/linked_list.rs\<close>: a doubly linked list whose
  nodes live in a \<open>slab::Slab\<close> and are found by key through a \<open>HashMap\<close>. Every method is
  translated with its slab reads and writes; an invalid slab index panics (\<open>None\<close>).
  The slab is a third-party crate: its operations are a parameter of the definitions
  (\<open>slab_ops\<close>), its documented behaviour the locale \<open>slab_laws\<close>. The main result is that
  the linked nodes implement the keyed sequences of \<open>Keyed_List\<close>, without panicking.
\<close>

section \<open>The slab\<close>

record ('s, 'n) slab_ops =
  slab_new :: "'s"
  slab_insert :: "'s \<Rightarrow> 'n \<Rightarrow> nat \<times> 's"
  slab_remove :: "'s \<Rightarrow> nat \<Rightarrow> ('n \<times> 's) option"
  slab_get :: "'s \<Rightarrow> nat \<Rightarrow> 'n option"
  slab_set :: "'s \<Rightarrow> nat \<Rightarrow> 'n \<Rightarrow> 's"

text \<open>
  What the crate documents: a fresh slab is empty; \<open>insert\<close> stores the value at a vacant key
  and returns the key; \<open>remove\<close> takes the value out of an occupied key and panics on a vacant
  one; indexing reads and writes an occupied key and nothing else.
\<close>

locale slab_laws =
  fixes S :: "('s, 'n) slab_ops"
  assumes slab_get_new: "slab_get S (slab_new S) = Map.empty"
    and slab_get_insert: "slab_insert S s n = (i, s') \<Longrightarrow>
      slab_get S s i = None \<and> slab_get S s' = (slab_get S s)(i \<mapsto> n)"
    and slab_remove_vacant: "slab_get S s i = None \<Longrightarrow> slab_remove S s i = None"
    and slab_remove_occupied: "slab_get S s i = Some n \<Longrightarrow>
      \<exists>s'. slab_remove S s i = Some (n, s') \<and> slab_get S s' = (slab_get S s)(i := None)"
    and slab_get_set: "slab_get S s i = Some m \<Longrightarrow>
      slab_get S (slab_set S s i n) = (slab_get S s)(i \<mapsto> n)"

text \<open>A mutation of the node at \<open>i\<close> through \<open>&mut self.slab[i]\<close>.\<close>

definition slab_modify :: "('s, 'n) slab_ops \<Rightarrow> 's \<Rightarrow> nat \<Rightarrow> ('n \<Rightarrow> 'n) \<Rightarrow> 's option" where
  "slab_modify S s i f = do { n \<leftarrow> slab_get S s i; Some (slab_set S s i (f n)) }"

section \<open>Nodes and lists\<close>

record ('k, 'v) node =
  node_key :: 'k
  node_value :: 'v
  node_next :: "nat option"
  node_prev :: "nat option"

definition node_new :: "'k \<Rightarrow> 'v \<Rightarrow> ('k, 'v) node" where
  "node_new key value = \<lparr>node_key = key, node_value = value, node_next = None, node_prev = None\<rparr>"

record ('s, 'k) linked_list =
  key_to_sid :: "'k \<rightharpoonup> nat"
  slab :: 's
  head :: "nat option"
  tail :: "nat option"

type_synonym ('s, 'k, 'v) node_slab_ops = "('s, ('k, 'v) node) slab_ops"

definition ll_new :: "('s, 'k, 'v) node_slab_ops \<Rightarrow> ('s, 'k) linked_list" where
  "ll_new S = \<lparr>key_to_sid = Map.empty, slab = slab_new S, head = None, tail = None\<rparr>"

definition ll_push_back ::
    "('s, 'k, 'v) node_slab_ops \<Rightarrow> ('s, 'k) linked_list \<Rightarrow> 'k \<Rightarrow> 'v \<Rightarrow> (bool \<times> ('s, 'k) linked_list) option" where
  "ll_push_back S l key value =
     (if key_to_sid l key \<noteq> None then Some (False, l)
      else
        let (sid, s1) = slab_insert S (slab l) (node_new key value);
            l1 = l\<lparr>slab := s1, key_to_sid := (key_to_sid l)(key \<mapsto> sid)\<rparr>
        in (case tail l1 of
              None \<Rightarrow> Some (True, l1\<lparr>head := Some sid, tail := Some sid\<rparr>)
            | Some t \<Rightarrow>
                do { s2 \<leftarrow> slab_modify S (slab l1) t (\<lambda>n. n\<lparr>node_next := Some sid\<rparr>);
                     s3 \<leftarrow> slab_modify S s2 sid (\<lambda>n. n\<lparr>node_prev := Some t\<rparr>);
                     Some (True, l1\<lparr>slab := s3, tail := Some sid\<rparr>) }))"

definition ll_insert_before ::
    "('s, 'k, 'v) node_slab_ops \<Rightarrow> ('s, 'k) linked_list \<Rightarrow> 'k \<Rightarrow> 'k \<Rightarrow> 'v \<Rightarrow>
      (bool \<times> ('s, 'k) linked_list) option" where
  "ll_insert_before S l before key value =
     (if key_to_sid l key \<noteq> None then Some (False, l)
      else
        (case key_to_sid l before of
           None \<Rightarrow> Some (False, l)
         | Some before_sid \<Rightarrow>
             do { b \<leftarrow> slab_get S (slab l) before_sid;
                  let prev = node_prev b;
                  let node = (node_new key value)\<lparr>node_prev := prev, node_next := Some before_sid\<rparr>;
                  let (sid, s1) = slab_insert S (slab l) node;
                  let l1 = l\<lparr>slab := s1, key_to_sid := (key_to_sid l)(key \<mapsto> sid)\<rparr>;
                  s2 \<leftarrow> slab_modify S (slab l1) before_sid (\<lambda>n. n\<lparr>node_prev := Some sid\<rparr>);
                  (case prev of
                     Some p \<Rightarrow>
                       do { s3 \<leftarrow> slab_modify S s2 p (\<lambda>n. n\<lparr>node_next := Some sid\<rparr>);
                            Some (True, l1\<lparr>slab := s3\<rparr>) }
                   | None \<Rightarrow> Some (True, l1\<lparr>slab := s2, head := Some sid\<rparr>)) }))"

definition ll_is_empty :: "('s, 'k) linked_list \<Rightarrow> bool" where
  "ll_is_empty l \<longleftrightarrow> head l = None"

definition ll_head_value ::
    "('s, 'k, 'v) node_slab_ops \<Rightarrow> ('s, 'k) linked_list \<Rightarrow> 'v option option" where
  "ll_head_value S l =
     (case head l of
        None \<Rightarrow> Some None
      | Some h \<Rightarrow> do { n \<leftarrow> slab_get S (slab l) h; Some (Some (node_value n)) })"

definition ll_write_head ::
    "('s, 'k, 'v) node_slab_ops \<Rightarrow> ('s, 'k) linked_list \<Rightarrow> 'v \<Rightarrow> ('s, 'k) linked_list option" where
  "ll_write_head S l v =
     (case head l of
        None \<Rightarrow> Some l
      | Some h \<Rightarrow> do { s1 \<leftarrow> slab_modify S (slab l) h (\<lambda>n. n\<lparr>node_value := v\<rparr>); Some (l\<lparr>slab := s1\<rparr>) })"

definition ll_remove_front ::
    "('s, 'k, 'v) node_slab_ops \<Rightarrow> ('s, 'k) linked_list \<Rightarrow> ('s, 'k) linked_list result option" where
  "ll_remove_front S l =
     (case head l of
        Some h \<Rightarrow>
          do { (head_order, s1) \<leftarrow> slab_remove S (slab l) h;
               let l1 = l\<lparr>slab := s1, key_to_sid := (key_to_sid l)(node_key head_order := None)\<rparr>;
               (case node_next head_order of
                  None \<Rightarrow> Some (Inr (l1\<lparr>head := None, tail := None\<rparr>))
                | Some n \<Rightarrow>
                    do { s2 \<leftarrow> slab_modify S (slab l1) n (\<lambda>m. m\<lparr>node_prev := None\<rparr>);
                         Some (Inr (l1\<lparr>slab := s2, head := Some n\<rparr>)) }) }
      | None \<Rightarrow> Some (Inl ListIsEmpty))"

definition ll_remove_node ::
    "('s, 'k, 'v) node_slab_ops \<Rightarrow> ('s, 'k) linked_list \<Rightarrow> 'k \<Rightarrow> (bool \<times> ('s, 'k) linked_list) option" where
  "ll_remove_node S l key =
     (case key_to_sid l key of
        Some sid \<Rightarrow>
          do { let l0 = l\<lparr>key_to_sid := (key_to_sid l)(key := None)\<rparr>;
               (order, s1) \<leftarrow> slab_remove S (slab l0) sid;
               let prev = node_prev order;
               let next_sid = node_next order;
               l1 \<leftarrow> (case prev of
                  Some p \<Rightarrow>
                    do { s2 \<leftarrow> slab_modify S s1 p (\<lambda>m. m\<lparr>node_next := next_sid\<rparr>); Some (l0\<lparr>slab := s2\<rparr>) }
                | None \<Rightarrow> Some (l0\<lparr>slab := s1, head := next_sid\<rparr>));
               l2 \<leftarrow> (case next_sid of
                  Some n \<Rightarrow>
                    do { s3 \<leftarrow> slab_modify S (slab l1) n (\<lambda>m. m\<lparr>node_prev := prev\<rparr>); Some (l1\<lparr>slab := s3\<rparr>) }
                | None \<Rightarrow> Some (l1\<lparr>tail := prev\<rparr>));
               Some (True, l2) }
      | None \<Rightarrow> Some (False, l))"

definition ll_node_value ::
    "('s, 'k, 'v) node_slab_ops \<Rightarrow> ('s, 'k) linked_list \<Rightarrow> 'k \<Rightarrow> 'v option option" where
  "ll_node_value S l key =
     (case key_to_sid l key of
        Some sid \<Rightarrow> do { n \<leftarrow> slab_get S (slab l) sid; Some (Some (node_value n)) }
      | None \<Rightarrow> Some None)"

definition ll_write_node ::
    "('s, 'k, 'v) node_slab_ops \<Rightarrow> ('s, 'k) linked_list \<Rightarrow> 'k \<Rightarrow> 'v \<Rightarrow> ('s, 'k) linked_list option" where
  "ll_write_node S l key v =
     (case key_to_sid l key of
        Some sid \<Rightarrow> do { s1 \<leftarrow> slab_modify S (slab l) sid (\<lambda>n. n\<lparr>node_value := v\<rparr>); Some (l\<lparr>slab := s1\<rparr>) }
      | None \<Rightarrow> Some l)"

text \<open>
  The loop of \<open>fold\<close> follows \<open>next\<close> from \<open>cur\<close>; \<open>None\<close> is a panic or a loop that does not
  end. \<open>to_vec\<close> is the same loop with \<open>res.push\<close> as its body.
\<close>

partial_function (option) ll_fold_from ::
    "('s, 'k, 'v) node_slab_ops \<Rightarrow> 's \<Rightarrow> nat option \<Rightarrow> ('a \<Rightarrow> 'v \<Rightarrow> 'a) \<Rightarrow> 'a \<Rightarrow> 'a option" where
  "ll_fold_from S s cur f acc =
     (case cur of
        None \<Rightarrow> Some acc
      | Some c \<Rightarrow>
          do { n \<leftarrow> slab_get S s c; ll_fold_from S s (node_next n) f (f acc (node_value n)) })"

definition ll_fold ::
    "('s, 'k, 'v) node_slab_ops \<Rightarrow> ('s, 'k) linked_list \<Rightarrow> ('a \<Rightarrow> 'v \<Rightarrow> 'a) \<Rightarrow> 'a \<Rightarrow> 'a option" where
  "ll_fold S l f init = ll_fold_from S (slab l) (head l) f init"

definition ll_to_vec :: "('s, 'k, 'v) node_slab_ops \<Rightarrow> ('s, 'k) linked_list \<Rightarrow> 'v list option" where
  "ll_to_vec S l = ll_fold_from S (slab l) (head l) (\<lambda>res v. res @ [v]) []"

text \<open>One call of a public method, as a caller of the list sees it.\<close>

fun ll_step ::
    "('s, 'k, 'v) node_slab_ops \<Rightarrow> ('s, 'k) linked_list \<Rightarrow> ('k, 'v) list_op \<Rightarrow>
      ('v observation \<times> ('s, 'k) linked_list) option" where
  "ll_step S l (PushBack k v) = map_option (map_prod Returned id) (ll_push_back S l k v)"
| "ll_step S l (InsertBefore b k v) = map_option (map_prod Returned id) (ll_insert_before S l b k v)"
| "ll_step S l IsEmpty = Some (Returned (ll_is_empty l), l)"
| "ll_step S l HeadValue = map_option (\<lambda>v. (Value v, l)) (ll_head_value S l)"
| "ll_step S l (WriteHead v) =
     do { old \<leftarrow> ll_head_value S l; l' \<leftarrow> ll_write_head S l v; Some (Value old, l') }"
| "ll_step S l RemoveFront =
     map_option (case_sum (\<lambda>e. (Outcome (Inl e), l)) (\<lambda>l'. (Outcome (Inr ()), l'))) (ll_remove_front S l)"
| "ll_step S l (RemoveNode k) = map_option (map_prod Returned id) (ll_remove_node S l k)"
| "ll_step S l (NodeValue k) = map_option (\<lambda>v. (Value v, l)) (ll_node_value S l k)"
| "ll_step S l (WriteNode k v) =
     do { old \<leftarrow> ll_node_value S l k; l' \<leftarrow> ll_write_node S l k v; Some (Value old, l') }"
| "ll_step S l ToVec = map_option (\<lambda>vs. (Values vs, l)) (ll_to_vec S l)"

section \<open>Doubly linked segments\<close>

text \<open>
  A chain of nodes is described by the list of (slab index, key, value) triples it visits.
  \<open>dseg h p xs q\<close>: the heap \<open>h\<close> holds the nodes of \<open>xs\<close> linked in both directions, with
  \<open>p\<close> before the first and \<open>q\<close> after the last.
\<close>

type_synonym ('k, 'v) chain = "(nat \<times> 'k \<times> 'v) list"

fun first_sid :: "nat option \<Rightarrow> ('k, 'v) chain \<Rightarrow> nat option" where
  "first_sid q [] = q"
| "first_sid q (x # xs) = Some (fst x)"

fun last_sid :: "nat option \<Rightarrow> ('k, 'v) chain \<Rightarrow> nat option" where
  "last_sid p [] = p"
| "last_sid p (x # xs) = last_sid (Some (fst x)) xs"

fun dseg :: "(nat \<rightharpoonup> ('k, 'v) node) \<Rightarrow> nat option \<Rightarrow> ('k, 'v) chain \<Rightarrow> nat option \<Rightarrow> bool" where
  "dseg h p [] q = True"
| "dseg h p ((i, k, v) # xs) q =
     (h i = Some \<lparr>node_key = k, node_value = v, node_next = first_sid q xs, node_prev = p\<rparr>
      \<and> dseg h (Some i) xs q)"

lemma first_sid_append [simp]: "first_sid q (xs @ ys) = first_sid (first_sid q ys) xs"
  by (cases xs) auto

lemma last_sid_append [simp]: "last_sid p (xs @ ys) = last_sid (last_sid p xs) ys"
  by (induction xs arbitrary: p) auto

lemma last_sid_nonempty: "xs \<noteq> [] \<Longrightarrow> last_sid p xs = Some (fst (last xs))"
  by (induction xs arbitrary: p) auto

lemma last_sid_Some [simp]: "last_sid (Some i) xs \<noteq> None"
  by (induction xs arbitrary: i) auto

lemma last_sid_None: "last_sid None xs = None \<longleftrightarrow> xs = []"
  by (cases xs rule: rev_cases) auto

lemma first_sid_cong: "xs \<noteq> [] \<Longrightarrow> first_sid p xs = first_sid q xs"
  by (cases xs) auto

lemma last_sid_cong: "xs \<noteq> [] \<Longrightarrow> last_sid p xs = last_sid q xs"
  by (cases xs) auto

lemma dseg_append [simp]:
  "dseg h p (xs @ ys) q \<longleftrightarrow> dseg h p xs (first_sid q ys) \<and> dseg h (last_sid p xs) ys q"
proof (induction xs arbitrary: p)
  case Nil
  then show ?case by simp
next
  case (Cons x xs)
  then show ?case by (cases x) simp
qed

declare image_Un [simp]

lemma dseg_agree: "dseg h p xs q \<Longrightarrow> (\<And>j. j \<in> fst ` set xs \<Longrightarrow> h' j = h j) \<Longrightarrow> dseg h' p xs q"
proof (induction xs arbitrary: p)
  case Nil
  then show ?case by simp
next
  case (Cons x xs)
  then show ?case by (cases x) simp
qed

lemma dseg_frame [simp]: "i \<notin> fst ` set xs \<Longrightarrow> dseg (h(i := n)) p xs q = dseg h p xs q"
  by (induction xs arbitrary: p) auto


text \<open>Rewriting the outer link of a segment: its last \<open>next\<close> or its first \<open>prev\<close>.\<close>

lemma dseg_relink_next:
  assumes "dseg h p (xs @ [x]) q" and "distinct (map fst (xs @ [x]))" and "h (fst x) = Some n"
  shows "dseg (h(fst x \<mapsto> n\<lparr>node_next := q'\<rparr>)) p (xs @ [x]) q'"
  using assms by (cases x) auto

lemma dseg_relink_prev:
  assumes "dseg h p (x # xs) q" and "distinct (map fst (x # xs))" and "h (fst x) = Some n"
  shows "dseg (h(fst x \<mapsto> n\<lparr>node_prev := p'\<rparr>)) p' (x # xs) q"
  using assms by (cases x) auto

lemma dseg_rewrite_value:
  assumes "dseg h p (a @ (i, k, v) # b) q" and "distinct (map fst (a @ (i, k, v) # b))"
    and "h i = Some n"
  shows "dseg (h(i \<mapsto> n\<lparr>node_value := w\<rparr>)) p (a @ (i, k, w) # b) q"
  using assms by auto

section \<open>The representation relation\<close>

text \<open>
  The chain from \<open>head\<close> to \<open>tail\<close> visits every occupied slab entry exactly once, and the
  key map points each key to its node.
\<close>

abbreviation sids :: "('k, 'v) chain \<Rightarrow> nat set" where
  "sids xs \<equiv> fst ` set xs"

abbreviation ckeys :: "('k, 'v) chain \<Rightarrow> 'k set" where
  "ckeys xs \<equiv> (\<lambda>x. fst (snd x)) ` set xs"

definition indexes :: "('k \<rightharpoonup> nat) \<Rightarrow> ('k, 'v) chain \<Rightarrow> bool" where
  "indexes f xs \<longleftrightarrow> (\<forall>k i. f k = Some i \<longleftrightarrow> (\<exists>v. (i, k, v) \<in> set xs))"

lemma indexes_insert:
  "indexes f (a @ b) \<Longrightarrow> k \<notin> ckeys (a @ b) \<Longrightarrow> indexes (f(k \<mapsto> i)) (a @ (i, k, v) # b)"
  by (force simp: indexes_def image_iff)

lemma indexes_remove:
  "indexes f (a @ (i, k, v) # b) \<Longrightarrow> k \<notin> ckeys a \<Longrightarrow> k \<notin> ckeys b \<Longrightarrow> indexes (f(k := None)) (a @ b)"
  by (force simp: indexes_def image_iff)

lemma indexes_None: "indexes f xs \<Longrightarrow> f k = None \<longleftrightarrow> k \<notin> ckeys xs"
  by (force simp: indexes_def image_iff simp flip: not_Some_eq)

lemma indexes_Some: "indexes f (a @ (i, k, v) # b) \<Longrightarrow> f k = Some i"
  by (auto simp: indexes_def)

lemma indexes_Nil [simp]: "indexes f [] \<longleftrightarrow> f = Map.empty"
  by (auto simp: indexes_def fun_eq_iff simp flip: not_Some_eq)

definition ll_chain :: "('s, 'k, 'v) node_slab_ops \<Rightarrow> ('s, 'k) linked_list \<Rightarrow> ('k, 'v) chain \<Rightarrow> bool" where
  "ll_chain S l xs \<longleftrightarrow>
     dseg (slab_get S (slab l)) None xs None
     \<and> distinct (map fst xs) \<and> distinct (map (\<lambda>x. fst (snd x)) xs)
     \<and> dom (slab_get S (slab l)) = sids xs
     \<and> indexes (key_to_sid l) xs
     \<and> head l = first_sid None xs \<and> tail l = last_sid None xs"

definition ll_rep :: "('s, 'k, 'v) node_slab_ops \<Rightarrow> ('s, 'k) linked_list \<Rightarrow> ('k, 'v) keyed_list \<Rightarrow> bool" where
  "ll_rep S l kvs \<longleftrightarrow> (\<exists>xs. ll_chain S l xs \<and> kvs = map snd xs)"

lemma ll_chainD:
  assumes "ll_chain S l xs"
  shows "dseg (slab_get S (slab l)) None xs None" and "distinct (map fst xs)"
    and "distinct (map (\<lambda>x. fst (snd x)) xs)" and "dom (slab_get S (slab l)) = sids xs"
    and "indexes (key_to_sid l) xs"
    and "head l = first_sid None xs" and "tail l = last_sid None xs"
  using assms unfolding ll_chain_def by blast+

lemma chain_split:
  assumes "ll_chain S l xs" and "k \<in> ckeys xs"
  obtains a i v b where "xs = a @ (i, k, v) # b" and "k \<notin> ckeys a" and "k \<notin> ckeys b"
proof -
  from assms(2) obtain i v where iv: "(i, k, v) \<in> set xs" by auto
  then obtain a b where ab: "xs = a @ (i, k, v) # b" by (meson split_list)
  have "k \<notin> ckeys a" "k \<notin> ckeys b"
    using ll_chainD(3) [OF assms(1)] by (simp_all add: ab)
  with ab show thesis using that by blast
qed

lemma kl_keys_chain [simp]: "fst ` snd ` set xs = ckeys xs"
  by (simp add: image_image)

context slab_laws
begin

lemma modify_occupied:
  assumes "slab_get S s i = Some n"
  obtains s' where "\<And>f. slab_modify S s i f = Some (s' f)"
    and "\<And>f. slab_get S (s' f) = (slab_get S s)(i \<mapsto> f n)"
  using assms slab_get_set that [of "\<lambda>f. slab_set S s i (f n)"] by (auto simp: slab_modify_def)

end

text \<open>A slab that holds the nodes of a list.\<close>

locale node_slab = slab_laws S for S :: "('s, 'k, 'v) node_slab_ops"
begin

lemma new_chain: "ll_chain S (ll_new S) []"
  by (simp add: ll_chain_def ll_new_def slab_get_new)

text \<open>
  Setting the link out of a segment at its right or left end, when there is such a node:
  the segment gets the new link, every other slab entry is untouched.
\<close>

lemma set_next_of_last:
  assumes d: "dseg (slab_get S s) p xs q" and dist: "distinct (map fst xs)" and t: "last_sid None xs = Some t"
  obtains s' where "slab_modify S s t (\<lambda>n. n\<lparr>node_next := q'\<rparr>) = Some s'"
    and "dseg (slab_get S s') p xs q'" and "\<And>j. j \<notin> sids xs \<Longrightarrow> slab_get S s' j = slab_get S s j"
    and "dom (slab_get S s') = dom (slab_get S s)"
proof -
  from t obtain ys y where xs: "xs = ys @ [y]" by (cases xs rule: rev_cases) auto
  with t have ty: "t = fst y" by simp
  from d xs ty obtain n where n: "slab_get S s t = Some n" by (cases y) auto
  from modify_occupied [OF n] obtain s' where "slab_modify S s t (\<lambda>n. n\<lparr>node_next := q'\<rparr>) = Some s'"
    and "slab_get S s' = (slab_get S s)(t \<mapsto> n\<lparr>node_next := q'\<rparr>)" by metis
  moreover have "dseg ((slab_get S s)(t \<mapsto> n\<lparr>node_next := q'\<rparr>)) p xs q'"
    using dseg_relink_next [of _ p ys y q n q'] d dist n unfolding xs ty by blast
  ultimately show thesis using that n xs ty by (auto simp: insert_absorb domI)
qed

lemma set_prev_of_first:
  assumes d: "dseg (slab_get S s) p xs q" and dist: "distinct (map fst xs)" and t: "first_sid None xs = Some t"
  obtains s' where "slab_modify S s t (\<lambda>n. n\<lparr>node_prev := p'\<rparr>) = Some s'"
    and "dseg (slab_get S s') p' xs q" and "\<And>j. j \<notin> sids xs \<Longrightarrow> slab_get S s' j = slab_get S s j"
    and "dom (slab_get S s') = dom (slab_get S s)"
proof -
  from t obtain y ys where xs: "xs = y # ys" by (cases xs) auto
  with t have ty: "t = fst y" by simp
  from d xs ty obtain n where n: "slab_get S s t = Some n" by (cases y) auto
  from modify_occupied [OF n] obtain s' where "slab_modify S s t (\<lambda>n. n\<lparr>node_prev := p'\<rparr>) = Some s'"
    and "slab_get S s' = (slab_get S s)(t \<mapsto> n\<lparr>node_prev := p'\<rparr>)" by metis
  moreover have "dseg ((slab_get S s)(t \<mapsto> n\<lparr>node_prev := p'\<rparr>)) p' xs q"
    using dseg_relink_prev [of _ p y ys q n p'] d dist n unfolding xs ty by blast
  ultimately show thesis using that n xs ty by (auto simp: insert_absorb domI)
qed

lemma push_back_chain:
  assumes c: "ll_chain S l xs" and k: "k \<notin> ckeys xs"
  shows "\<exists>l' i. ll_push_back S l k v = Some (True, l') \<and> ll_chain S l' (xs @ [(i, k, v)])"
proof -
  note cd = ll_chainD [OF c]
  obtain i s1 where ins: "slab_insert S (slab l) (node_new k v) = (i, s1)" by force
  from slab_get_insert [OF this] have fresh: "slab_get S (slab l) i = None"
    and g1: "slab_get S s1 = (slab_get S (slab l))(i \<mapsto> node_new k v)" by auto
  from fresh cd(4) have i: "i \<notin> sids xs" by (metis domIff)
  have nk: "key_to_sid l k = None" using indexes_None [OF cd(5)] k by simp
  show ?thesis
  proof (cases "last_sid None xs")
    case None
    then have "xs = []" by (simp add: last_sid_None)
    with cd k i nk ins g1 show ?thesis
      by (auto simp: ll_push_back_def ll_chain_def node_new_def indexes_def)
  next
    case (Some t)
    have "dseg (slab_get S s1) None xs None" using cd(1) i by (simp add: g1)
    then obtain s2 where m2: "slab_modify S s1 t (\<lambda>n. n\<lparr>node_next := Some i\<rparr>) = Some s2"
      and d2: "dseg (slab_get S s2) None xs (Some i)"
      and f2: "\<And>j. j \<notin> sids xs \<Longrightarrow> slab_get S s2 j = slab_get S s1 j"
      and dom2: "dom (slab_get S s2) = dom (slab_get S s1)"
      using set_next_of_last [OF _ cd(2) Some] by blast
    have o2: "slab_get S s2 i = Some (node_new k v)" using f2 [OF i] by (simp add: g1)
    from modify_occupied [OF o2] obtain s3 where
      m3: "slab_modify S s2 i (\<lambda>n. n\<lparr>node_prev := Some t\<rparr>) = Some s3"
      and g3: "slab_get S s3 = (slab_get S s2)(i \<mapsto> (node_new k v)\<lparr>node_prev := Some t\<rparr>)" by metis
    have "dseg (slab_get S s3) None (xs @ [(i, k, v)]) None"
      using d2 i Some by (simp add: g3 node_new_def)
    moreover have "first_sid (Some i) xs = first_sid None xs"
      using Some by (intro first_sid_cong) auto
    moreover have "indexes ((key_to_sid l)(k \<mapsto> i)) (xs @ [(i, k, v)])"
      using indexes_insert [of _ xs "[]"] cd(5) k by simp
    ultimately show ?thesis using cd k i nk ins m2 m3 dom2 Some
      by (auto simp: ll_push_back_def ll_chain_def g3 g1)
  qed
qed

lemma insert_before_chain:
  assumes c: "ll_chain S l (a @ (j, b, w) # r)" and k: "k \<notin> ckeys (a @ (j, b, w) # r)"
  shows "\<exists>l' i. ll_insert_before S l b k v = Some (True, l') \<and> ll_chain S l' (a @ (i, k, v) # (j, b, w) # r)"
proof -
  note cd = ll_chainD [OF c]
  let ?p = "last_sid None a"
  let ?node = "(node_new k v)\<lparr>node_prev := ?p, node_next := Some j\<rparr>"
  obtain i s1 where ins: "slab_insert S (slab l) ?node = (i, s1)" by force
  from slab_get_insert [OF this] have fresh: "slab_get S (slab l) i = None"
    and g1: "slab_get S s1 = (slab_get S (slab l))(i \<mapsto> ?node)" by auto
  from fresh cd(4) have i: "i \<notin> sids (a @ (j, b, w) # r)" by (metis domIff)
  have nk: "key_to_sid l k = None" using indexes_None [OF cd(5)] k by simp
  have bk: "key_to_sid l b = Some j" using indexes_Some [OF cd(5)] .
  have idx: "indexes ((key_to_sid l)(k \<mapsto> i)) (a @ (i, k, v) # (j, b, w) # r)"
    using indexes_insert [OF cd(5) k] .
  from cd(1) obtain n where n: "slab_get S (slab l) j = Some n" "node_prev n = ?p" by auto
  have r1: "dseg (slab_get S s1) ?p ((j, b, w) # r) None" and a1: "dseg (slab_get S s1) None a (Some j)"
    using cd(1) i by (simp_all add: g1)
  obtain s2 where m2: "slab_modify S s1 j (\<lambda>n. n\<lparr>node_prev := Some i\<rparr>) = Some s2"
    and r2: "dseg (slab_get S s2) (Some i) ((j, b, w) # r) None"
    and o2: "\<And>x. x \<notin> sids ((j, b, w) # r) \<Longrightarrow> slab_get S s2 x = slab_get S s1 x"
    and dom2: "dom (slab_get S s2) = dom (slab_get S s1)"
    using set_prev_of_first [OF r1] cd(2) by auto
  have aj: "sids a \<inter> sids ((j, b, w) # r) = {}" using cd(2) by auto
  have a2: "dseg (slab_get S s2) None a (Some j)"
    using dseg_agree [OF a1] o2 aj by blast
  have i2: "slab_get S s2 i = Some ?node" using o2 [of i] i by (simp add: g1)
  show ?thesis
  proof (cases ?p)
    case None
    then have "a = []" by (simp add: last_sid_None)
    with cd k i nk bk idx n ins m2 r2 i2 dom2 show ?thesis
      by (auto simp: ll_insert_before_def ll_chain_def node_new_def g1)
  next
    case (Some p)
    have "distinct (map fst a)" using cd(2) by simp
    from a2 this obtain s3 where m3: "slab_modify S s2 p (\<lambda>n. n\<lparr>node_next := Some i\<rparr>) = Some s3"
      and a3: "dseg (slab_get S s3) None a (Some i)"
      and o3: "\<And>x. x \<notin> sids a \<Longrightarrow> slab_get S s3 x = slab_get S s2 x"
      and dom3: "dom (slab_get S s3) = dom (slab_get S s2)"
      using set_next_of_last [OF _ _ Some] by blast
    have "dseg (slab_get S s3) (Some i) ((j, b, w) # r) None"
      using dseg_agree [OF r2] o3 aj by blast
    moreover have "slab_get S s3 i = Some ?node" using o3 [of i] i i2 by simp
    ultimately have "dseg (slab_get S s3) None (a @ (i, k, v) # (j, b, w) # r) None"
      using a3 Some by (simp add: node_new_def)
    moreover have "first_sid (Some i) a = first_sid (Some j) a"
      using Some by (intro first_sid_cong) auto
    ultimately show ?thesis using cd k i nk bk idx n ins m2 m3 dom2 dom3 Some
      by (auto simp: ll_insert_before_def ll_chain_def g1)
  qed
qed

lemma remove_chain:
  assumes c: "ll_chain S l (a @ (i, k, v) # b)"
  shows "\<exists>l'. ll_remove_node S l k = Some (True, l') \<and> ll_chain S l' (a @ b)"
proof -
  note cd = ll_chainD [OF c]
  let ?p = "last_sid None a" and ?n = "first_sid None b"
  have ks: "key_to_sid l k = Some i" using indexes_Some [OF cd(5)] .
  have idx: "indexes ((key_to_sid l)(k := None)) (a @ b)"
    using indexes_remove [OF cd(5)] cd(3) by simp
  have node: "slab_get S (slab l) i = Some \<lparr>node_key = k, node_value = v, node_next = ?n, node_prev = ?p\<rparr>"
    using cd(1) by simp
  from slab_remove_occupied [OF node] obtain s1 where
    rm: "slab_remove S (slab l) i = Some (\<lparr>node_key = k, node_value = v, node_next = ?n, node_prev = ?p\<rparr>, s1)"
    and g1: "slab_get S s1 = (slab_get S (slab l))(i := None)" by blast
  have a1: "dseg (slab_get S s1) None a (Some i)" and b1: "dseg (slab_get S s1) (Some i) b None"
    using cd(1,2) by (auto simp: g1)
  have ab: "sids a \<inter> sids b = {}" using cd(2) by auto
  obtain s2 where
    m2: "(case ?p of Some p \<Rightarrow> slab_modify S s1 p (\<lambda>m. m\<lparr>node_next := ?n\<rparr>) | None \<Rightarrow> Some s1) = Some s2"
    and a2: "dseg (slab_get S s2) None a ?n"
    and o2: "\<And>x. x \<notin> sids a \<Longrightarrow> slab_get S s2 x = slab_get S s1 x"
    and dom2: "dom (slab_get S s2) = dom (slab_get S s1)"
  proof (cases ?p)
    case None
    then have "a = []" by (simp add: last_sid_None)
    with None that [of s1] show thesis by simp
  next
    case (Some p)
    with set_next_of_last [OF a1 _ Some] cd(2) that show thesis by auto
  qed
  have b2: "dseg (slab_get S s2) (Some i) b None"
    using dseg_agree [OF b1] o2 ab by blast
  obtain s3 where
    m3: "(case ?n of Some n \<Rightarrow> slab_modify S s2 n (\<lambda>m. m\<lparr>node_prev := ?p\<rparr>) | None \<Rightarrow> Some s2) = Some s3"
    and b3: "dseg (slab_get S s3) ?p b None"
    and o3: "\<And>x. x \<notin> sids b \<Longrightarrow> slab_get S s3 x = slab_get S s2 x"
    and dom3: "dom (slab_get S s3) = dom (slab_get S s2)"
  proof (cases ?n)
    case None
    then have "b = []" by (cases b) auto
    with None that [of s2] show thesis by simp
  next
    case (Some n)
    with set_prev_of_first [OF b2 _ Some] cd(2) that show thesis by auto
  qed
  have a3: "dseg (slab_get S s3) None a ?n"
    using dseg_agree [OF a2] o3 ab by blast
  from a3 b3 have "dseg (slab_get S s3) None (a @ b) None" by simp
  moreover have "dom (slab_get S s3) = sids (a @ b)"
    using cd(2,4) by (auto simp: dom2 dom3 g1)
  ultimately have "ll_chain S \<lparr>key_to_sid = (key_to_sid l)(k := None), slab = s3,
      head = first_sid None (a @ b), tail = last_sid None (a @ b)\<rparr> (a @ b)"
    using cd(2,3) idx by (auto simp: ll_chain_def)
  moreover have "ll_remove_node S l k = Some (True, \<lparr>key_to_sid = (key_to_sid l)(k := None), slab = s3,
      head = first_sid None (a @ b), tail = last_sid None (a @ b)\<rparr>)"
    using ks rm m2 m3 cd(6,7) by (cases ?p; cases ?n; cases a; cases b)
      (auto simp: ll_remove_node_def)
  ultimately show ?thesis by blast
qed

lemma remove_front_chain:
  assumes c: "ll_chain S l ((i, k, v) # b)"
  shows "\<exists>l'. ll_remove_front S l = Some (Inr l') \<and> ll_chain S l' b"
proof -
  note cd = ll_chainD [OF c]
  let ?n = "first_sid None b"
  have idx: "indexes ((key_to_sid l)(k := None)) b"
    using indexes_remove [of "key_to_sid l" "[]" i k v b] cd(3,5) by simp
  have node: "slab_get S (slab l) i = Some \<lparr>node_key = k, node_value = v, node_next = ?n, node_prev = None\<rparr>"
    using cd(1) by simp
  from slab_remove_occupied [OF node] obtain s1 where
    rm: "slab_remove S (slab l) i = Some (\<lparr>node_key = k, node_value = v, node_next = ?n, node_prev = None\<rparr>, s1)"
    and g1: "slab_get S s1 = (slab_get S (slab l))(i := None)" by blast
  have b1: "dseg (slab_get S s1) (Some i) b None" using cd(1,2) by (auto simp: g1)
  have dom1: "dom (slab_get S s1) = sids b" using cd(2,4) by (auto simp: g1)
  show ?thesis
  proof (cases ?n)
    case None
    then have "b = []" by (cases b) auto
    with None rm cd idx dom1 show ?thesis by (auto simp: ll_remove_front_def ll_chain_def)
  next
    case (Some n)
    have db: "distinct (map fst b)" using cd(2) by simp
    obtain s2 where "slab_modify S s1 n (\<lambda>m. m\<lparr>node_prev := None\<rparr>) = Some s2"
      and "dseg (slab_get S s2) None b None" and "\<And>j. j \<notin> sids b \<Longrightarrow> slab_get S s2 j = slab_get S s1 j"
      and "dom (slab_get S s2) = dom (slab_get S s1)"
      using set_prev_of_first [OF b1 db Some, of None] by metis
    moreover have "last_sid (Some i) b = last_sid None b"
      using Some by (intro last_sid_cong) auto
    ultimately show ?thesis
      using Some rm cd idx dom1 by (auto simp: ll_remove_front_def ll_chain_def)
  qed
qed

lemma write_chain:
  assumes c: "ll_chain S l (a @ (i, k, v) # b)"
  obtains s' where "slab_modify S (slab l) i (\<lambda>n. n\<lparr>node_value := w\<rparr>) = Some s'"
    and "ll_chain S (l\<lparr>slab := s'\<rparr>) (a @ (i, k, w) # b)"
proof -
  note cd = ll_chainD [OF c]
  from cd(1) obtain n where n: "slab_get S (slab l) i = Some n" by auto
  from modify_occupied [OF n] obtain s' where m: "slab_modify S (slab l) i (\<lambda>n. n\<lparr>node_value := w\<rparr>) = Some s'"
    and g: "slab_get S s' = (slab_get S (slab l))(i \<mapsto> n\<lparr>node_value := w\<rparr>)" by metis
  have "dseg (slab_get S s') None (a @ (i, k, w) # b) None"
    unfolding g by (rule dseg_rewrite_value [OF cd(1) cd(2) n])
  moreover have "indexes (key_to_sid l) (a @ (i, k, w) # b)"
    using cd(5) by (auto simp: indexes_def)
  ultimately have "ll_chain S (l\<lparr>slab := s'\<rparr>) (a @ (i, k, w) # b)"
    using cd by (auto simp: ll_chain_def g)
  with m show thesis by (rule that)
qed

lemma fold_dseg:
  "dseg (slab_get S s) p xs None \<Longrightarrow>
    ll_fold_from S s (first_sid None xs) f acc = Some (foldl f acc (map (\<lambda>x. snd (snd x)) xs))"
proof (induction xs arbitrary: p acc)
  case Nil
  then show ?case by (simp add: ll_fold_from.simps)
next
  case (Cons x xs)
  obtain i k v where x: "x = (i, k, v)" by (cases x)
  with Cons.prems have "dseg (slab_get S s) (Some i) xs None" by simp
  from Cons.IH [OF this] x Cons.prems show ?case
    by (simp add: ll_fold_from.simps [of S s "Some c" for c])
qed

lemma fold_chain: "ll_chain S l xs \<Longrightarrow> ll_fold S l f init = Some (kl_fold (map snd xs) f init)"
  using fold_dseg [OF ll_chainD(1)] by (auto simp: ll_fold_def kl_fold_def ll_chainD(6) comp_def)

lemma to_vec_chain: "ll_chain S l xs \<Longrightarrow> ll_to_vec S l = Some (kl_to_vec (map snd xs))"
proof -
  assume c: "ll_chain S l xs"
  have "foldl (\<lambda>res v. res @ [v]) acc vs = acc @ vs" for acc vs :: "'v list"
    by (induction vs arbitrary: acc) auto
  with fold_dseg [OF ll_chainD(1) [OF c], of "\<lambda>res v. res @ [v]" "[]"] ll_chainD(6) [OF c]
  show ?thesis by (simp add: ll_to_vec_def kl_to_vec_def comp_def)
qed

text \<open>One call of a method on the nodes is the same call on the sequence.\<close>

lemma push_back_refines:
  assumes c: "ll_chain S l xs"
  shows "\<exists>l'. ll_push_back S l k v = Some (fst (kl_push_back (map snd xs) k v), l')
    \<and> ll_rep S l' (snd (kl_push_back (map snd xs) k v))"
proof (cases "k \<in> ckeys xs")
  case True
  then have "key_to_sid l k \<noteq> None" using indexes_None [OF ll_chainD(5) [OF c]] by blast
  with c True show ?thesis by (auto simp: ll_push_back_def kl_push_back_def ll_rep_def)
next
  case False
  from push_back_chain [OF c False, of v] False show ?thesis
    by (fastforce simp: kl_push_back_def ll_rep_def)
qed

lemma insert_before_refines:
  assumes c: "ll_chain S l xs"
  shows "\<exists>l'. ll_insert_before S l b k v = Some (fst (kl_insert_before (map snd xs) b k v), l')
    \<and> ll_rep S l' (snd (kl_insert_before (map snd xs) b k v))"
proof (cases "k \<in> ckeys xs \<or> b \<notin> ckeys xs")
  case True
  then have "\<not> key_to_sid l k = None \<or> key_to_sid l b = None"
    by (simp only: indexes_None [OF ll_chainD(5) [OF c]] not_not)
  with c True show ?thesis
    by (cases "key_to_sid l k") (auto simp: ll_insert_before_def kl_insert_before_def ll_rep_def)
next
  case False
  then have "b \<in> ckeys xs" by simp
  from chain_split [OF c this] obtain a j w r where xs: "xs = a @ (j, b, w) # r" "b \<notin> ckeys a"
    by metis
  have "kl_place b (k, v) (map snd xs) = map snd a @ (k, v) # (b, w) # map snd r"
    using xs kl_place_append [of b "map snd a"] by simp
  with False have "kl_insert_before (map snd xs) b k v = (True, map snd a @ (k, v) # (b, w) # map snd r)"
    by (simp add: kl_insert_before_def)
  moreover obtain l' i where "ll_insert_before S l b k v = Some (True, l')"
    and "ll_chain S l' (a @ (i, k, v) # (j, b, w) # r)"
    using insert_before_chain [of l a j b w r k v] c False unfolding xs by blast
  ultimately show ?thesis by (fastforce simp: ll_rep_def)
qed

lemma remove_node_refines:
  assumes c: "ll_chain S l xs"
  shows "\<exists>l'. ll_remove_node S l k = Some (fst (kl_remove_node (map snd xs) k), l')
    \<and> ll_rep S l' (snd (kl_remove_node (map snd xs) k))"
proof (cases "k \<in> ckeys xs")
  case False
  then have "key_to_sid l k = None" using indexes_None [OF ll_chainD(5) [OF c]] by blast
  with c False show ?thesis by (auto simp: ll_remove_node_def kl_remove_node_def ll_rep_def)
next
  case True
  from chain_split [OF c this] obtain a i v b
    where xs: "xs = a @ (i, k, v) # b" "k \<notin> ckeys a" "k \<notin> ckeys b" by metis
  then have "filter (\<lambda>x. fst x \<noteq> k) (map snd a) = map snd a" "filter (\<lambda>x. fst x \<noteq> k) (map snd b) = map snd b"
    by (auto simp: filter_id_conv)
  with True xs(1) have "kl_remove_node (map snd xs) k = (True, map snd (a @ b))"
    by (simp add: kl_remove_node_def)
  moreover obtain l' where "ll_remove_node S l k = Some (True, l')" and "ll_chain S l' (a @ b)"
    using remove_chain [of l a i k v b] c unfolding xs by blast
  ultimately show ?thesis by (auto simp: ll_rep_def)
qed

lemma remove_front_refines:
  assumes c: "ll_chain S l xs"
  shows "\<exists>l'. ll_step S l RemoveFront = Some (fst (kl_step (map snd xs) RemoveFront), l')
    \<and> ll_rep S l' (snd (kl_step (map snd xs) RemoveFront))"
proof (cases xs)
  case Nil
  with c ll_chainD(6) [OF c] show ?thesis
    by (auto simp: ll_remove_front_def kl_remove_front_def ll_rep_def)
next
  case (Cons x ys)
  obtain i k v where x: "x = (i, k, v)" by (cases x)
  with c Cons remove_front_chain [of l i k v ys] show ?thesis
    by (auto simp: kl_remove_front_def ll_rep_def)
qed

lemma head_refines:
  assumes c: "ll_chain S l xs"
  shows "ll_head_value S l = Some (kl_head_value (map snd xs))"
    and "\<exists>l'. ll_write_head S l w = Some l' \<and> ll_rep S l' (kl_write_head (map snd xs) w)"
proof -
  show "ll_head_value S l = Some (kl_head_value (map snd xs))"
    using ll_chainD(1,6) [OF c] by (cases xs) (auto simp: ll_head_value_def kl_head_value_def)
  show "\<exists>l'. ll_write_head S l w = Some l' \<and> ll_rep S l' (kl_write_head (map snd xs) w)"
  proof (cases xs)
    case Nil
    with c ll_chainD(6) [OF c] show ?thesis
      by (auto simp: ll_write_head_def kl_write_head_def ll_rep_def)
  next
    case (Cons x ys)
    obtain i k v where x: "x = (i, k, v)" by (cases x)
    with c Cons obtain s' where "slab_modify S (slab l) i (\<lambda>n. n\<lparr>node_value := w\<rparr>) = Some s'"
      and "ll_chain S (l\<lparr>slab := s'\<rparr>) ((i, k, w) # ys)"
      using write_chain [of l "[]" i k v ys w] by auto
    with ll_chainD(6) [OF c] Cons x show ?thesis
      by (fastforce simp: ll_write_head_def kl_write_head_def ll_rep_def)
  qed
qed

lemma node_refines:
  assumes c: "ll_chain S l xs"
  shows "ll_node_value S l k = Some (kl_node_value (map snd xs) k)"
    and "\<exists>l'. ll_write_node S l k w = Some l' \<and> ll_rep S l' (kl_write_node (map snd xs) k w)"
proof -
  consider (absent) "k \<notin> ckeys xs" "key_to_sid l k = None"
    | (present) a i v b where "xs = a @ (i, k, v) # b" "k \<notin> ckeys a" "k \<notin> ckeys b"
    using chain_split [OF c] indexes_None [OF ll_chainD(5) [OF c]] by metis
  then have "ll_node_value S l k = Some (kl_node_value (map snd xs) k)
    \<and> (\<exists>l'. ll_write_node S l k w = Some l' \<and> ll_rep S l' (kl_write_node (map snd xs) k w))"
  proof cases
    case absent
    then have "kl_node_value (map snd xs) k = None" "kl_write_node (map snd xs) k w = map snd xs"
      by (auto simp: kl_node_value_def kl_write_node_def map_of_eq_None_iff intro!: map_idI)
    with absent c show ?thesis
      by (auto simp: ll_node_value_def ll_write_node_def ll_rep_def)
  next
    case present
    have ks: "key_to_sid l k = Some i" using indexes_Some ll_chainD(5) [OF c] present(1) by metis
    have "map_of (map snd a) k = None" using present(2) by (simp add: map_of_eq_None_iff)
    then have val: "kl_node_value (map snd xs) k = Some v"
      by (simp add: kl_node_value_def present(1) map_add_def)
    have wr: "kl_write_node (map snd xs) k w = map snd (a @ (i, k, w) # b)"
      using present by (auto simp: kl_write_node_def)
    obtain s' where "slab_modify S (slab l) i (\<lambda>n. n\<lparr>node_value := w\<rparr>) = Some s'"
      and "ll_chain S (l\<lparr>slab := s'\<rparr>) (a @ (i, k, w) # b)"
      using write_chain [of l a i k v b w] c unfolding present(1) by blast
    then have "\<exists>l'. ll_write_node S l k w = Some l' \<and> ll_rep S l' (map snd (a @ (i, k, w) # b))"
      using ks unfolding ll_write_node_def ll_rep_def by auto
    moreover have "ll_node_value S l k = Some (Some v)"
      using ll_chainD(1) [OF c] ks by (simp add: ll_node_value_def present(1))
    ultimately show ?thesis by (simp only: val wr)
  qed
  then show "ll_node_value S l k = Some (kl_node_value (map snd xs) k)"
    and "\<exists>l'. ll_write_node S l k w = Some l' \<and> ll_rep S l' (kl_write_node (map snd xs) k w)" by auto
qed

lemma step_refines:
  assumes "ll_rep S l kvs"
  shows "\<exists>l'. ll_step S l op = Some (fst (kl_step kvs op), l') \<and> ll_rep S l' (snd (kl_step kvs op))"
proof -
  from assms obtain xs where c: "ll_chain S l xs" and kvs: "kvs = map snd xs"
    unfolding ll_rep_def by blast
  show ?thesis
  proof (cases op)
    case (PushBack k v)
    with push_back_refines [OF c, of k v] show ?thesis by (auto simp: kvs)
  next
    case (InsertBefore b k v)
    with insert_before_refines [OF c, of b k v] show ?thesis by (auto simp: kvs)
  next
    case IsEmpty
    with assms ll_chainD(6) [OF c] kvs show ?thesis
      by (cases xs) (auto simp: ll_is_empty_def kl_is_empty_def)
  next
    case HeadValue
    with assms head_refines(1) [OF c] show ?thesis by (auto simp: kvs)
  next
    case (WriteHead w)
    with head_refines(1) [OF c] head_refines(2) [OF c, of w] show ?thesis by (auto simp: kvs)
  next
    case RemoveFront
    with remove_front_refines [OF c] show ?thesis by (auto simp: kvs)
  next
    case (RemoveNode k)
    with remove_node_refines [OF c, of k] show ?thesis by (auto simp: kvs)
  next
    case (NodeValue k)
    with assms node_refines(1) [OF c] show ?thesis by (auto simp: kvs)
  next
    case (WriteNode k w)
    with node_refines(1) [OF c, of k] node_refines(2) [OF c, of k w] show ?thesis by (auto simp: kvs)
  next
    case ToVec
    with assms to_vec_chain [OF c] show ?thesis by (auto simp: kvs)
  qed
qed

lemma rep_new: "ll_rep S (ll_new S) kl_new"
  using new_chain by (auto simp: ll_rep_def kl_new_def)

end

text \<open>The linked list is a provider of keyed lists, over any slab that keeps its contract.\<close>

sublocale node_slab \<subseteq> nodes: keyed_queue "ll_rep S" "ll_new S" "ll_step S"
  by unfold_locales (rule rep_new, rule step_refines)

context node_slab
begin

lemma run_new: "run_steps (ll_step S) (ll_new S) ops = Some (kl_run [] ops)"
  by (rule nodes.run_from_new)

end

section \<open>A slab that keeps the contract\<close>

text \<open>
  A vector of optional entries whose first vacant slot is reused satisfies the laws, so they
  are consistent; it is the slab the witnesses run on.
\<close>

definition vacant_key :: "'n option list \<Rightarrow> nat" where
  "vacant_key s = length (takeWhile (\<lambda>e. e \<noteq> None) s)"

definition vec_slab :: "('n option list, 'n) slab_ops" where
  "vec_slab = \<lparr>slab_new = [],
     slab_insert = (\<lambda>s n. let i = vacant_key s in
       (i, if i < length s then s[i := Some n] else s @ [Some n])),
     slab_remove = (\<lambda>s i. if i < length s then map_option (\<lambda>n. (n, s[i := None])) (s ! i) else None),
     slab_get = (\<lambda>s i. if i < length s then s ! i else None),
     slab_set = (\<lambda>s i n. s[i := Some n])\<rparr>"

lemma vacant_key_vacant: "vacant_key s < length s \<Longrightarrow> s ! vacant_key s = None"
  unfolding vacant_key_def using nth_length_takeWhile by fastforce

lemma vacant_key_le: "vacant_key s \<le> length s"
  by (simp add: vacant_key_def length_takeWhile_le)

interpretation vec: node_slab vec_slab
proof unfold_locales
  fix s :: "('k, 'v) node option list" and n i s'
  assume "slab_insert vec_slab s n = (i, s')"
  then show "slab_get vec_slab s i = None \<and> slab_get vec_slab s' = (slab_get vec_slab s)(i \<mapsto> n)"
    using vacant_key_vacant [of s] vacant_key_le [of s]
    by (auto simp: vec_slab_def Let_def fun_eq_iff nth_append split: if_splits)
qed (auto simp: vec_slab_def fun_eq_iff split: if_splits)

section \<open>The contract of the linked list\<close>

text \<open>
  C6. Whatever sequence of method calls a client makes on a list created by \<open>LinkedList::new\<close>,
  over any slab that keeps its documented contract, no call panics, every traversal ends,
  and the client sees exactly the results of the same calls on the sequence of (key, value)
  pairs from head to tail.
\<close>

theorem linked_list_implements_keyed_list:
  assumes "slab_laws S"
  shows "run_steps (ll_step S) (ll_new S) ops = Some (kl_run [] ops)"
proof -
  have "node_slab S" using assms by (rule node_slab.intro)
  then show ?thesis by (rule node_slab.run_new)
qed

theorem linked_list_implements_keyed_list_witness:
  "run_steps (ll_step vec_slab) (ll_new vec_slab)
     [PushBack (10::nat) ''a'', PushBack 20 ''b'', InsertBefore 20 15 ''m'', RemoveNode 10,
      InsertBefore 99 40 ''x'', WriteHead ''w'', ToVec, RemoveFront, NodeValue 20, RemoveFront,
      RemoveFront, IsEmpty]
   = Some [Returned True, Returned True, Returned True, Returned True, Returned False,
      Value (Some ''m''), Values [''w'', ''b''], Outcome (Inr ()), Value (Some ''b''),
      Outcome (Inr ()), Outcome (Inl ListIsEmpty), Returned True]"
  unfolding linked_list_implements_keyed_list [OF vec.slab_laws_axioms]
  by (simp add: kl_push_back_def kl_insert_before_def kl_remove_node_def kl_remove_front_def kl_write_head_def
      kl_head_value_def kl_node_value_def kl_to_vec_def kl_is_empty_def)

end
