(* ===== verification/Book_Types.thy ===== *)
theory Book_Types
  imports Book_Prelude
begin

text \<open>
  The value types of \<open>server/src/order_book/types.rs\<close> and the resting order of
  \<open>server/src/types/inner.rs\<close>: sides, prices, sizes, order ids, coins, \<open>InnerL4Order\<close> with
  its implementation of the \<open>InnerOrder\<close> trait, and \<open>InnerLevel\<close>. The derived orders on
  prices, sizes and coins are class instances, so the library's order reasoning applies.
\<close>

section \<open>Newtypes\<close>

datatype side = Ask | Bid

datatype oid = Oid (oid_value: u64)

datatype px = Px (px_value: u64)

datatype sz = Sz (sz_value: u64)

datatype coin = Coin (coin_value: string)

instantiation px :: linorder
begin

definition less_eq_px :: "px \<Rightarrow> px \<Rightarrow> bool" where
  "p \<le> q \<longleftrightarrow> px_value p \<le> px_value q"

definition less_px :: "px \<Rightarrow> px \<Rightarrow> bool" where
  "p < q \<longleftrightarrow> px_value p < px_value q"

instance
  by standard (auto simp: less_eq_px_def less_px_def px.expand)

end

instantiation sz :: linorder
begin

definition less_eq_sz :: "sz \<Rightarrow> sz \<Rightarrow> bool" where
  "a \<le> b \<longleftrightarrow> sz_value a \<le> sz_value b"

definition less_sz :: "sz \<Rightarrow> sz \<Rightarrow> bool" where
  "a < b \<longleftrightarrow> sz_value a < sz_value b"

instance
  by standard (auto simp: less_eq_sz_def less_sz_def sz.expand)

end

instantiation coin :: linorder
begin

definition less_eq_coin :: "coin \<Rightarrow> coin \<Rightarrow> bool" where
  "c \<le> d \<longleftrightarrow> coin_value c \<le> coin_value d"

definition less_coin :: "coin \<Rightarrow> coin \<Rightarrow> bool" where
  "c < d \<longleftrightarrow> coin_value c < coin_value d"

instance
  by standard (auto simp: less_eq_coin_def less_coin_def coin.expand)

end

lemma sz_value_min [simp]: "sz_value (min a b) = min (sz_value a) (sz_value b)"
  by (simp add: min_def less_eq_sz_def)

lemma px_neq_iff: "p \<noteq> q \<longleftrightarrow> px_value p \<noteq> px_value q"
  by (auto simp: px.expand)

section \<open>Sizes, prices and coins\<close>

definition sz_is_positive :: "sz \<Rightarrow> bool" where
  "sz_is_positive s \<longleftrightarrow> sz_value s > 0"

definition sz_is_zero :: "sz \<Rightarrow> bool" where
  "sz_is_zero s \<longleftrightarrow> sz_value s = 0"

definition sz_decrement :: "sz \<Rightarrow> u64 \<Rightarrow> sz" where
  "sz_decrement s dec = Sz (u64_saturating_sub (sz_value s) dec)"

definition sz_add :: "sz \<Rightarrow> sz \<Rightarrow> sz" where
  "sz_add a b = Sz (sz_value a + sz_value b)"

definition is_spot :: "coin \<Rightarrow> bool" where
  "is_spot c \<longleftrightarrow>
     (case coin_value c of [] \<Rightarrow> False | ch # _ \<Rightarrow> ch = CHR 0x40) \<or> coin_value c = ''PURR/USDC''"

text \<open>A size as a natural number; the quantity the conservation results count.\<close>

abbreviation qty :: "sz \<Rightarrow> nat" where
  "qty s \<equiv> unat (sz_value s)"

lemma sz_is_zero_qty [book_simps]: "sz_is_zero s \<longleftrightarrow> qty s = 0"
  by (simp add: sz_is_zero_def unat_eq_0)

lemma sz_is_positive_qty [book_simps]: "sz_is_positive s \<longleftrightarrow> 0 < qty s"
  by (simp add: sz_is_positive_def word_gt_0 unat_gt_0)

lemma qty_sz_decrement [simp]: "qty (sz_decrement s dec) = qty s - unat dec"
  by (simp add: sz_decrement_def)

section \<open>The resting order\<close>

type_synonym address = "160 word"

record inner_l4_order =
  io_user :: address
  io_coin :: coin
  io_side :: side
  io_limit_px :: px
  io_sz :: sz
  io_oid :: u64
  io_timestamp :: u64
  io_trigger_condition :: string
  io_is_trigger :: bool
  io_trigger_px :: string
  io_is_position_tpsl :: bool
  io_reduce_only :: bool
  io_order_type :: string
  io_tif :: "string option"
  io_cloid :: "string option"

record inner_level =
  il_px :: px
  il_sz :: sz
  il_n :: usize

text \<open>\<open>impl InnerOrder for InnerL4Order\<close>.\<close>

definition order_oid :: "inner_l4_order \<Rightarrow> oid" where
  "order_oid o1 = Oid (io_oid o1)"

definition decrement_sz :: "inner_l4_order \<Rightarrow> sz \<Rightarrow> inner_l4_order" where
  "decrement_sz o1 dec = o1\<lparr>io_sz := sz_decrement (io_sz o1) (sz_value dec)\<rparr>"

definition modify_order_sz :: "inner_l4_order \<Rightarrow> sz \<Rightarrow> inner_l4_order" where
  "modify_order_sz o1 s = o1\<lparr>io_sz := s\<rparr>"

text \<open>\<open>taker.fill(&mut maker)\<close>: the new taker, the new maker and the matched size.\<close>

definition fill :: "inner_l4_order \<Rightarrow> inner_l4_order \<Rightarrow> inner_l4_order \<times> inner_l4_order \<times> sz" where
  "fill self maker_order =
     (let match_sz = min (io_sz self) (io_sz maker_order)
      in (decrement_sz self match_sz, decrement_sz maker_order match_sz, match_sz))"

definition convert_trigger :: "inner_l4_order \<Rightarrow> u64 \<Rightarrow> inner_l4_order" where
  "convert_trigger o1 ts =
     (if io_is_trigger o1
      then o1\<lparr>io_trigger_px := ''0.0'', io_trigger_condition := ''Triggered'', io_is_trigger := False,
        io_timestamp := ts, io_tif := Some ''Gtc''\<rparr>
      else o1)"

section \<open>Facts about filling\<close>

lemma decrement_sz_fields [simp]:
  "io_oid (decrement_sz o1 d) = io_oid o1" "io_side (decrement_sz o1 d) = io_side o1"
  "io_limit_px (decrement_sz o1 d) = io_limit_px o1" "io_coin (decrement_sz o1 d) = io_coin o1"
  "order_oid (decrement_sz o1 d) = order_oid o1"
  "qty (io_sz (decrement_sz o1 d)) = qty (io_sz o1) - qty d"
  by (simp_all add: decrement_sz_def order_oid_def)

lemma modify_order_sz_fields [simp]:
  "io_oid (modify_order_sz o1 s) = io_oid o1" "io_side (modify_order_sz o1 s) = io_side o1"
  "io_limit_px (modify_order_sz o1 s) = io_limit_px o1" "io_coin (modify_order_sz o1 s) = io_coin o1"
  "order_oid (modify_order_sz o1 s) = order_oid o1" "io_sz (modify_order_sz o1 s) = s"
  by (simp_all add: modify_order_sz_def order_oid_def)

lemma convert_trigger_fields [simp]:
  "io_oid (convert_trigger o1 t) = io_oid o1" "io_side (convert_trigger o1 t) = io_side o1"
  "io_limit_px (convert_trigger o1 t) = io_limit_px o1" "io_coin (convert_trigger o1 t) = io_coin o1"
  "order_oid (convert_trigger o1 t) = order_oid o1" "io_sz (convert_trigger o1 t) = io_sz o1"
  by (simp_all add: convert_trigger_def order_oid_def)

lemma unat_min: "unat (min a b) = min (unat a) (unat (b :: 'a::len word))"
  by (simp add: min_def word_le_nat_alt)

lemma qty_fill [simp]:
  "fill t m = (t', m', q) \<Longrightarrow> qty (io_sz t') = qty (io_sz t) - qty (io_sz m)"
  "fill t m = (t', m', q) \<Longrightarrow> qty (io_sz m') = qty (io_sz m) - qty (io_sz t)"
  "fill t m = (t', m', q) \<Longrightarrow> qty q = min (qty (io_sz t)) (qty (io_sz m))"
  by (auto simp: fill_def Let_def unat_min)

text \<open>Filling changes nothing but the two sizes, so a maker filled for nothing is unchanged.\<close>

lemma fill_maker:
  "fill t m = (t', m', q) \<Longrightarrow> m' = m\<lparr>io_sz := Sz (of_nat (qty (io_sz m) - qty (io_sz t)))\<rparr>"
proof -
  assume f: "fill t m = (t', m', q)"
  then have "m' = m\<lparr>io_sz := io_sz m'\<rparr>" by (auto simp: fill_def Let_def decrement_sz_def)
  moreover have "io_sz m' = Sz (of_nat (qty (io_sz m')))" by simp
  ultimately show ?thesis using qty_fill(2) [OF f] by metis
qed

lemma fill_taker:
  "fill t m = (t', m', q) \<Longrightarrow> t' = t\<lparr>io_sz := Sz (of_nat (qty (io_sz t) - qty (io_sz m)))\<rparr>"
proof -
  assume f: "fill t m = (t', m', q)"
  then have "t' = t\<lparr>io_sz := io_sz t'\<rparr>" by (auto simp: fill_def Let_def decrement_sz_def)
  moreover have "io_sz t' = Sz (of_nat (qty (io_sz t')))" by simp
  ultimately show ?thesis using qty_fill(1) [OF f] by metis
qed

end
