(* ===== verification/Fixed_Point.thy ===== *)
theory Fixed_Point
  imports Complex_Main Book_Types
begin

text \<open>
  Prices and sizes as decimal strings (\<open>parse_from_str\<close> and \<open>to_str\<close> of
  \<open>server/src/order_book/types.rs\<close>). Both go through \<open>f64\<close>: what the code uses of it is modelled
  on exact rationals, every operation rounded to nearest, ties to even, with 53 bits of
  precision. A finite value is a sign and a magnitude.
\<close>

section \<open>Binary floating point\<close>

datatype f64 = NaN | Inf bool | Fin bool rat

definition round_half_even :: "rat \<Rightarrow> int" where
  "round_half_even x =
     (let f = \<lfloor>x\<rfloor>; r = x - of_int f
      in if r < 1/2 then f else if r > 1/2 then f + 1 else if even f then f else f + 1)"

definition two_powr :: "int \<Rightarrow> rat" where
  "two_powr e = (if 0 \<le> e then 2 ^ nat e else 1 / 2 ^ nat (- e))"

function bit_length :: "int \<Rightarrow> int" where
  "bit_length n = (if n \<le> 0 then 0 else 1 + bit_length (n div 2))"
  by pat_completeness auto
termination
  by (relation "measure nat") auto

declare bit_length.simps [simp del]

text \<open>The exponent of the leading bit of a positive rational.\<close>

definition lead_exp :: "rat \<Rightarrow> int" where
  "lead_exp x =
     (let (a, b) = quotient_of x; k = bit_length a - bit_length b
      in if two_powr k \<le> x then k else k - 1)"

text \<open>Rounds a non-negative magnitude; \<open>None\<close> when it exceeds the largest finite value.\<close>

definition round_mag :: "rat \<Rightarrow> rat option" where
  "round_mag x =
     (if x = 0 then Some 0
      else
        let e = max (lead_exp x - 52) (- 1074); r = of_int (round_half_even (x / two_powr e)) * two_powr e
        in if two_powr 1024 \<le> r then None else Some r)"

definition f64_of_mag :: "bool \<Rightarrow> rat \<Rightarrow> f64" where
  "f64_of_mag neg x = (case round_mag x of None \<Rightarrow> Inf neg | Some r \<Rightarrow> Fin neg r)"

definition f64_of_u64 :: "u64 \<Rightarrow> f64" where
  "f64_of_u64 v = f64_of_mag False (of_int (uint v))"

text \<open>Multiplication and division by a positive finite constant.\<close>

definition f64_times :: "f64 \<Rightarrow> rat \<Rightarrow> f64" where
  "f64_times x c = (case x of Fin neg q \<Rightarrow> f64_of_mag neg (q * c) | _ \<Rightarrow> x)"

definition f64_divide :: "f64 \<Rightarrow> rat \<Rightarrow> f64" where
  "f64_divide x c = (case x of Fin neg q \<Rightarrow> f64_of_mag neg (q / c) | _ \<Rightarrow> x)"

text \<open>\<open>f64::round\<close>: half away from zero.\<close>

definition f64_round :: "f64 \<Rightarrow> f64" where
  "f64_round x = (case x of Fin neg q \<Rightarrow> Fin neg (of_int \<lfloor>q + 1/2\<rfloor>) | _ \<Rightarrow> x)"

text \<open>\<open>as u64\<close> saturates; NaN and negative values give 0.\<close>

definition f64_to_u64 :: "f64 \<Rightarrow> u64" where
  "f64_to_u64 x =
     (case x of
        NaN \<Rightarrow> 0
      | Inf neg \<Rightarrow> if neg then 0 else - 1
      | Fin neg q \<Rightarrow> if neg then 0 else if 2 ^ 64 \<le> q then - 1 else of_int \<lfloor>q\<rfloor>)"

section \<open>Decimal strings\<close>

definition is_digit :: "char \<Rightarrow> bool" where
  "is_digit c \<longleftrightarrow> 48 \<le> (of_char c :: int) \<and> of_char c \<le> (57 :: int)"

definition digit_value :: "char \<Rightarrow> int" where
  "digit_value c = of_char c - 48"

definition digit_char :: "int \<Rightarrow> char" where
  "digit_char d = char_of (48 + d)"

definition digits_value :: "string \<Rightarrow> int" where
  "digits_value ds = foldl (\<lambda>a c. 10 * a + digit_value c) 0 ds"

definition lower :: "char \<Rightarrow> char" where
  "lower c = (if 65 \<le> (of_char c :: int) \<and> of_char c \<le> (90 :: int) then char_of (of_char c + 32 :: int) else c)"

text \<open>
  The grammar of \<open>f64::from_str\<close>: an optional sign, then \<open>inf\<close>, \<open>infinity\<close> or \<open>nan\<close> in any
  case, or digits with an optional point (at least one digit on either side of it) and an
  optional exponent. The result is the exact rational, rounded once.
\<close>

definition split_sign :: "string \<Rightarrow> bool \<times> string" where
  "split_sign s =
     (case s of
        [] \<Rightarrow> (False, [])
      | c # r \<Rightarrow> if c = CHR ''-'' then (True, r) else if c = CHR ''+'' then (False, r) else (False, s))"

definition parse_exponent :: "string \<Rightarrow> int option" where
  "parse_exponent s =
     (case s of
        [] \<Rightarrow> Some 0
      | c # rest \<Rightarrow>
          if c = CHR ''e'' \<or> c = CHR ''E'' then
            let (neg, ds) = split_sign rest
            in if ds \<noteq> [] \<and> list_all is_digit ds
               then Some (if neg then - digits_value ds else digits_value ds)
               else None
          else None)"

definition ten_powr :: "int \<Rightarrow> rat" where
  "ten_powr e = (if 0 \<le> e then 10 ^ nat e else 1 / 10 ^ nat (- e))"

definition parse_decimal :: "string \<Rightarrow> rat option" where
  "parse_decimal s =
     (let whole = takeWhile is_digit s; rest = dropWhile is_digit s;
          (frac, tail) = (case rest of
             [] \<Rightarrow> ([], [])
           | c # r \<Rightarrow> if c = CHR ''.'' then (takeWhile is_digit r, dropWhile is_digit r) else ([], rest))
      in if whole = [] \<and> frac = [] then None
         else
           (case parse_exponent tail of
              None \<Rightarrow> None
            | Some e \<Rightarrow> Some (of_int (digits_value (whole @ frac)) * ten_powr (e - int (length frac)))))"

definition parse_f64 :: "string \<Rightarrow> f64 result" where
  "parse_f64 s =
     (let (neg, body) = split_sign s;
          word = map lower body
      in if word = ''nan'' then Inr NaN
         else if word = ''inf'' \<or> word = ''infinity'' then Inr (Inf neg)
         else (case parse_decimal body of
                 None \<Rightarrow> Inl (ParseFloatError s)
               | Some q \<Rightarrow> Inr (f64_of_mag neg q)))"

function int_digits :: "int \<Rightarrow> string" where
  "int_digits n = (if n < 10 then [digit_char n] else int_digits (n div 10) @ [digit_char (n mod 10)])"
  by pat_completeness auto
termination
  by (relation "measure nat") auto

declare int_digits.simps [simp del]

fun fixed_digits :: "nat \<Rightarrow> int \<Rightarrow> string" where
  "fixed_digits 0 n = []"
| "fixed_digits (Suc k) n = fixed_digits k (n div 10) @ [digit_char (n mod 10)]"

text \<open>\<open>format!("{:.8}", x)\<close>: the exact value rounded to eight decimals, ties to even.\<close>

definition format8 :: "f64 \<Rightarrow> string" where
  "format8 x =
     (case x of
        NaN \<Rightarrow> ''NaN''
      | Inf neg \<Rightarrow> (if neg then ''-inf'' else ''inf'')
      | Fin neg q \<Rightarrow>
          let n = round_half_even (q * 10 ^ 8)
          in (if neg then ''-'' else []) @ int_digits (n div 10 ^ 8) @ ''.'' @ fixed_digits 8 (n mod 10 ^ 8))"

definition trim_end_matches :: "char \<Rightarrow> string \<Rightarrow> string" where
  "trim_end_matches c s = rev (dropWhile (\<lambda>x. x = c) (rev s))"

section \<open>The code\<close>

definition MULTIPLIER :: rat where
  "MULTIPLIER = 100000000"

definition px_parse_from_str :: "string \<Rightarrow> px result" where
  "px_parse_from_str value =
     (case parse_f64 value of
        Inl e \<Rightarrow> Inl e
      | Inr f \<Rightarrow> Inr (Px (f64_to_u64 (f64_round (f64_times f MULTIPLIER)))))"

definition sz_parse_from_str :: "string \<Rightarrow> sz result" where
  "sz_parse_from_str value =
     (case parse_f64 value of
        Inl e \<Rightarrow> Inl e
      | Inr f \<Rightarrow> Inr (Sz (f64_to_u64 (f64_round (f64_times f MULTIPLIER)))))"

definition px_to_str :: "px \<Rightarrow> string" where
  "px_to_str p =
     (let s = format8 (f64_divide (f64_of_u64 (px_value p)) MULTIPLIER);
          s = trim_end_matches (CHR ''0'') s
      in trim_end_matches (CHR ''.'') s)"

definition sz_to_str :: "sz \<Rightarrow> string" where
  "sz_to_str z =
     (let s = format8 (f64_divide (f64_of_u64 (sz_value z)) MULTIPLIER);
          s = trim_end_matches (CHR ''0'') s
      in trim_end_matches (CHR ''.'') s)"

text \<open>\<open>Debug for Px\<close> and \<open>Debug for Sz\<close> print the same quotient with \<open>{}\<close>; only log lines use them.\<close>

section \<open>Rounding error\<close>

lemma two_powr_powi: "two_powr e = 2 powi e"
  by (simp add: two_powr_def power_int_def field_simps)

lemma two_powi_less: "(2::rat) powi a < 2 powi b \<Longrightarrow> a < b"
proof (rule ccontr)
  assume "(2::rat) powi a < 2 powi b" "\<not> a < b"
  moreover from this(2) have "(2::rat) powi b \<le> 2 powi a" by (intro power_int_increasing) auto
  ultimately show False by simp
qed

lemma bit_length_nat: "0 < n \<Longrightarrow> \<exists>k. bit_length n = int k + 1 \<and> 2 ^ k \<le> n \<and> n < 2 ^ (k + 1)"
proof (induction n rule: bit_length.induct)
  case (1 n)
  show ?case
  proof (cases "n = 1")
    case True
    then show ?thesis by (intro exI [of _ 0]) (simp add: bit_length.simps)
  next
    case False
    with 1 have "0 < n div 2" by (simp add: pos_imp_zdiv_pos_iff)
    with 1 obtain k where k: "bit_length (n div 2) = int k + 1" "2 ^ k \<le> n div 2" "n div 2 < 2 ^ (k + 1)" by auto
    then have "2 ^ (k + 1) \<le> n" "n < 2 ^ (k + 1 + 1)" by auto
    moreover have "bit_length n = 1 + bit_length (n div 2)" using 1(2) by (subst bit_length.simps) simp
    ultimately show ?thesis using k(1) by (intro exI [of _ "k + 1"]) simp
  qed
qed

lemma bit_length_bounds:
  assumes "0 < n"
  shows "2 powi (bit_length n - 1) \<le> (of_int n :: rat) \<and> of_int n < (2 powi bit_length n :: rat)"
proof -
  obtain k where k: "bit_length n = int k + 1" "2 ^ k \<le> n" "n < 2 ^ (k + 1)" using bit_length_nat [OF assms] by blast
  have "of_int (2 ^ k) \<le> (of_int n :: rat)" "of_int n < (of_int (2 ^ (k + 1)) :: rat)"
    using k(2,3) by (simp_all only: of_int_le_iff of_int_less_iff)
  moreover have "(2::rat) powi (int k + 1) = 2 ^ (k + 1)" by (metis of_nat_1 of_nat_add power_int_of_nat)
  ultimately show ?thesis unfolding k(1) by simp
qed

lemma lead_exp_bounds:
  assumes "0 < x"
  shows "2 powi lead_exp x \<le> x" and "x < 2 powi (lead_exp x + 1)"
proof -
  obtain a b where q: "quotient_of x = (a, b)" by (cases "quotient_of x")
  then have b: "0 < b" and x: "x = of_int a / of_int b" by (auto simp: quotient_of_denom_pos quotient_of_div)
  with assms have a: "0 < a" by (simp add: zero_less_divide_iff)
  let ?k = "bit_length a - bit_length b"
  note ba = bit_length_bounds [OF a] and bb = bit_length_bounds [OF b]
  have pos: "(0::rat) < of_int b" using b by simp
  have "x < 2 powi bit_length a / 2 powi (bit_length b - 1)"
    unfolding x using a ba bb pos by (intro frac_less) auto
  also have "\<dots> = 2 powi (?k + 1)" by (simp add: power_int_diff [symmetric] algebra_simps)
  finally have hi: "x < 2 powi (?k + 1)" .
  have "2 powi (?k - 1) = (2 powi (bit_length a - 1) / 2 powi bit_length b :: rat)"
    by (simp add: power_int_diff [symmetric] algebra_simps)
  also have "\<dots> < x" unfolding x using a ba bb pos by (intro frac_less2) auto
  finally have lo: "2 powi (?k - 1) < x" .
  show "2 powi lead_exp x \<le> x" "x < 2 powi (lead_exp x + 1)"
    using hi lo by (auto simp: lead_exp_def q two_powr_powi Let_def not_le)
qed

lemma round_half_even_error: "\<bar>of_int (round_half_even x) - x\<bar> \<le> 1/2"
proof -
  have "of_int \<lfloor>x\<rfloor> \<le> x" "x < of_int \<lfloor>x\<rfloor> + 1" by linarith+
  then show ?thesis by (auto simp: round_half_even_def Let_def abs_le_iff not_less)
qed

lemma round_half_even_near: "\<bar>x - of_int n\<bar> < 1/2 \<Longrightarrow> round_half_even x = n"
proof -
  assume n: "\<bar>x - of_int n\<bar> < 1/2"
  have "\<bar>of_int (round_half_even x) - (of_int n :: rat)\<bar> < 1"
    using n round_half_even_error [of x] by linarith
  then show ?thesis by linarith
qed


text \<open>Relative error of one rounding, in the range where nothing is subnormal or infinite.\<close>

lemma round_mag_error:
  assumes "2 powi (- 1000) \<le> x" and "x < 2 powi 1000"
  obtains r where "round_mag x = Some r" and "\<bar>r - x\<bar> \<le> x * 2 powi (- 53)"
proof -
  have x: "0 < x" using assms(1) by (rule less_le_trans [rotated]) simp
  note L = lead_exp_bounds [OF x]
  have "2 powi (- 1000) < (2::rat) powi (lead_exp x + 1)" using assms(1) L(2) by linarith
  then have lo: "- 1000 < lead_exp x + 1" by (rule two_powi_less)
  let ?e = "lead_exp x - 52"
  have e: "max ?e (- 1074) = ?e" using lo by simp
  let ?r = "of_int (round_half_even (x / 2 powi ?e)) * 2 powi ?e"
  have pe: "(0::rat) < 2 powi ?e" by simp
  have "\<bar>?r - x\<bar> = \<bar>of_int (round_half_even (x / 2 powi ?e)) - x / 2 powi ?e\<bar> * 2 powi ?e"
  proof -
    have "?r - x = (of_int (round_half_even (x / 2 powi ?e)) - x / 2 powi ?e) * 2 powi ?e"
      using pe by (simp add: left_diff_distrib)
    then show ?thesis by (simp add: abs_mult)
  qed
  also have "\<dots> \<le> 1/2 * 2 powi ?e" using pe by (intro mult_right_mono round_half_even_error) auto
  also have "\<dots> = 2 powi lead_exp x * 2 powi (- 53)"
    by (simp add: power_int_add [symmetric] power_int_diff power_int_minus field_simps)
  also have "\<dots> \<le> x * 2 powi (- 53)" using L(1) by (intro mult_right_mono) auto
  finally have err: "\<bar>?r - x\<bar> \<le> x * 2 powi (- 53)" .
  have "(2::rat) powi (- 53) \<le> 1" by (simp add: power_int_minus field_simps)
  then have "x * 2 powi (- 53) \<le> x * 1" using x by (intro mult_left_mono) auto
  with err have "?r \<le> 2 * x" by linarith
  also have "\<dots> < 2 * 2 powi 1000" using assms(2) by simp
  also have "\<dots> < (2::rat) powi 1024" by simp
  finally have "round_mag x = Some ?r"
    using x e by (simp add: round_mag_def two_powr_powi Let_def)
  from this err show thesis by (rule that)
qed

lemma round_mag_int:
  assumes "0 \<le> n" and "n < 2 ^ 53"
  shows "round_mag (of_int n) = Some (of_int n)"
proof (cases "n = 0")
  case False
  let ?x = "of_int n :: rat"
  have x: "0 < ?x" using assms False by simp
  note L = lead_exp_bounds [OF x]
  have "1 \<le> ?x" using assms(1) False by simp
  then have "(2::rat) powi 0 < 2 powi (lead_exp ?x + 1)" using L(2) by simp
  then have lo: "0 \<le> lead_exp ?x" using two_powi_less [of 0 "lead_exp ?x + 1"] by simp
  have "of_int n < (of_int (2 ^ 53) :: rat)" using assms(2) by (simp only: of_int_less_iff)
  then have "(2::rat) powi lead_exp ?x < 2 powi 53" using L(1) by simp
  then have hi: "lead_exp ?x \<le> 52" using two_powi_less [of "lead_exp ?x" 53] by simp
  let ?e = "lead_exp ?x - 52"
  have e: "max ?e (- 1074) = ?e" using lo by simp
  have "?x / 2 powi ?e = of_int (n * 2 ^ nat (- ?e))"
    using hi by (simp add: power_int_def field_simps)
  then have "round_half_even (?x / 2 powi ?e) = n * 2 ^ nat (- ?e)"
    by (simp add: round_half_even_near)
  then have "of_int (round_half_even (?x / 2 powi ?e)) * 2 powi ?e = ?x"
    using hi by (simp add: power_int_def field_simps)
  moreover have "?x < 2 powi 1024"
  proof -
    have "?x < of_int (2 ^ 53)" by fact
    also have "\<dots> < (2::rat) powi 1024" by simp
    finally show ?thesis .
  qed
  ultimately show ?thesis using x e by (simp add: round_mag_def two_powr_powi Let_def)
qed (simp add: round_mag_def)


section \<open>Decimal digits\<close>

lemma digit_char: "0 \<le> d \<Longrightarrow> d < 10 \<Longrightarrow> digit_value (digit_char d) = d \<and> is_digit (digit_char d)"
proof -
  assume "0 \<le> d" "d < 10"
  then have "d \<in> set [0, 1, 2, 3, 4, 5, 6, 7, 8, 9]" by (simp, presburger)
  then show ?thesis by (auto simp: digit_value_def digit_char_def is_digit_def)
qed

lemma digit_char_zero: "digit_char 0 = CHR ''0''"
  by (simp add: digit_char_def char_of_def)

lemma digits_value_append: "digits_value (a @ b) = digits_value a * 10 ^ length b + digits_value b"
proof (induction b rule: rev_induct)
  case (snoc c b)
  have "digits_value (a @ b @ [c]) = 10 * digits_value (a @ b) + digit_value c" by (simp add: digits_value_def)
  with snoc show ?case by (simp add: digits_value_def algebra_simps)
qed (simp add: digits_value_def)

lemma digits_value_simps [simp]: "digits_value [] = 0" "digits_value [c] = digit_value c"
  by (simp_all add: digits_value_def)

lemma int_digits: "0 \<le> n \<Longrightarrow> digits_value (int_digits n) = n \<and> list_all is_digit (int_digits n) \<and> int_digits n \<noteq> []"
proof (induction n rule: int_digits.induct)
  case (1 n)
  show ?case
  proof (cases "n < 10")
    case True
    with 1(2) digit_char [of n] show ?thesis by (simp add: int_digits.simps)
  next
    case False
    with 1 have "digits_value (int_digits (n div 10)) = n div 10" "list_all is_digit (int_digits (n div 10))" by auto
    with False digit_char [of "n mod 10"] show ?thesis
      by (subst (1 2 3) int_digits.simps) (simp add: digits_value_append)
  qed
qed

lemma fixed_digits: "0 \<le> n \<Longrightarrow> n < 10 ^ k \<Longrightarrow> digits_value (fixed_digits k n) = n \<and>
    list_all is_digit (fixed_digits k n) \<and> length (fixed_digits k n) = k"
proof (induction k arbitrary: n)
  case (Suc k)
  then have "digits_value (fixed_digits k (n div 10)) = n div 10" "list_all is_digit (fixed_digits k (n div 10))"
    "length (fixed_digits k (n div 10)) = k" by (auto simp: div_less_iff_less_mult)
  with digit_char [of "n mod 10"] show ?case by (simp add: digits_value_append)
qed simp

text \<open>Dropping trailing zeros divides by a power of ten.\<close>

lemma takeWhile_eq_replicate: "takeWhile (\<lambda>x. x = c) s = replicate (length (takeWhile (\<lambda>x. x = c) s)) c"
  by (induction s) auto

lemma trim_zeros:
  obtains k where "s = trim_end_matches c s @ replicate k c"
proof -
  let ?k = "length (takeWhile (\<lambda>x. x = c) (rev s))"
  have "rev s = replicate ?k c @ dropWhile (\<lambda>x. x = c) (rev s)"
    using takeWhile_eq_replicate [of c "rev s"] takeWhile_dropWhile_id [of "\<lambda>x. x = c" "rev s"] by argo
  then have "rev (rev s) = trim_end_matches c s @ replicate ?k c"
    unfolding trim_end_matches_def by (metis rev_append rev_replicate)
  then show thesis by (intro that) simp
qed

lemma digits_value_zeros: "digits_value (a @ replicate k (CHR ''0'')) = digits_value a * 10 ^ k"
proof (induction k)
  case (Suc k)
  have "a @ replicate (Suc k) (CHR ''0'') = (a @ replicate k (CHR ''0'')) @ [CHR ''0'']"
    by (simp add: replicate_append_same)
  with Suc show ?case by (simp add: digits_value_append [of "a @ _" "[_]"] digit_value_def del: append_assoc)
qed simp

lemma trim_end_keep: "d \<noteq> c \<Longrightarrow> trim_end_matches c (a @ d # b) = a @ d # trim_end_matches c b"
  by (auto simp: trim_end_matches_def dropWhile_append)

lemma trim_end_none: "a \<noteq> [] \<Longrightarrow> last a \<noteq> c \<Longrightarrow> trim_end_matches c a = a"
  by (cases a rule: rev_cases) (auto simp: trim_end_matches_def)

section \<open>Printing and parsing\<close>

definition decimal :: "int \<Rightarrow> string" where
  "decimal p =
     (let w = int_digits (p div 10 ^ 8); fr = trim_end_matches (CHR ''0'') (fixed_digits 8 (p mod 10 ^ 8))
      in if fr = [] then w else w @ CHR ''.'' # fr)"

lemma powi_53: "(2::rat) powi (- 53) = 1 / 9007199254740992"
  by (simp add: power_int_minus field_simps)

lemma quotient_error:
  assumes "0 \<le> p" and "p < 2 ^ 52"
  obtains r where "round_mag (of_int p / 10 ^ 8) = Some r" and "\<bar>r * 10 ^ 8 - of_int p\<bar> \<le> of_int p * 2 powi (- 53)"
proof (cases "p = 0")
  case True
  then show thesis using that [of 0] by (simp add: round_mag_def)
next
  case False
  let ?x = "of_int p / 10 ^ 8 :: rat"
  have p: "1 \<le> (of_int p :: rat)" using assms(1) False by simp
  have pu: "of_int p < (of_int (2 ^ 52) :: rat)" using assms(2) by (simp only: of_int_less_iff)
  have "2 powi (- 1000) \<le> (1 / 10 ^ 8 :: rat)" by (simp add: power_int_minus field_simps)
  also have "\<dots> \<le> ?x" using p by (simp add: field_simps)
  finally have lo: "2 powi (- 1000) \<le> ?x" .
  have "?x < of_int (2 ^ 52)" using p pu by (simp add: field_simps)
  also have "\<dots> < (2::rat) powi 1000" by simp
  finally have hi: "?x < 2 powi 1000" .
  obtain r where r: "round_mag ?x = Some r" "\<bar>r - ?x\<bar> \<le> ?x * 2 powi (- 53)"
    by (rule round_mag_error [OF lo hi])
  have "r * 10 ^ 8 - of_int p = (r - ?x) * 10 ^ 8" by (simp add: left_diff_distrib)
  then have "\<bar>r * 10 ^ 8 - of_int p\<bar> = \<bar>(r - ?x) * 10 ^ 8\<bar>" by (rule arg_cong)
  also have "\<dots> = \<bar>r - ?x\<bar> * 10 ^ 8" unfolding abs_mult by simp
  also have "\<dots> \<le> ?x * 2 powi (- 53) * 10 ^ 8" using r(2) by (intro mult_right_mono) auto
  also have "\<dots> = of_int p * 2 powi (- 53)" by simp
  finally show thesis by (rule that [OF r(1)])
qed

lemma format8_exact:
  assumes "uint v < 2 ^ 52"
  shows "format8 (f64_divide (f64_of_u64 v) MULTIPLIER) =
    int_digits (uint v div 10 ^ 8) @ ''.'' @ fixed_digits 8 (uint v mod 10 ^ 8)"
proof -
  let ?p = "uint v"
  have p: "0 \<le> ?p" "?p < 2 ^ 53" using assms by auto
  obtain r where r: "round_mag (of_int ?p / 10 ^ 8) = Some r" "\<bar>r * 10 ^ 8 - of_int ?p\<bar> \<le> of_int ?p * 2 powi (- 53)"
    by (rule quotient_error [OF p(1) assms])
  have "of_int ?p < (of_int (2 ^ 52) :: rat)" using assms by (simp only: of_int_less_iff)
  then have "of_int ?p * 2 powi (- 53) < (1/2 :: rat)" by (simp add: powi_53)
  with r(2) have "round_half_even (r * 10 ^ 8) = ?p" by (intro round_half_even_near) linarith
  moreover have "f64_divide (f64_of_u64 v) MULTIPLIER = Fin False r"
    using round_mag_int [OF p] r(1) by (simp add: f64_of_u64_def f64_of_mag_def f64_divide_def MULTIPLIER_def)
  ultimately show ?thesis by (simp add: format8_def Let_def)
qed

lemma not_digit_chars: "\<not> is_digit (CHR ''.'')" "is_digit c \<Longrightarrow> c \<noteq> CHR ''-''" "is_digit c \<Longrightarrow> c \<noteq> CHR ''+''"
  "is_digit c \<Longrightarrow> c \<noteq> CHR ''.''"
  by (auto simp: is_digit_def)

lemma ten_powr_neg: "ten_powr (- int n) = 1 / 10 ^ n"
  by (cases "n = 0") (simp_all add: ten_powr_def)

lemma decimal_parts:
  assumes "0 \<le> p"
  defines "w \<equiv> int_digits (p div 10 ^ 8)" and "fr \<equiv> trim_end_matches (CHR ''0'') (fixed_digits 8 (p mod 10 ^ 8))"
  shows "list_all is_digit w" "w \<noteq> []" "list_all is_digit fr"
    and "of_int (digits_value (w @ fr)) * ten_powr (- int (length fr)) = (of_int p / 10 ^ 8 :: rat)"
proof -
  have "0 \<le> p div 10 ^ 8" using assms(1) by simp
  from int_digits [OF this] show w: "list_all is_digit w" "w \<noteq> []" by (auto simp: w_def)
  have wv: "digits_value w = p div 10 ^ 8" using int_digits [OF \<open>0 \<le> p div 10 ^ 8\<close>] by (simp add: w_def)
  have "p mod 10 ^ 8 < 10 ^ 8" "0 \<le> p mod 10 ^ 8" by simp_all
  note fx = fixed_digits [OF this(2,1)]
  obtain k where k: "fixed_digits 8 (p mod 10 ^ 8) = fr @ replicate k (CHR ''0'')"
    unfolding fr_def by (rule trim_zeros)
  with fx show "list_all is_digit fr" by (metis list_all_append)
  have len: "length fr + k = 8" using fx k by (metis length_append length_replicate)
  have "digits_value fr * 10 ^ k = p mod 10 ^ 8" using fx k by (metis digits_value_zeros)
  then have fv: "of_int (digits_value fr) * 10 ^ k = (of_int (p mod 10 ^ 8) :: rat)"
    using arg_cong [where f = "of_int :: int \<Rightarrow> rat"] by fastforce
  have "(of_int p :: rat) = of_int (p div 10 ^ 8) * 10 ^ 8 + of_int (p mod 10 ^ 8)"
    using arg_cong [OF div_mult_mod_eq [of p "10 ^ 8", symmetric], of "of_int :: int \<Rightarrow> rat"]
    by (simp only: of_int_add of_int_mult of_int_power of_int_numeral)
  moreover have "of_int (p mod 10 ^ 8) * 10 ^ length fr = (of_int (digits_value fr) * 10 ^ 8 :: rat)"
  proof -
    have "(10::rat) ^ 8 = 10 ^ length fr * 10 ^ k" using len by (metis power_add)
    then show ?thesis unfolding fv [symmetric] by (simp only: mult_ac)
  qed
  ultimately have "(of_int p / 10 ^ 8 :: rat) =
      (of_int (p div 10 ^ 8) * 10 ^ length fr + of_int (digits_value fr)) / 10 ^ length fr"
    by (simp add: field_simps)
  then show "of_int (digits_value (w @ fr)) * ten_powr (- int (length fr)) = (of_int p / 10 ^ 8 :: rat)"
    unfolding ten_powr_neg digits_value_append wv
    by (simp only: of_int_add of_int_mult of_int_power of_int_numeral mult_1_right times_divide_eq_right)
qed


lemma to_str_decimal:
  assumes "uint v < 2 ^ 52"
  shows "trim_end_matches (CHR ''.'') (trim_end_matches (CHR ''0'')
      (format8 (f64_divide (f64_of_u64 v) MULTIPLIER))) = decimal (uint v)"
proof -
  let ?w = "int_digits (uint v div 10 ^ 8)" and ?f = "fixed_digits 8 (uint v mod 10 ^ 8)"
  let ?fr = "trim_end_matches (CHR ''0'') ?f"
  note parts = decimal_parts [of "uint v", OF uint_ge_0]
  have "trim_end_matches (CHR ''0'') (?w @ ''.'' @ ?f) = ?w @ CHR ''.'' # ?fr"
    using trim_end_keep [of "CHR ''.''" "CHR ''0''" ?w ?f] by simp
  moreover have "trim_end_matches (CHR ''.'') (?w @ CHR ''.'' # ?fr) = decimal (uint v)"
  proof (cases "?fr = []")
    case True
    have "is_digit (last ?w)" using parts(1,2) by (simp add: list_all_iff)
    then have "trim_end_matches (CHR ''.'') ?w = ?w" using parts(2) not_digit_chars(4) by (intro trim_end_none) auto
    moreover have "trim_end_matches (CHR ''.'') (?w @ [CHR ''.'']) = trim_end_matches (CHR ''.'') ?w"
      by (simp add: trim_end_matches_def)
    ultimately show ?thesis using True by (simp add: decimal_def Let_def)
  next
    case False
    have "is_digit (last ?fr)" using parts(3) False by (simp add: list_all_iff)
    then have "trim_end_matches (CHR ''.'') (?w @ CHR ''.'' # ?fr) = ?w @ CHR ''.'' # ?fr"
      using False not_digit_chars(4) by (intro trim_end_none) auto
    then show ?thesis using False by (simp add: decimal_def Let_def)
  qed
  ultimately show ?thesis unfolding format8_exact [OF assms] by simp
qed

lemma takeWhile_digits:
  "list_all is_digit a \<Longrightarrow> takeWhile is_digit a = a" "list_all is_digit a \<Longrightarrow> dropWhile is_digit a = []"
  "list_all is_digit a \<Longrightarrow> takeWhile is_digit (a @ CHR ''.'' # b) = a"
  "list_all is_digit a \<Longrightarrow> dropWhile is_digit (a @ CHR ''.'' # b) = CHR ''.'' # b"
  by (induction a) (auto simp: not_digit_chars)

lemma parse_decimal_decimal:
  assumes "0 \<le> p"
  shows "parse_decimal (decimal p) = Some (of_int p / 10 ^ 8)"
  using decimal_parts [OF assms]
  by (auto simp: decimal_def parse_decimal_def Let_def takeWhile_digits parse_exponent_def)

lemma parse_f64_decimal:
  assumes "0 \<le> p"
  shows "parse_f64 (decimal p) = Inr (f64_of_mag False (of_int p / 10 ^ 8))"
proof -
  obtain t where "decimal p = int_digits (p div 10 ^ 8) @ t"
    by (cases "trim_end_matches (CHR ''0'') (fixed_digits 8 (p mod 10 ^ 8)) = []") (auto simp: decimal_def Let_def)
  then obtain c r where d: "decimal p = c # r" "is_digit c"
    using decimal_parts(1,2) [OF assms] by (cases "int_digits (p div 10 ^ 8)") auto
  have "lower c = c" using d(2) by (auto simp: lower_def is_digit_def)
  moreover have "c \<noteq> CHR ''n''" "c \<noteq> CHR ''i''" using d(2) by (auto simp: is_digit_def)
  ultimately have "map lower (c # r) \<noteq> ''nan''" "map lower (c # r) \<noteq> ''inf''" "map lower (c # r) \<noteq> ''infinity''"
    by auto
  moreover have "split_sign (c # r) = (False, c # r)" using not_digit_chars(2,3) [OF d(2)] by (simp add: split_sign_def)
  ultimately show ?thesis using parse_decimal_decimal [OF assms] unfolding d(1) parse_f64_def by (auto simp: Let_def)
qed

lemma scaled_back:
  assumes "0 \<le> p" and "p < 2 ^ 51"
  shows "f64_to_u64 (f64_round (f64_times (f64_of_mag False (of_int p / 10 ^ 8)) MULTIPLIER)) = of_int p"
proof (cases "p = 0")
  case True
  moreover have "\<lfloor>1/2 :: rat\<rfloor> = 0" by linarith
  ultimately show ?thesis by (simp add: f64_of_mag_def round_mag_def f64_times_def f64_round_def f64_to_u64_def)
next
  case False
  have p: "1 \<le> (of_int p :: rat)" using assms(1) False by simp
  have pu: "of_int p \<le> (of_int (2 ^ 51 - 1) :: rat)" using assms(2) by (simp only: of_int_le_iff)
  obtain r where r: "round_mag (of_int p / 10 ^ 8) = Some r" "\<bar>r * 10 ^ 8 - of_int p\<bar> \<le> of_int p * 2 powi (- 53)"
    by (rule quotient_error [OF assms(1)]) (use assms(2) in auto)
  define y where "y = r * 10 ^ 8"
  have y: "\<bar>y - of_int p\<bar> \<le> of_int p / 9007199254740992" using r(2) by (simp add: powi_53 y_def)
  have pn: "of_int p \<le> (2251799813685247 :: rat)" using pu by simp
  have lo: "2 powi (- 1000) \<le> y"
  proof -
    have "2 powi (- 1000) \<le> (1/2 :: rat)" by (simp add: power_int_minus field_simps)
    also have "\<dots> \<le> y" using y p by linarith
    finally show ?thesis .
  qed
  have hi: "y < 2 powi 1000"
  proof -
    have "y < 4503599627370496" using y pn by linarith
    also have "\<dots> < (2::rat) powi 1000" by simp
    finally show ?thesis .
  qed
  obtain z where z: "round_mag y = Some z" "\<bar>z - y\<bar> \<le> y * 2 powi (- 53)"
    by (rule round_mag_error [OF lo hi])
  have "\<bar>z - y\<bar> \<le> y / 9007199254740992" using z(2) by (simp add: powi_53)
  then have "\<bar>z - of_int p\<bar> < 1/2" using y pn p by linarith
  then have "\<lfloor>z + 1/2\<rfloor> = p" by linarith
  moreover have "of_int p < (2 ^ 64 :: rat)" using pu by simp
  ultimately show ?thesis using r(1) z(1) [unfolded y_def]
    by (simp add: f64_of_mag_def f64_times_def f64_round_def f64_to_u64_def MULTIPLIER_def)
qed


section \<open>Properties\<close>

lemma parse_to_str:
  assumes "uint v < 2 ^ 51"
  shows "parse_f64 (decimal (uint v)) = Inr (f64_of_mag False (of_int (uint v) / 10 ^ 8))"
    and "f64_to_u64 (f64_round (f64_times (f64_of_mag False (of_int (uint v) / 10 ^ 8)) MULTIPLIER)) = v"
  using parse_f64_decimal [of "uint v"] scaled_back [of "uint v"] assms by simp_all

text \<open>
  Printing a price or a size and parsing it back gives the same value, although both go through \<open>f64\<close>: for every raw value below \<open>2 ^ 51\<close> (a price of
  22.5 million at eight decimals) the quotient, the eight printed decimals, the parse, the product and the rounding all cancel. The printed text is the exact
  decimal without trailing zeros.
\<close>

lemma decimal_round_trip:
  assumes "uint v < 2 ^ 51"
  shows "px_parse_from_str (px_to_str (Px v)) = Inr (Px v) \<and> sz_parse_from_str (sz_to_str (Sz v)) = Inr (Sz v) \<and>
    parse_decimal (px_to_str (Px v)) = Some (of_int (uint v) / 10 ^ 8)"
proof -
  have "uint v < 2 ^ 52" using assms by simp
  from to_str_decimal [OF this] have "px_to_str (Px v) = decimal (uint v)" "sz_to_str (Sz v) = decimal (uint v)"
    by (simp_all add: px_to_str_def sz_to_str_def Let_def)
  then show ?thesis using parse_to_str [OF assms] parse_decimal_decimal [of "uint v"]
    by (simp add: px_parse_from_str_def sz_parse_from_str_def)
qed

end
