(* ===== verification/Node_Data.thy ===== *)
theory Node_Data
  imports Fixed_Point
begin

text \<open>
  The records the server reads and writes (\<open>server/src/types/mod.rs\<close>,
  \<open>server/src/types/node_data.rs\<close>) and the conversions to the book's own types
  (\<open>server/src/types/inner.rs\<close>). Deserialisation by serde is a parameter: the text of a record is
  handed to functions the caller supplies. A \<open>NaiveDateTime\<close> is the number of nanoseconds since
  the epoch.
\<close>

section \<open>Messages\<close>

type_synonym naive_date_time = int

record trade =
  tr_coin :: string
  tr_side :: side
  tr_px :: string
  tr_sz :: string
  tr_hash :: string
  tr_time :: u64
  tr_tid :: u64
  tr_users :: "address \<times> address"

record l2_level =
  lv_px :: string
  lv_sz :: string
  lv_n :: usize

record l4_order =
  lo_user :: "address option"
  lo_coin :: string
  lo_side :: side
  lo_limit_px :: string
  lo_sz :: string
  lo_oid :: u64
  lo_timestamp :: u64
  lo_trigger_condition :: string
  lo_is_trigger :: bool
  lo_trigger_px :: string
  lo_is_position_tpsl :: bool
  lo_reduce_only :: bool
  lo_order_type :: string
  lo_tif :: "string option"
  lo_cloid :: "string option"

datatype order_diff =
    DiffNew string "u64 option"
  | DiffUpdate string string
  | DiffRemove

record liquidation =
  lq_liquidated_user :: string
  lq_mark_px :: string
  lq_method :: string

record fill_event =
  fi_coin :: string
  fi_px :: string
  fi_sz :: string
  fi_side :: side
  fi_time :: u64
  fi_start_position :: string
  fi_dir :: string
  fi_closed_pnl :: string
  fi_hash :: string
  fi_oid :: u64
  fi_crossed :: bool
  fi_fee :: string
  fi_tid :: u64
  fi_fee_token :: string
  fi_liquidation :: "liquidation option"

section \<open>Node events\<close>

record node_data_order_diff =
  nd_user :: address
  nd_oid :: u64
  nd_px :: string
  nd_coin :: string
  nd_raw_book_diff :: order_diff

datatype node_data_fill = NodeDataFill (nf_user: address) (nf_fill: fill_event)

record node_data_order_status =
  ns_time :: naive_date_time
  ns_user :: address
  ns_status :: string
  ns_order :: l4_order

definition diff_oid :: "node_data_order_diff \<Rightarrow> oid" where
  "diff_oid d = Oid (nd_oid d)"

definition diff_price :: "node_data_order_diff \<Rightarrow> px result" where
  "diff_price d = px_parse_from_str (nd_px d)"

definition diff_coin :: "node_data_order_diff \<Rightarrow> coin" where
  "diff_coin d = Coin (nd_coin d)"

definition is_inserted_into_book :: "node_data_order_status \<Rightarrow> bool" where
  "is_inserted_into_book s \<longleftrightarrow>
     (ns_status s = ''open'' \<and> \<not> lo_is_trigger (ns_order s) \<and> lo_tif (ns_order s) \<noteq> Some ''Ioc'') \<or>
     (lo_is_trigger (ns_order s) \<and> ns_status s = ''triggered'')"

datatype event_source = Fills | OrderStatuses | OrderDiffs

definition event_source_dir :: "event_source \<Rightarrow> (string \<Rightarrow> string \<Rightarrow> string) \<Rightarrow> string \<Rightarrow> string" where
  "event_source_dir s join dir =
     (case s of
        Fills \<Rightarrow> join dir ''hl/data/node_fills_by_block''
      | OrderStatuses \<Rightarrow> join dir ''hl/data/node_order_statuses_by_block''
      | OrderDiffs \<Rightarrow> join dir ''hl/data/node_raw_book_diffs_by_block'')"

record l4_book_updates =
  lu_time :: u64
  lu_height :: u64
  lu_order_statuses :: "node_data_order_status list"
  lu_book_diffs :: "node_data_order_diff list"

definition l4_book_updates_new :: "u64 \<Rightarrow> u64 \<Rightarrow> l4_book_updates" where
  "l4_book_updates_new time height =
     \<lparr>lu_time = time, lu_height = height, lu_order_statuses = [], lu_book_diffs = []\<rparr>"

record l2_book =
  lb_coin :: string
  lb_time :: u64
  lb_height :: u64
  lb_levels :: "l2_level list \<times> l2_level list"

datatype l4_book =
    L4Snapshot string u64 u64 "l4_order list \<times> l4_order list"
  | L4Updates l4_book_updates

definition from_l2_snapshot ::
    "string \<Rightarrow> l2_level list \<times> l2_level list \<Rightarrow> u64 \<Rightarrow> u64 \<Rightarrow> l2_book" where
  "from_l2_snapshot coin snapshot time height =
     \<lparr>lb_coin = coin, lb_time = time, lb_height = height, lb_levels = snapshot\<rparr>"

section \<open>Trades\<close>

text \<open>\<open>fills\<close> is the map from side to the fill that side reported.\<close>

definition trade_from_fills :: "(side \<rightharpoonup> node_data_fill) \<Rightarrow> trade option" where
  "trade_from_fills fills =
     do {
       ask \<leftarrow> fills Ask;
       bid \<leftarrow> fills Bid;
       let (seller, ask_fill) = (nf_user ask, nf_fill ask);
       let (buyer, bid_fill) = (nf_user bid, nf_fill bid);
       if fi_coin ask_fill \<noteq> fi_coin bid_fill \<or> fi_tid ask_fill \<noteq> fi_tid bid_fill then None
       else
         let ask_is_taker = fi_crossed ask_fill; s = (if ask_is_taker then Ask else Bid)
         in Some \<lparr>tr_coin = fi_coin ask_fill, tr_side = s, tr_px = fi_px ask_fill, tr_sz = fi_sz ask_fill,
              tr_hash = fi_hash ask_fill, tr_time = fi_time ask_fill, tr_tid = fi_tid ask_fill,
              tr_users = (buyer, seller)\<rparr>
     }"

section \<open>Conversions\<close>

definition inner_of_l4 :: "address \<times> l4_order \<Rightarrow> inner_l4_order result" where
  "inner_of_l4 value =
     (let (user, l) = value
      in (case px_parse_from_str (lo_limit_px l) of
            Inl e \<Rightarrow> Inl e
          | Inr limit_px \<Rightarrow>
              (case sz_parse_from_str (lo_sz l) of
                 Inl e \<Rightarrow> Inl e
               | Inr z \<Rightarrow>
                   Inr \<lparr>io_user = user, io_coin = Coin (lo_coin l), io_side = lo_side l, io_limit_px = limit_px,
                     io_sz = z, io_oid = lo_oid l, io_timestamp = lo_timestamp l,
                     io_trigger_condition = lo_trigger_condition l, io_is_trigger = lo_is_trigger l,
                     io_trigger_px = lo_trigger_px l, io_is_position_tpsl = lo_is_position_tpsl l,
                     io_reduce_only = lo_reduce_only l, io_order_type = lo_order_type l, io_tif = lo_tif l,
                     io_cloid = lo_cloid l\<rparr>)))"

definition l4_of_inner :: "inner_l4_order \<Rightarrow> l4_order" where
  "l4_of_inner v =
     \<lparr>lo_user = Some (io_user v), lo_coin = coin_value (io_coin v), lo_side = io_side v,
      lo_limit_px = px_to_str (io_limit_px v), lo_sz = sz_to_str (io_sz v), lo_oid = io_oid v,
      lo_timestamp = io_timestamp v, lo_trigger_condition = io_trigger_condition v,
      lo_is_trigger = io_is_trigger v, lo_trigger_px = io_trigger_px v,
      lo_is_position_tpsl = io_is_position_tpsl v, lo_reduce_only = io_reduce_only v,
      lo_order_type = io_order_type v, lo_tif = io_tif v, lo_cloid = io_cloid v\<rparr>"

definition inner_of_status :: "node_data_order_status \<Rightarrow> inner_l4_order result" where
  "inner_of_status s = inner_of_l4 (ns_user s, ns_order s)"

definition level_of_inner :: "inner_level \<Rightarrow> l2_level" where
  "level_of_inner v = \<lparr>lv_px = px_to_str (il_px v), lv_sz = sz_to_str (il_sz v), lv_n = il_n v\<rparr>"

datatype inner_order_diff =
    InnerNew sz "oid option"
  | InnerUpdate sz sz
  | InnerRemove

definition inner_of_diff :: "order_diff \<Rightarrow> inner_order_diff result" where
  "inner_of_diff value =
     (case value of
        DiffNew z insert_before \<Rightarrow>
          (case sz_parse_from_str z of
             Inl e \<Rightarrow> Inl e
           | Inr s \<Rightarrow> Inr (InnerNew s (map_option Oid insert_before)))
      | DiffUpdate orig_sz new_sz \<Rightarrow>
          (case sz_parse_from_str orig_sz of
             Inl e \<Rightarrow> Inl e
           | Inr a \<Rightarrow>
               (case sz_parse_from_str new_sz of Inl e \<Rightarrow> Inl e | Inr b \<Rightarrow> Inr (InnerUpdate a b)))
      | DiffRemove \<Rightarrow> Inr InnerRemove)"

section \<open>Batches\<close>

record 'e batch =
  ba_local_time :: naive_date_time
  ba_block_time :: naive_date_time
  ba_block_number :: u64
  ba_events :: "'e list"
  ba_wire_bytes :: usize

definition with_wire_bytes :: "'e batch \<Rightarrow> usize \<Rightarrow> 'e batch" where
  "with_wire_bytes b n = b\<lparr>ba_wire_bytes := n\<rparr>"

text \<open>\<open>block_time()\<close>: milliseconds since the epoch; \<open>None\<close> is the panic of \<open>unwrap\<close> before 1970.\<close>

definition block_time :: "'e batch \<Rightarrow> u64 option" where
  "block_time b =
     (let ms = ba_block_time b div 1000000 in if 0 \<le> ms \<and> ms < 2 ^ 64 then Some (of_int ms) else None)"

section \<open>Properties\<close>

text \<open>
  C18. An order sent to a client is the order in the book: converting an order of the book to its wire form and reading that back, as the server reads
  the node's orders, gives the same order in every field, although price and size are printed and parsed through \<open>f64\<close>. Price and size are below \<open>2 ^ 51\<close> units (22.5
  million at eight decimals); the text of the price is its exact decimal value.
\<close>

theorem l4_order_round_trip:
  assumes "uint (px_value (io_limit_px v)) < 2 ^ 51" and "uint (sz_value (io_sz v)) < 2 ^ 51"
  shows "inner_of_l4 (io_user v, l4_of_inner v) = Inr v \<and>
    parse_decimal (lo_limit_px (l4_of_inner v)) = Some (of_int (uint (px_value (io_limit_px v))) / 10 ^ 8)"
  using decimal_round_trip [OF assms(1)] decimal_round_trip [OF assms(2)] by (simp add: inner_of_l4_def l4_of_inner_def)

text \<open>A bid for 0.5 at 42156.78.\<close>

definition sample_order :: inner_l4_order where
  "sample_order = \<lparr>io_user = 1, io_coin = Coin ''BTC'', io_side = Bid, io_limit_px = Px 4215678000000, io_sz = Sz 50000000, io_oid = 9, io_timestamp = 5,
     io_trigger_condition = [], io_is_trigger = False, io_trigger_px = ''0.0'', io_is_position_tpsl = False, io_reduce_only = False,
     io_order_type = ''Limit'', io_tif = Some ''Gtc'', io_cloid = None\<rparr>"

theorem l4_order_round_trip_witness:
  "inner_of_l4 (io_user sample_order, l4_of_inner sample_order) = Inr sample_order \<and>
    parse_decimal (lo_limit_px (l4_of_inner sample_order)) = Some (4215678000000 / 10 ^ 8)"
  using l4_order_round_trip [of sample_order] by (simp add: sample_order_def)

end
