(* ===== verification/Subscriptions.thy ===== *)
theory Subscriptions
  imports Node_Data
begin

text \<open>
  \<open>server/src/types/subscription.rs\<close>: which coins the server materialises (\<open>CoinScope\<close>), which
  subscriptions it accepts, and the bounded set of subscriptions of one connection. A \<open>str\<close> is
  its sequence of UTF-8 bytes.
\<close>

section \<open>Strings\<close>

definition white_chars :: "string list" where
  "white_chars = map (map char_of)
     ([[9], [10], [11], [12], [13], [32], [0xC2, 0x85], [0xC2, 0xA0], [0xE1, 0x9A, 0x80]]
      @ map (\<lambda>c. [0xE2, 0x80, c]) [0x80, 0x81, 0x82, 0x83, 0x84, 0x85, 0x86, 0x87, 0x88, 0x89, 0x8A, 0xA8, 0xA9, 0xAF]
      @ [[0xE2, 0x81, 0x9F], [0xE3, 0x80, 0x80 :: nat]])"

function strip_front :: "string list \<Rightarrow> string \<Rightarrow> string" where
  "strip_front ws s =
     (case find (\<lambda>w. w \<noteq> [] \<and> take (length w) s = w) ws of
        None \<Rightarrow> s
      | Some w \<Rightarrow> strip_front ws (drop (length w) s))"
  by pat_completeness auto
termination
proof (relation "measure (length \<circ> snd)")
  fix ws s w assume "find (\<lambda>w. w \<noteq> [] \<and> take (length w) s = w) ws = Some w"
  then have "w \<noteq> []" "take (length w) s = w" by (auto simp: find_Some_iff)
  then have "s \<noteq> []" by auto
  with \<open>w \<noteq> []\<close> show "((ws, drop (length w) s), ws, s) \<in> measure (length \<circ> snd)" by simp
qed simp

declare strip_front.simps [simp del]

text \<open>\<open>str::trim\<close>: white space is dropped from both ends.\<close>

definition str_trim :: "string \<Rightarrow> string" where
  "str_trim s = rev (strip_front (map rev white_chars) (rev (strip_front white_chars s)))"

fun split_on :: "char \<Rightarrow> string \<Rightarrow> string list" where
  "split_on c [] = [[]]"
| "split_on c (x # xs) =
     (if x = c then [] # split_on c xs
      else (case split_on c xs of [] \<Rightarrow> [[x]] | w # ws \<Rightarrow> (x # w) # ws))"

section \<open>Scope\<close>

definition MAX_LEVELS :: usize where
  "MAX_LEVELS = 100"

definition MAX_SUBSCRIPTIONS :: usize where
  "MAX_SUBSCRIPTIONS = 2048"

definition DEFAULT_LEVELS :: usize where
  "DEFAULT_LEVELS = 20"

definition is_hip4_coin :: "string \<Rightarrow> bool" where
  "is_hip4_coin coin =
     (case coin of
        [] \<Rightarrow> False
      | c # ident \<Rightarrow> c = CHR ''#'' \<and> ident \<noteq> [] \<and> list_all is_digit ident)"

record coin_scope =
  cs_all :: bool
  cs_extra :: "string set"

definition scope_default :: coin_scope where
  "scope_default = \<lparr>cs_all = False, cs_extra = {}\<rparr>"

definition scope_all :: coin_scope where
  "scope_all = \<lparr>cs_all = True, cs_extra = {}\<rparr>"

text \<open>The \<open>for\<close> over the trimmed parts of the list.\<close>

fun scope_collect :: "string list \<Rightarrow> string set \<Rightarrow> string set result" where
  "scope_collect [] extra = Inr extra"
| "scope_collect (coin # coins) extra =
     (if coin = [] \<or> length coin > 64 \<or> coin = ''*'' then Inl (InvalidCoin coin)
      else scope_collect coins (insert coin extra))"

definition scope_parse :: "string \<Rightarrow> coin_scope result" where
  "scope_parse value =
     (let value = str_trim value
      in if value = [] then Inr scope_default
         else if value = ''*'' then Inr scope_all
         else (case scope_collect (map str_trim (split_on (CHR '','') value)) {} of
                 Inl e \<Rightarrow> Inl e
               | Inr extra \<Rightarrow> Inr \<lparr>cs_all = False, cs_extra = extra\<rparr>))"

text \<open>\<open>from_env\<close>, given what the environment holds under \<open>BOOK_EXTRA_COINS\<close>.\<close>

datatype env_var = Present string | NotPresent | NotUnicode string

definition scope_from_env :: "env_var \<Rightarrow> coin_scope result" where
  "scope_from_env v =
     (case v of
        Present value \<Rightarrow> scope_parse value
      | NotPresent \<Rightarrow> Inr scope_default
      | NotUnicode raw \<Rightarrow> Inl (InvalidCoin raw))"

definition scope_contains :: "coin_scope \<Rightarrow> string \<Rightarrow> bool" where
  "scope_contains s coin \<longleftrightarrow> cs_all s \<or> is_hip4_coin coin \<or> coin \<in> cs_extra s"

fun join_commas :: "string list \<Rightarrow> string" where
  "join_commas [] = []"
| "join_commas [w] = w"
| "join_commas (w # ws) = w @ '','' @ join_commas ws"

definition scope_describe :: "coin_scope \<Rightarrow> string" where
  "scope_describe s = (if cs_all s then ''all'' else join_commas (''hip4'' # sorted_list_of_set (cs_extra s)))"

section \<open>Subscriptions\<close>

datatype subscription =
    SubTrades string
  | SubL2Book string "u32 option" "usize option" "u64 option"
  | SubL4Book string

datatype client_message = Subscribe subscription | Unsubscribe subscription

datatype server_response =
    SubscriptionResponse client_message
  | RespL2Book l2_book
  | RespL4Book l4_book
  | RespTrades "trade list"
  | RespError string

fun sub_coin :: "subscription \<Rightarrow> string" where
  "sub_coin (SubTrades coin) = coin"
| "sub_coin (SubL2Book coin _ _ _) = coin"
| "sub_coin (SubL4Book coin) = coin"

definition validate_l2_view :: "u32 option \<Rightarrow> usize option \<Rightarrow> u64 option \<Rightarrow> bool" where
  "validate_l2_view n_sig_figs n_levels mantissa =
     (if n_levels = Some DEFAULT_LEVELS then False
      else
        let n = (case n_levels of None \<Rightarrow> DEFAULT_LEVELS | Some n \<Rightarrow> n)
        in if n = 0 \<or> n > MAX_LEVELS then False
           else (case n_sig_figs of
                   Some f \<Rightarrow>
                     if \<not> (2 \<le> f \<and> f \<le> 5) then False
                     else (case mantissa of
                             Some m \<Rightarrow> \<not> (f < 5 \<or> (m \<noteq> 5 \<and> m \<noteq> 2))
                           | None \<Rightarrow> True)
                 | None \<Rightarrow> mantissa = None))"

definition validate :: "subscription \<Rightarrow> string set \<Rightarrow> bool" where
  "validate sub universe =
     (if length (sub_coin sub) > 64 then False
      else (case sub of
              SubTrades coin \<Rightarrow> coin \<in> universe \<or> is_hip4_coin coin
            | SubL2Book coin n_sig_figs n_levels mantissa \<Rightarrow>
                if coin \<notin> universe \<and> \<not> is_hip4_coin coin then False
                else validate_l2_view n_sig_figs n_levels mantissa
            | SubL4Book coin \<Rightarrow>
                \<not> (coin \<notin> universe \<or> (case coin of [] \<Rightarrow> False | c # _ \<Rightarrow> c = CHR 0x40))))"

section \<open>The subscriptions of one connection\<close>

type_synonym subscription_manager = "subscription set"

definition sm_subscribe :: "subscription_manager \<Rightarrow> subscription \<Rightarrow> bool \<times> subscription_manager" where
  "sm_subscribe subs sub =
     (if card subs \<ge> MAX_SUBSCRIPTIONS \<and> sub \<notin> subs then (False, subs)
      else (sub \<notin> subs, insert sub subs))"

definition sm_unsubscribe :: "subscription_manager \<Rightarrow> subscription \<Rightarrow> bool \<times> subscription_manager" where
  "sm_unsubscribe subs sub = (sub \<in> subs, subs - {sub})"

fun sm_step :: "subscription_manager \<Rightarrow> client_message \<Rightarrow> subscription_manager" where
  "sm_step subs (Subscribe sub) = snd (sm_subscribe subs sub)"
| "sm_step subs (Unsubscribe sub) = snd (sm_unsubscribe subs sub)"

section \<open>Facts and properties\<close>

lemma sm_step_bounded:
  assumes "finite subs" and "card subs \<le> MAX_SUBSCRIPTIONS"
  shows "finite (sm_step subs m) \<and> card (sm_step subs m) \<le> MAX_SUBSCRIPTIONS"
  using assms
proof (cases m)
  case (Unsubscribe sub)
  then show ?thesis using assms by (auto simp: sm_unsubscribe_def card_Diff_singleton_if intro: le_trans [OF diff_le_self])
qed (auto simp: sm_subscribe_def card_insert_if)

text \<open>
  One connection never holds more than \<open>MAX_SUBSCRIPTIONS\<close> subscriptions, whatever
  messages it sends. A subscribe fails exactly when the subscription is already held or a new
  one would exceed the bound; otherwise it is held afterwards and every other subscription is
  untouched; an unsubscribe succeeds exactly on a held subscription and leaves it out.
\<close>

theorem subscriptions_bounded:
  "let subs = foldl sm_step {} ms
   in card subs \<le> MAX_SUBSCRIPTIONS \<and>
      (fst (sm_subscribe subs sub) \<longleftrightarrow> sub \<notin> subs \<and> card subs < MAX_SUBSCRIPTIONS) \<and>
      snd (sm_subscribe subs sub) = (if sub \<in> subs \<or> card subs < MAX_SUBSCRIPTIONS then insert sub subs else subs) \<and>
      (fst (sm_unsubscribe subs sub) \<longleftrightarrow> sub \<in> subs) \<and> snd (sm_unsubscribe subs sub) = subs - {sub}"
proof -
  have run: "finite s \<Longrightarrow> card s \<le> MAX_SUBSCRIPTIONS \<Longrightarrow>
      finite (foldl sm_step s ms) \<and> card (foldl sm_step s ms) \<le> MAX_SUBSCRIPTIONS" for s
    by (induction ms arbitrary: s) (simp_all add: sm_step_bounded)
  show ?thesis using run [of "{}"] by (auto simp: Let_def sm_subscribe_def sm_unsubscribe_def)
qed


lemma scope_collect_iff:
  "scope_collect coins extra =
     (case find (\<lambda>c. c = [] \<or> length c > 64 \<or> c = ''*'') coins of
        Some c \<Rightarrow> Inl (InvalidCoin c)
      | None \<Rightarrow> Inr (extra \<union> set coins))"
  by (induction coins arbitrary: extra) (auto split: option.splits)

definition scope_parts :: "string \<Rightarrow> string list" where
  "scope_parts value = map str_trim (split_on (CHR '','') (str_trim value))"

text \<open>
  A parsed \<open>BOOK_EXTRA_COINS\<close> puts in scope the HIP-4 coins, everything when it is a lone
  star, and otherwise exactly the trimmed comma-separated names; it is refused exactly when a
  name is empty, longer than 64 bytes or a star among others.
\<close>

theorem scope_parse_contains:
  "(case scope_parse value of
      Inr s \<Rightarrow> scope_contains s coin \<longleftrightarrow>
        is_hip4_coin coin \<or> str_trim value = ''*'' \<or> (str_trim value \<noteq> [] \<and> coin \<in> set (scope_parts value))
    | Inl e \<Rightarrow> str_trim value \<noteq> [] \<and> str_trim value \<noteq> ''*'' \<and>
        (\<exists>c \<in> set (scope_parts value). (c = [] \<or> length c > 64 \<or> c = ''*'') \<and> e = InvalidCoin c)) \<and>
   (isl (scope_parse value) \<longleftrightarrow> str_trim value \<noteq> [] \<and> str_trim value \<noteq> ''*'' \<and>
      (\<exists>c \<in> set (scope_parts value). c = [] \<or> length c > 64 \<or> c = ''*''))"
proof (cases "find (\<lambda>c. c = [] \<or> length c > 64 \<or> c = ''*'') (scope_parts value)")
  case None
  then have "\<forall>c \<in> set (scope_parts value). \<not> (c = [] \<or> length c > 64 \<or> c = ''*'')" by (simp add: find_None_iff)
  with None show ?thesis
    by (auto simp: scope_parse_def scope_collect_iff scope_parts_def [symmetric] scope_contains_def
        scope_default_def scope_all_def Let_def)
next
  case (Some c)
  then have "c \<in> set (scope_parts value)" "c = [] \<or> length c > 64 \<or> c = ''*''" by (auto dest: find_SomeD)
  with Some show ?thesis
    by (auto simp: scope_parse_def scope_collect_iff scope_parts_def [symmetric] scope_contains_def
        scope_default_def scope_all_def Let_def)
qed

end
