(* ===== verification/Batch_Queue.thy ===== *)
theory Batch_Queue
  imports Subscriptions
begin

text \<open>
  \<open>ResourceLimits\<close> (\<open>server/src/listeners/order_book/mod.rs\<close>) and \<open>BatchQueue\<close> (\<open>utils.rs\<close>): the bounded queue in
  which the batches of one event stream wait for the batch of the other stream at the same height.
\<close>

section \<open>Resource limits\<close>

text \<open>Durations and instants are counted in nanoseconds.\<close>

type_synonym duration = nat
type_synonym instant = nat

definition from_secs :: "nat \<Rightarrow> duration" where
  "from_secs n = n * 1000000000"

definition as_secs :: "duration \<Rightarrow> nat" where
  "as_secs d = d div 1000000000"

text \<open>\<open>Instant::elapsed\<close> saturates at zero, as does subtraction on \<open>nat\<close>.\<close>

definition elapsed :: "instant \<Rightarrow> instant \<Rightarrow> duration" where
  "elapsed now since = now - since"

record resource_limits =
  rl_dirty_files :: usize
  rl_turn_bytes :: usize
  rl_record_bytes :: usize
  rl_queue_bytes :: usize
  rl_queue_heights :: usize
  rl_queue_age :: duration
  rl_snapshot_timeout :: duration
  rl_snapshot_interval :: duration

definition DEFAULT_LIMITS :: resource_limits where
  "DEFAULT_LIMITS =
     \<lparr>rl_dirty_files = 32, rl_turn_bytes = 1024 * 1024, rl_record_bytes = 64 * 1024 * 1024,
      rl_queue_bytes = 1024 * 1024 * 1024, rl_queue_heights = 4096, rl_queue_age = from_secs 120,
      rl_snapshot_timeout = from_secs 120, rl_snapshot_interval = from_secs 10\<rparr>"

text \<open>\<open>str::parse\<close> at an unsigned type of the given width: an optional plus sign, then digits.\<close>

definition parse_unsigned :: "nat \<Rightarrow> string \<Rightarrow> nat result" where
  "parse_unsigned width s =
     (let ds = (case s of c # cs \<Rightarrow> if c = CHR 0x2B then cs else s | [] \<Rightarrow> [])
      in if ds = [] \<or> \<not> list_all is_digit ds then Inl (ParseIntError s)
         else let v = nat (digits_value ds) in if v < 2 ^ width then Inr v else Inl (ParseIntError s))"

definition limit_number :: "(string \<Rightarrow> env_var) \<Rightarrow> string \<Rightarrow> usize \<Rightarrow> usize result" where
  "limit_number env name fallback =
     and_then (case env name of
         Present value \<Rightarrow> (case parse_unsigned 64 value of Inr v \<Rightarrow> Inr v | Inl _ \<Rightarrow> Inl (EnvVarError name))
       | NotPresent \<Rightarrow> Inr fallback
       | NotUnicode _ \<Rightarrow> Inl (EnvVarError name))
       (\<lambda>value. if value = 0 then Inl (NotPositive name) else Inr value)"

definition limits_from_env :: "(string \<Rightarrow> env_var) \<Rightarrow> resource_limits result" where
  "limits_from_env env =
     (let defaults = DEFAULT_LIMITS in
      and_then (limit_number env ''BOOK_SNAPSHOT_INTERVAL_SECONDS'' (as_secs (rl_snapshot_interval defaults))) (\<lambda>snapshot_interval.
      if \<not> (10 \<le> snapshot_interval \<and> snapshot_interval \<le> 300) then Inl IntervalOutOfRange else
      and_then (limit_number env ''BOOK_MAX_DIRTY_FILES'' (rl_dirty_files defaults)) (\<lambda>dirty_files.
      and_then (limit_number env ''BOOK_READ_TURN_BYTES'' (rl_turn_bytes defaults)) (\<lambda>turn_bytes.
      and_then (limit_number env ''BOOK_MAX_RECORD_BYTES'' (rl_record_bytes defaults)) (\<lambda>record_bytes.
      and_then (limit_number env ''BOOK_MAX_QUEUE_BYTES'' (rl_queue_bytes defaults)) (\<lambda>queue_bytes.
      and_then (limit_number env ''BOOK_MAX_QUEUE_HEIGHTS'' (rl_queue_heights defaults)) (\<lambda>queue_heights.
      and_then (limit_number env ''BOOK_MAX_QUEUE_AGE_SECONDS'' (as_secs (rl_queue_age defaults))) (\<lambda>queue_age.
      and_then (limit_number env ''BOOK_SNAPSHOT_TIMEOUT_SECONDS'' (as_secs (rl_snapshot_timeout defaults))) (\<lambda>snapshot_timeout.
      Inr \<lparr>rl_dirty_files = dirty_files, rl_turn_bytes = turn_bytes, rl_record_bytes = record_bytes,
           rl_queue_bytes = queue_bytes, rl_queue_heights = queue_heights, rl_queue_age = from_secs queue_age,
           rl_snapshot_timeout = from_secs snapshot_timeout, rl_snapshot_interval = from_secs snapshot_interval\<rparr>)))))))))"

section \<open>The queue of unmatched batches\<close>

record 'e batch_queue =
  bq_deque :: "('e batch \<times> instant) list"
  bq_last_ts :: "u64 option"
  bq_bytes :: usize

definition bq_new :: "'e batch_queue" where
  "bq_new = \<lparr>bq_deque = [], bq_last_ts = None, bq_bytes = 0\<rparr>"

text \<open>\<open>push\<close>, at the instant \<open>now\<close>.\<close>

definition bq_push :: "instant \<Rightarrow> 'e batch_queue \<Rightarrow> 'e batch \<Rightarrow> resource_limits \<Rightarrow> bool result \<times> 'e batch_queue" where
  "bq_push now q block limits =
     (if (case bq_last_ts q of Some t \<Rightarrow> t \<ge> ba_block_number block | None \<Rightarrow> False) then (Inr False, q)
      else (case checked_add (bq_bytes q) (ba_wire_bytes block) of
              None \<Rightarrow> (Inl QueueByteOverflow, q)
            | Some next_bytes \<Rightarrow>
                if next_bytes > rl_queue_bytes limits
                   \<or> length (bq_deque q) \<ge> rl_queue_heights limits
                   \<or> (case bq_deque q of
                         [] \<Rightarrow> False
                       | (first, since) # _ \<Rightarrow>
                           elapsed now since > rl_queue_age limits
                           \<or> unat (ba_block_number block) - unat (ba_block_number first) > rl_queue_heights limits)
                then (Inl (QueueLimit (bq_bytes q) (length (bq_deque q))), q)
                else (Inr True,
                      q\<lparr>bq_last_ts := Some (ba_block_number block), bq_bytes := next_bytes,
                        bq_deque := bq_deque q @ [(block, now)]\<rparr>)))"

definition bq_expired :: "instant \<Rightarrow> 'e batch_queue \<Rightarrow> resource_limits \<Rightarrow> bool" where
  "bq_expired now q limits = (case bq_deque q of [] \<Rightarrow> False | (_, since) # _ \<Rightarrow> elapsed now since > rl_queue_age limits)"

definition bq_pop_front :: "'e batch_queue \<Rightarrow> 'e batch option \<times> 'e batch_queue" where
  "bq_pop_front q =
     (case bq_deque q of
        [] \<Rightarrow> (None, q)
      | (b, _) # rest \<Rightarrow> (Some b, q\<lparr>bq_deque := rest, bq_bytes := usize_minus (bq_bytes q) (ba_wire_bytes b)\<rparr>))"

definition bq_front :: "'e batch_queue \<Rightarrow> 'e batch option" where
  "bq_front q = (case bq_deque q of [] \<Rightarrow> None | (b, _) # _ \<Rightarrow> Some b)"

section \<open>The contract of the queue\<close>

text \<open>
  What the listener relies on: the queue is first in first out, and it holds blocks in strictly
  increasing height, above every height it has already taken.
\<close>

locale block_queue =
  fixes inv :: "'q \<Rightarrow> bool" and blocks :: "'q \<Rightarrow> 'e batch list"
    and front :: "'q \<Rightarrow> 'e batch option" and pop :: "'q \<Rightarrow> 'e batch option \<times> 'q"
  assumes increasing: "inv q \<Longrightarrow> sorted_wrt (<) (map ba_block_number (blocks q))"
    and front_blocks: "inv q \<Longrightarrow> front q = (case blocks q of [] \<Rightarrow> None | b # _ \<Rightarrow> Some b)"
    and pop_front: "inv q \<Longrightarrow> fst (pop q) = front q"
    and pop_blocks: "inv q \<Longrightarrow> blocks (snd (pop q)) = tl (blocks q)"
    and pop_inv: "inv q \<Longrightarrow> inv (snd (pop q))"
begin

lemma front_Some: "inv q \<Longrightarrow> front q = Some b \<Longrightarrow> \<exists>bs. blocks q = b # bs"
  by (auto simp: front_blocks split: list.splits)

lemma front_None: "inv q \<Longrightarrow> front q = None \<longleftrightarrow> blocks q = []"
  by (auto simp: front_blocks split: list.splits)

lemma front_least: "inv q \<Longrightarrow> front q = Some b \<Longrightarrow> x \<in> set (blocks q) \<Longrightarrow> ba_block_number b \<le> ba_block_number x"
  using increasing [of q] by (auto simp: front_blocks split: list.splits)

lemma pop_keeps_later:
  "inv q \<Longrightarrow> front q = Some b \<Longrightarrow> x \<in> set (blocks q) \<Longrightarrow> ba_block_number x \<noteq> ba_block_number b \<Longrightarrow>
    x \<in> set (blocks (snd (pop q)))"
  using front_Some [of q b] by (auto simp: pop_blocks)

end

definition bq_blocks :: "'e batch_queue \<Rightarrow> 'e batch list" where
  "bq_blocks q = map fst (bq_deque q)"

definition queued_bytes :: "'e batch list \<Rightarrow> nat" where
  "queued_bytes bs = sum_list (map ba_wire_bytes bs)"

definition bq_inv :: "'e batch_queue \<Rightarrow> bool" where
  "bq_inv q \<longleftrightarrow> bq_bytes q = queued_bytes (bq_blocks q) \<and>
     sorted_wrt (<) (map ba_block_number (bq_blocks q)) \<and>
     (case bq_last_ts q of None \<Rightarrow> bq_blocks q = [] | Some t \<Rightarrow> \<forall>b \<in> set (bq_blocks q). ba_block_number b \<le> t)"

lemma queued_bytes_simps [simp]: "queued_bytes [] = 0" "queued_bytes (b # bs) = ba_wire_bytes b + queued_bytes bs"
  "queued_bytes (as @ bs) = queued_bytes as + queued_bytes bs"
  by (simp_all add: queued_bytes_def)

lemma bq_inv_new [simp]: "bq_inv bq_new" "bq_blocks bq_new = []" "bq_bytes bq_new = 0"
  by (simp_all add: bq_inv_def bq_new_def bq_blocks_def)

lemma bq_pop_inv: "bq_inv q \<Longrightarrow> bq_inv (snd (bq_pop_front q))"
  by (auto simp: bq_inv_def bq_pop_front_def bq_blocks_def usize_minus_def split: list.splits option.splits)

interpretation bq: block_queue bq_inv bq_blocks bq_front bq_pop_front
proof
  fix q :: "'a batch_queue" assume q: "bq_inv q"
  show "sorted_wrt (<) (map ba_block_number (bq_blocks q))" using q by (simp add: bq_inv_def)
  show "bq_front q = (case bq_blocks q of [] \<Rightarrow> None | b # x \<Rightarrow> Some b)"
    by (auto simp: bq_front_def bq_blocks_def split: list.splits)
  show "fst (bq_pop_front q) = bq_front q"
    by (auto simp: bq_front_def bq_pop_front_def split: list.splits)
  show "bq_blocks (snd (bq_pop_front q)) = tl (bq_blocks q)"
    by (auto simp: bq_pop_front_def bq_blocks_def split: list.splits)
  show "bq_inv (snd (bq_pop_front q))" using q by (rule bq_pop_inv)
qed

text \<open>The outcomes of \<open>push\<close>.\<close>

lemma bq_push_cases:
  obtains (stale) t where "bq_last_ts q = Some t" "ba_block_number b \<le> t" "bq_push now q b limits = (Inr False, q)"
  | (refused) e where "bq_push now q b limits = (Inl e, q)"
  | (accepted) "bq_push now q b limits =
        (Inr True, q\<lparr>bq_last_ts := Some (ba_block_number b), bq_bytes := bq_bytes q + ba_wire_bytes b,
          bq_deque := bq_deque q @ [(b, now)]\<rparr>)"
      "\<forall>t. bq_last_ts q = Some t \<longrightarrow> t < ba_block_number b"
      "bq_bytes q + ba_wire_bytes b \<le> rl_queue_bytes limits" "length (bq_deque q) < rl_queue_heights limits"
  by (fastforce simp: bq_push_def checked_add_def split: if_splits option.splits)

lemma bq_push_inv: "bq_inv q \<Longrightarrow> bq_inv (snd (bq_push now q b limits))"
proof (cases rule: bq_push_cases [of q b now limits])
  case accepted
  assume "bq_inv q"
  with accepted show ?thesis
    by (cases "bq_last_ts q") (auto simp: bq_inv_def bq_blocks_def sorted_wrt_append)
qed simp_all

section \<open>Properties\<close>

datatype 'e queue_op = PushBlock instant "'e batch" | PopBlock

text \<open>The queue under a sequence of calls, with the blocks it has taken and the blocks it has handed out.\<close>

fun queue_step ::
    "resource_limits \<Rightarrow> 'e queue_op \<Rightarrow> 'e batch list \<times> 'e batch list \<times> 'e batch_queue
     \<Rightarrow> 'e batch list \<times> 'e batch list \<times> 'e batch_queue" where
  "queue_step limits (PushBlock now b) (taken, given, q) =
     (case bq_push now q b limits of
        (Inr True, q') \<Rightarrow> (taken @ [b], given, q')
      | (_, q') \<Rightarrow> (taken, given, q'))"
| "queue_step limits PopBlock (taken, given, q) =
     (case bq_pop_front q of (Some b, q') \<Rightarrow> (taken, given @ [b], q') | (None, q') \<Rightarrow> (taken, given, q'))"

definition queue_ok :: "resource_limits \<Rightarrow> 'e batch list \<times> 'e batch list \<times> 'e batch_queue \<Rightarrow> bool" where
  "queue_ok limits r = (case r of (taken, given, q) \<Rightarrow>
     bq_inv q \<and> taken = given @ bq_blocks q \<and> sorted_wrt (<) (map ba_block_number taken) \<and>
     (case bq_last_ts q of None \<Rightarrow> taken = [] | Some t \<Rightarrow> \<forall>b \<in> set taken. ba_block_number b \<le> t) \<and>
     bq_bytes q \<le> rl_queue_bytes limits \<and> length (bq_deque q) \<le> rl_queue_heights limits)"

lemma queue_step_ok: "queue_ok limits r \<Longrightarrow> queue_ok limits (queue_step limits op r)"
proof (induction limits op r rule: queue_step.induct)
  case (1 limits now b taken given q)
  then have inv: "bq_inv (snd (bq_push now q b limits))" by (simp add: queue_ok_def bq_push_inv)
  show ?case
  proof (cases rule: bq_push_cases [of q b now limits])
    case accepted
    have "ba_block_number x < ba_block_number b" if "x \<in> set taken" for x
      using that 1 accepted(2) by (cases "bq_last_ts q") (auto simp: queue_ok_def intro: le_less_trans)
    moreover have "sorted_wrt (<) (map ba_block_number taken)" using 1 by (auto simp: queue_ok_def)
    moreover from calculation have "sorted_wrt (<) (map ba_block_number (taken @ [b]))" by (simp add: sorted_wrt_append)
    moreover have "taken = given @ map fst (bq_deque q)" using 1 by (simp add: queue_ok_def bq_blocks_def)
    ultimately show ?thesis
      using accepted inv by (simp add: queue_ok_def bq_blocks_def less_imp_le Suc_leI)
  qed (use 1 in simp_all)
next
  case (2 limits taken given q)
  then have q: "bq_inv q" "bq_inv (snd (bq_pop_front q))" by (simp_all add: queue_ok_def bq_pop_inv)
  then have bytes: "bq_bytes (snd (bq_pop_front q)) \<le> bq_bytes q"
    by (auto simp: bq_inv_def bq_pop_front_def bq_blocks_def split: list.splits)
  with 2 q(2) show ?case
    by (cases "bq_last_ts q") (auto simp: queue_ok_def bq_pop_front_def bq_blocks_def split: list.splits)
qed

lemma queue_run_ok: "queue_ok limits r \<Longrightarrow> queue_ok limits (fold (queue_step limits) ops r)"
  by (induction ops arbitrary: r) (simp_all add: queue_step_ok)

text \<open>
  C26. Whatever is pushed and popped, in any order and at any instants: the queue hands out blocks first in
  first out without losing or repeating one it took, the heights it takes strictly increase, its byte
  counter is exactly the bytes it holds (so the subtraction in \<open>pop_front\<close> never wraps), and
  neither the bytes nor the number of blocks exceed the configured limits.
\<close>

theorem batch_queue_bounded_fifo:
  "case fold (queue_step limits) ops ([], [], bq_new) of (taken, given, q) \<Rightarrow>
     taken = given @ map fst (bq_deque q) \<and>
     sorted_wrt (<) (map ba_block_number taken) \<and>
     bq_bytes q = sum_list (map (ba_wire_bytes \<circ> fst) (bq_deque q)) \<and>
     bq_bytes q \<le> rl_queue_bytes limits \<and> length (bq_deque q) \<le> rl_queue_heights limits"
proof -
  have "queue_ok limits ([], [], bq_new)" by (simp add: queue_ok_def) (simp add: bq_new_def)
  from queue_run_ok [OF this, of ops] show ?thesis
    by (auto simp: queue_ok_def bq_inv_def bq_blocks_def queued_bytes_def split: prod.splits)
qed

lemma limit_number_pos: "limit_number env name fallback = Inr v \<Longrightarrow> 0 < v"
  by (auto simp: limit_number_def split: if_splits)

lemma limits_from_env_pos: "limits_from_env env = Inr l \<Longrightarrow> 0 < rl_dirty_files l \<and> 0 < rl_turn_bytes l"
  unfolding limits_from_env_def Let_def by (clarsimp simp: limit_number_pos split: if_splits)

text \<open>
  C27. The limits read from the environment are usable: every limit and timeout is positive and the snapshot
  interval lies between 10 and 300 seconds; anything else is an error. With no variable set they
  are the defaults.
\<close>

theorem limits_from_env_usable:
  "(case limits_from_env env of
      Inl _ \<Rightarrow> True
    | Inr l \<Rightarrow> 0 < rl_dirty_files l \<and> 0 < rl_turn_bytes l \<and> 0 < rl_record_bytes l \<and> 0 < rl_queue_bytes l \<and>
        0 < rl_queue_heights l \<and> 0 < rl_queue_age l \<and> 0 < rl_snapshot_timeout l \<and>
        from_secs 10 \<le> rl_snapshot_interval l \<and> rl_snapshot_interval l \<le> from_secs 300) \<and>
   limits_from_env (\<lambda>_. NotPresent) = Inr DEFAULT_LIMITS"
proof
  show "limits_from_env (\<lambda>_. NotPresent) = Inr DEFAULT_LIMITS"
    by (simp add: limits_from_env_def limit_number_def DEFAULT_LIMITS_def as_secs_def from_secs_def)
  show "case limits_from_env env of Inl _ \<Rightarrow> True
    | Inr l \<Rightarrow> 0 < rl_dirty_files l \<and> 0 < rl_turn_bytes l \<and> 0 < rl_record_bytes l \<and> 0 < rl_queue_bytes l \<and>
        0 < rl_queue_heights l \<and> 0 < rl_queue_age l \<and> 0 < rl_snapshot_timeout l \<and>
        from_secs 10 \<le> rl_snapshot_interval l \<and> rl_snapshot_interval l \<le> from_secs 300"
  proof (cases "limits_from_env env")
    case (Inr l)
    then show ?thesis
      unfolding limits_from_env_def Let_def
      by (clarsimp split: if_splits) (simp add: from_secs_def limit_number_pos)
  qed simp
qed

end
