(* ===== verification/Order_Book.thy ===== *)
theory Order_Book
  imports Book_Types Keyed_List
begin

text \<open>
  \<open>OrderBook<O>\<close> and \<open>Snapshot<O>\<close> of \<open>server/src/order_book/mod.rs\<close> at the order type the
  server uses (\<open>InnerL4Order\<close>): two price-ordered maps of FIFO levels and an index from order
  ids to their side and price. A level is the keyed list its \<open>LinkedList\<close> implements
  (\<open>Linked_List\<close>, C1).
\<close>

section \<open>The book\<close>

type_synonym level = "(oid, inner_l4_order) keyed_list"
type_synonym levels = "(px, level) btree_map"

record order_book =
  oid_to_side_px :: "oid \<rightharpoonup> side \<times> px"
  bids :: levels
  asks :: levels

text \<open>\<open>struct Snapshot<O>([Vec<O>; 2])\<close>: bids first, then asks.\<close>

datatype 'o snapshot = Snapshot (snap_bids: "'o list") (snap_asks: "'o list")

definition snapshot_truncate :: "'o snapshot \<Rightarrow> usize \<Rightarrow> 'o snapshot" where
  "snapshot_truncate s n = Snapshot (take n (snap_bids s)) (take n (snap_asks s))"

text \<open>\<open>remove_triggers\<close>: pops from the back of each side while the last order's id is on both sides.\<close>

definition pop_triggers :: "oid set \<Rightarrow> oid set \<Rightarrow> inner_l4_order list \<Rightarrow> inner_l4_order list" where
  "pop_triggers bid_oids ask_oids orders =
     rev (dropWhile (\<lambda>o1. order_oid o1 \<in> bid_oids \<and> order_oid o1 \<in> ask_oids) (rev orders))"

definition remove_triggers :: "inner_l4_order snapshot \<Rightarrow> inner_l4_order snapshot" where
  "remove_triggers s =
     (let bid_oids = order_oid ` set (snap_bids s); ask_oids = order_oid ` set (snap_asks s)
      in Snapshot (pop_triggers bid_oids ask_oids (snap_bids s))
           (pop_triggers bid_oids ask_oids (snap_asks s)))"

definition ob_new :: order_book where
  "ob_new = \<lparr>oid_to_side_px = Map.empty, bids = [], asks = []\<rparr>"

section \<open>Matching\<close>

text \<open>
  The \<open>while let\<close> over one level: fill the head, drop it when nothing of it is left, stop when
  nothing of the taker is left. One of the two is empty after every fill, which is why the
  loop ends.
\<close>

function match_level :: "inner_l4_order \<Rightarrow> level \<Rightarrow> oid list \<Rightarrow> inner_l4_order \<times> level \<times> oid list" where
  "match_level taker lst filled_oids =
     (case kl_head_value lst of
        None \<Rightarrow> (taker, lst, filled_oids)
      | Some maker \<Rightarrow>
          let (taker', maker', match_sz) = fill taker maker;
              lst1 = kl_write_head lst maker';
              (filled', lst2) =
                (if sz_is_zero (io_sz maker')
                 then (filled_oids @ [order_oid maker'],
                       (case kl_remove_front lst1 of Inl e \<Rightarrow> lst1 | Inr l \<Rightarrow> l))
                 else (filled_oids, lst1))
          in if sz_is_zero (io_sz taker') then (taker', lst2, filled')
             else match_level taker' lst2 filled')"
  by pat_completeness auto
termination
proof (relation "measure (\<lambda>(taker, lst, filled). length lst)", goal_cases)
  case 1
  then show ?case by simp
next
  case (2 taker lst filled maker pr taker' pr' maker' match_sz lst1 pr'' filled' lst2)
  then obtain k ms where lst: "lst = (k, maker) # ms"
    by (cases lst) (auto simp: kl_head_value_def)
  have f: "fill taker maker = (taker', maker', match_sz)" using 2 by simp
  have "qty (io_sz taker') \<noteq> 0" using 2 by (simp add: book_simps)
  with qty_fill(1,2) [OF f] have "qty (io_sz maker') = 0" by simp
  with 2 lst show ?case
    by (auto simp: book_simps kl_write_head_def kl_remove_front_def)
qed

declare match_level.simps [simp del]

definition crosses :: "side \<Rightarrow> px \<Rightarrow> px \<Rightarrow> bool" where
  "crosses taker_side limit_px maker_px =
     (case taker_side of Ask \<Rightarrow> maker_px \<ge> limit_px | Bid \<Rightarrow> maker_px \<le> limit_px)"

text \<open>
  The \<open>for\<close> over the levels in matching order, with its two \<open>break\<close>s. The levels come back in
  the same order, mutated in place; \<open>keys_to_remove\<close> collects the prices left empty.
\<close>

fun match_levels ::
    "inner_l4_order \<Rightarrow> levels \<Rightarrow> oid list \<Rightarrow> px list \<Rightarrow> inner_l4_order \<times> levels \<times> oid list \<times> px list" where
  "match_levels taker [] filled_oids keys_to_remove = (taker, [], filled_oids, keys_to_remove)"
| "match_levels taker ((p, lst) # rest) filled_oids keys_to_remove =
     (if \<not> crosses (io_side taker) (io_limit_px taker) p
      then (taker, (p, lst) # rest, filled_oids, keys_to_remove)
      else
        let (taker', lst', filled') = match_level taker lst filled_oids;
            keys' = (if kl_is_empty lst' then keys_to_remove @ [p] else keys_to_remove)
        in if sz_is_zero (io_sz taker') then (taker', (p, lst') # rest, filled', keys')
           else
             let (taker2, rest', filled2, keys2) = match_levels taker' rest filled' keys'
             in (taker2, (p, lst') # rest', filled2, keys2))"

definition match_order :: "levels \<Rightarrow> inner_l4_order \<Rightarrow> levels \<times> inner_l4_order \<times> oid list" where
  "match_order maker_orders taker_order =
     (let order_iter = (case io_side taker_order of Ask \<Rightarrow> rev maker_orders | Bid \<Rightarrow> maker_orders);
          (taker', visited, filled_oids, keys_to_remove) = match_levels taker_order order_iter [] [];
          maker' = (case io_side taker_order of Ask \<Rightarrow> rev visited | Bid \<Rightarrow> visited)
      in (fold bt_remove keys_to_remove maker', taker', filled_oids))"

section \<open>Operations\<close>

definition add_order_to_book :: "levels \<Rightarrow> inner_l4_order \<Rightarrow> oid option \<Rightarrow> bool \<times> levels" where
  "add_order_to_book m order insert_before =
     (let oid = order_oid order; limit_px = io_limit_px order;
          lst = bt_get_or kl_new m limit_px
      in (case insert_before of
            None \<Rightarrow> (True, bt_insert limit_px (snd (kl_push_back lst oid order)) m)
          | Some before \<Rightarrow>
              let (inserted, lst') = kl_insert_before lst before oid order;
                  m' = bt_insert limit_px lst' m
              in (inserted, if kl_is_empty lst' then bt_remove limit_px m' else m')))"

definition ob_side :: "order_book \<Rightarrow> side \<Rightarrow> levels" where
  "ob_side b s = (case s of Ask \<Rightarrow> asks b | Bid \<Rightarrow> bids b)"

definition ob_set_side :: "order_book \<Rightarrow> side \<Rightarrow> levels \<Rightarrow> order_book" where
  "ob_set_side b s m = (case s of Ask \<Rightarrow> b\<lparr>asks := m\<rparr> | Bid \<Rightarrow> b\<lparr>bids := m\<rparr>)"

definition opposite :: "side \<Rightarrow> side" where
  "opposite s = (case s of Ask \<Rightarrow> Bid | Bid \<Rightarrow> Ask)"

text \<open>The maker side is the opposite of the order's side; it is matched before the order rests.\<close>

definition add_order_before :: "order_book \<Rightarrow> inner_l4_order \<Rightarrow> oid option \<Rightarrow> bool \<times> order_book" where
  "add_order_before b order insert_before =
     (let (maker', order', oids) = match_order (ob_side b (opposite (io_side order))) order;
          b1 = ob_set_side b (opposite (io_side order)) maker';
          b2 = b1\<lparr>oid_to_side_px := fold (\<lambda>oid m. m(oid := None)) oids (oid_to_side_px b1)\<rparr>
      in if sz_is_positive (io_sz order')
         then
           let (oid, side, px) = (order_oid order', io_side order', io_limit_px order');
               (ok, resting') = add_order_to_book (ob_side b2 side) order' insert_before;
               b3 = ob_set_side b2 side resting'
           in if \<not> ok then (False, b3)
              else (True, b3\<lparr>oid_to_side_px := (oid_to_side_px b3)(oid \<mapsto> (side, px))\<rparr>)
         else (True, b2))"

definition add_order :: "order_book \<Rightarrow> inner_l4_order \<Rightarrow> order_book" where
  "add_order b order = snd (add_order_before b order None)"

definition cancel_order :: "order_book \<Rightarrow> oid \<Rightarrow> bool \<times> order_book" where
  "cancel_order b oid =
     (case oid_to_side_px b oid of
        Some (side, px) \<Rightarrow>
          let b1 = b\<lparr>oid_to_side_px := (oid_to_side_px b)(oid := None)\<rparr>
          in (case map_of (ob_side b1 side) px of
                Some lst \<Rightarrow>
                  let (success, lst') = kl_remove_node lst oid;
                      m' = bt_insert px lst' (ob_side b1 side)
                  in (success, ob_set_side b1 side (if kl_is_empty lst' then bt_remove px m' else m'))
              | None \<Rightarrow> (False, b1))
      | None \<Rightarrow> (False, b))"

definition modify_sz :: "order_book \<Rightarrow> oid \<Rightarrow> sz \<Rightarrow> bool \<times> order_book" where
  "modify_sz b oid s =
     (case oid_to_side_px b oid of
        Some (side, px) \<Rightarrow>
          (case map_of (ob_side b side) px of
             Some lst \<Rightarrow>
               (case kl_node_value lst oid of
                  Some old_order \<Rightarrow>
                    (True, ob_set_side b side
                       (bt_insert px (kl_write_node lst oid (modify_order_sz old_order s)) (ob_side b side)))
                | None \<Rightarrow> (False, b))
           | None \<Rightarrow> (False, b))
      | None \<Rightarrow> (False, b))"

definition to_snapshot :: "order_book \<Rightarrow> inner_l4_order snapshot" where
  "to_snapshot b =
     Snapshot (concat (map (\<lambda>(_, l). kl_to_vec l) (rev (bids b))))
       (concat (map (\<lambda>(_, l). kl_to_vec l) (asks b)))"

definition from_snapshot :: "inner_l4_order snapshot \<Rightarrow> bool \<Rightarrow> order_book" where
  "from_snapshot snap ignore_triggers =
     (let s = (if ignore_triggers then remove_triggers snap else snap)
      in foldl add_order (foldl add_order ob_new (snap_bids s)) (snap_asks s))"

end
