(* ===== verification/Price_Time.thy ===== *)
theory Price_Time
  imports Order_Book
begin

text \<open>
  The abstract specification of the order book: each side is one queue of orders in price-time
  priority, best first, exactly what \<open>to_snapshot\<close> lists. Adding, cancelling and resizing are
  given here on the two queues, with no levels, no index and no maps;
  \<open>Order_Book_Refinement\<close> proves that \<open>OrderBook\<close> implements them.
\<close>

section \<open>Priority\<close>

text \<open>\<open>better s p q\<close>: price \<open>p\<close> is served strictly before \<open>q\<close> on side \<open>s\<close>.\<close>

definition better :: "side \<Rightarrow> px \<Rightarrow> px \<Rightarrow> bool" where
  "better s p q = (case s of Ask \<Rightarrow> p < q | Bid \<Rightarrow> q < p)"

definition queue_of :: "'o snapshot \<Rightarrow> side \<Rightarrow> 'o list" where
  "queue_of q s = (case s of Ask \<Rightarrow> snap_asks q | Bid \<Rightarrow> snap_bids q)"

definition set_queue :: "'o snapshot \<Rightarrow> side \<Rightarrow> 'o list \<Rightarrow> 'o snapshot" where
  "set_queue q s os = (case s of Ask \<Rightarrow> Snapshot (snap_bids q) os | Bid \<Rightarrow> Snapshot os (snap_asks q))"

definition resize :: "inner_l4_order \<Rightarrow> nat \<Rightarrow> inner_l4_order" where
  "resize o1 n = o1\<lparr>io_sz := Sz (of_nat n)\<rparr>"

section \<open>Matching\<close>

text \<open>
  Consumes \<open>n\<close> units from a queue of makers, front first: what is left of \<open>n\<close>, the makers left
  and the ids filled completely.
\<close>

fun consume :: "nat \<Rightarrow> inner_l4_order list \<Rightarrow> nat \<times> inner_l4_order list \<times> oid list" where
  "consume n [] = (n, [], [])"
| "consume n (m # ms) =
     (let q = qty (io_sz m)
      in if n < q then (0, resize m (q - n) # ms, [])
         else if n = q then (0, ms, [order_oid m])
         else let (n', ms', filled) = consume (n - q) ms in (n', ms', order_oid m # filled))"

text \<open>A taker accepts a maker's price unless its limit comes strictly before it in the makers' order.\<close>

definition accepts :: "side \<Rightarrow> px \<Rightarrow> px \<Rightarrow> bool" where
  "accepts s limit_px p \<longleftrightarrow> \<not> better (opposite s) limit_px p"

lemma crosses_accepts [simp]: "crosses s limit_px p = accepts s limit_px p"
  by (cases s) (auto simp: crosses_def accepts_def better_def opposite_def)

definition match_queue ::
    "inner_l4_order \<Rightarrow> inner_l4_order list \<Rightarrow> nat \<times> inner_l4_order list \<times> oid list" where
  "match_queue taker q =
     (let hit = (\<lambda>m. accepts (io_side taker) (io_limit_px taker) (io_limit_px m));
          (n, left, filled) = consume (qty (io_sz taker)) (takeWhile hit q)
      in (n, left @ dropWhile hit q, filled))"

section \<open>Operations on the two queues\<close>

text \<open>Behind every order at the same or a better price.\<close>

definition queue_back :: "side \<Rightarrow> inner_l4_order \<Rightarrow> inner_l4_order list \<Rightarrow> inner_l4_order list" where
  "queue_back s o1 q =
     (let ahead = (\<lambda>m. \<not> better s (io_limit_px o1) (io_limit_px m))
      in takeWhile ahead q @ o1 # dropWhile ahead q)"

text \<open>Directly in front of the order \<open>k\<close>.\<close>

definition queue_before :: "oid \<Rightarrow> inner_l4_order \<Rightarrow> inner_l4_order list \<Rightarrow> inner_l4_order list" where
  "queue_before k o1 q =
     takeWhile (\<lambda>m. order_oid m \<noteq> k) q @ o1 # dropWhile (\<lambda>m. order_oid m \<noteq> k) q"

definition spec_add :: "inner_l4_order snapshot \<Rightarrow> inner_l4_order \<Rightarrow> oid option \<Rightarrow> bool \<times> inner_l4_order snapshot" where
  "spec_add q o1 insert_before =
     (let s = io_side o1;
          (n, makers, filled) = match_queue o1 (queue_of q (opposite s));
          q1 = set_queue q (opposite s) makers;
          o2 = resize o1 n
      in if n = 0 then (True, q1)
         else (case insert_before of
                 None \<Rightarrow> (True, set_queue q1 s (queue_back s o2 (queue_of q1 s)))
               | Some k \<Rightarrow>
                   if \<exists>m \<in> set (queue_of q1 s). order_oid m = k \<and> io_limit_px m = io_limit_px o1
                   then (True, set_queue q1 s (queue_before k o2 (queue_of q1 s)))
                   else (False, q1)))"

definition snap_orders :: "inner_l4_order snapshot \<Rightarrow> inner_l4_order list" where
  "snap_orders q = snap_bids q @ snap_asks q"

definition map_queues :: "('o list \<Rightarrow> 'o list) \<Rightarrow> 'o snapshot \<Rightarrow> 'o snapshot" where
  "map_queues f q = Snapshot (f (snap_bids q)) (f (snap_asks q))"

definition spec_cancel :: "inner_l4_order snapshot \<Rightarrow> oid \<Rightarrow> bool \<times> inner_l4_order snapshot" where
  "spec_cancel q k =
     (k \<in> order_oid ` set (snap_orders q), map_queues (filter (\<lambda>m. order_oid m \<noteq> k)) q)"

definition spec_modify :: "inner_l4_order snapshot \<Rightarrow> oid \<Rightarrow> sz \<Rightarrow> bool \<times> inner_l4_order snapshot" where
  "spec_modify q k s =
     (k \<in> order_oid ` set (snap_orders q),
      map_queues (map (\<lambda>m. if order_oid m = k then m\<lparr>io_sz := s\<rparr> else m)) q)"

section \<open>Facts about consuming\<close>

lemma resize_fields [simp]:
  "io_oid (resize o1 n) = io_oid o1" "io_side (resize o1 n) = io_side o1"
  "io_limit_px (resize o1 n) = io_limit_px o1" "io_coin (resize o1 n) = io_coin o1"
  "order_oid (resize o1 n) = order_oid o1" "io_sz (resize o1 n) = Sz (of_nat n)"
  "resize (resize o1 m) n = resize o1 n"
  by (simp_all add: resize_def order_oid_def)

lemma resize_same [simp]: "resize o1 (qty (io_sz o1)) = o1"
  by (simp add: resize_def)

lemma fill_resize:
  assumes "fill t m = (t', m', q)"
  shows "t' = resize t (qty (io_sz t) - qty (io_sz m))" "m' = resize m (qty (io_sz m) - qty (io_sz t))"
  using fill_taker [OF assms] fill_maker [OF assms] by (simp_all add: resize_def)

lemma consume_remaining: "fst (consume n ms) = n - sum_list (map (\<lambda>m. qty (io_sz m)) ms)"
  by (induction n ms rule: consume.induct) (auto simp: Let_def split: prod.splits)

lemma consume_all: "fst (consume n ms) \<noteq> 0 \<Longrightarrow> fst (snd (consume n ms)) = []"
  by (induction n ms rule: consume.induct) (auto simp: Let_def split: prod.splits if_splits)

lemma consume_oids:
  "map order_oid ms = snd (snd (consume n ms)) @ map order_oid (fst (snd (consume n ms)))"
  by (induction n ms rule: consume.induct) (auto simp: Let_def split: prod.splits)

lemma consume_kept:
  assumes "o1 \<in> set (fst (snd (consume n ms)))"
  obtains m i where "m \<in> set ms" and "o1 = resize m i"
proof -
  have "\<exists>m \<in> set ms. \<exists>i. o1 = resize m i"
    using assms
  proof (induction n ms rule: consume.induct)
    case (2 n m ms)
    have id: "\<exists>i. x = resize x i" for x by (rule exI [of _ "qty (io_sz x)"]) simp
    consider "o1 = resize m (qty (io_sz m) - n)" | "o1 \<in> set ms"
      | "qty (io_sz m) < n" "o1 \<in> set (fst (snd (consume (n - qty (io_sz m)) ms)))"
      using 2(2) by (auto simp: Let_def split: prod.splits if_splits)
    then show ?case using 2(1) [OF refl] id by cases auto
  qed simp
  then show thesis using that by blast
qed

lemma consume_append:
  assumes "xs \<noteq> []"
  shows "consume n (xs @ ys) =
    (let (n1, xs1, f1) = consume n xs
     in if n1 = 0 then (0, xs1 @ ys, f1)
        else let (n2, ys2, f2) = consume n1 ys in (n2, ys2, f1 @ f2))"
  using assms
proof (induction n xs rule: consume.induct)
  case (2 n m ms)
  then show ?case
    by (cases "ms = []") (auto simp: Let_def split: prod.splits)
qed simp

text \<open>Nothing is created or lost: what the taker gives up is what the makers give up.\<close>

lemma consume_conserves:
  "fst (consume n ms) + sum_list (map (\<lambda>m. qty (io_sz m)) ms) =
    n + sum_list (map (\<lambda>m. qty (io_sz m)) (fst (snd (consume n ms))))"
proof (induction n ms rule: consume.induct)
  case (2 n m ms)
  then show ?case by (auto simp: Let_def simp del: of_nat_diff split: prod.splits)
qed simp

lemma queue_before_append:
  "\<forall>x \<in> set xs. order_oid x \<noteq> k \<Longrightarrow> order_oid v = k \<Longrightarrow> queue_before k o1 (xs @ v # ys) = xs @ o1 # v # ys"
  by (induction xs) (auto simp: queue_before_def)

end
