(* ===== verification/Order_Book_Refinement.thy ===== *)
theory Order_Book_Refinement
  imports Price_Time
begin

text \<open>
  \<open>OrderBook\<close> implements the price-time queues of \<open>Price_Time\<close>: the representation invariant
  (levels sorted and never empty, orders filed under their own id, price and side, the index
  naming exactly the resting orders), its preservation by every operation, and the functional
  refinement of each operation through \<open>to_snapshot\<close>.
\<close>

section \<open>Representation invariant\<close>

definition level_ok :: "side \<Rightarrow> px \<Rightarrow> level \<Rightarrow> bool" where
  "level_ok s p l \<longleftrightarrow>
     (\<forall>e \<in> set l. fst e = order_oid (snd e) \<and> io_limit_px (snd e) = p \<and> io_side (snd e) = s)"

definition levels_inv :: "side \<Rightarrow> levels \<Rightarrow> bool" where
  "levels_inv s m \<longleftrightarrow> bt_sorted m \<and> (\<forall>e \<in> set m. snd e \<noteq> [] \<and> level_ok s (fst e) (snd e))"

definition index_entry :: "inner_l4_order \<Rightarrow> oid \<times> side \<times> px" where
  "index_entry m = (order_oid m, io_side m, io_limit_px m)"

definition ob_inv :: "order_book \<Rightarrow> bool" where
  "ob_inv b \<longleftrightarrow>
     levels_inv Bid (bids b) \<and> levels_inv Ask (asks b) \<and>
     distinct (map order_oid (snap_orders (to_snapshot b))) \<and>
     oid_to_side_px b = map_of (map index_entry (snap_orders (to_snapshot b)))"

text \<open>A side's levels and its queue, best price first.\<close>

definition in_priority :: "side \<Rightarrow> 'a list \<Rightarrow> 'a list" where
  "in_priority s m = (case s of Ask \<Rightarrow> m | Bid \<Rightarrow> rev m)"

definition flat :: "levels \<Rightarrow> inner_l4_order list" where
  "flat m = concat (map (\<lambda>(_, l). kl_to_vec l) m)"

lemma flat_simps [simp]:
  "flat [] = []" "flat (e # m) = map snd (snd e) @ flat m" "flat (a @ b) = flat a @ flat b"
  by (auto simp: flat_def kl_to_vec_def split: prod.splits)

lemma set_flat: "set (flat m) = (\<Union>e \<in> set m. snd ` set (snd e))"
  by (induction m) auto

lemma in_priority_simps [simp]:
  "in_priority s (in_priority s m) = m" "set (in_priority s m) = set m"
  "in_priority s (map f m) = map f (in_priority s m)"
  "in_priority s (filter P m) = filter P (in_priority s m)"
  by (cases s; simp add: in_priority_def rev_map rev_filter)+

lemma ob_side_set_side [simp]:
  "ob_side (ob_set_side b s m) t = (if s = t then m else ob_side b t)"
  "oid_to_side_px (ob_set_side b s m) = oid_to_side_px b"
  "ob_side (b\<lparr>oid_to_side_px := f\<rparr>) t = ob_side b t"
  by (cases s; cases t; simp add: ob_side_def ob_set_side_def)+

lemma queue_of_set_queue [simp]: "queue_of (set_queue q s os) t = (if s = t then os else queue_of q t)"
  by (cases s; cases t; simp add: queue_of_def set_queue_def)

lemma opposite_simps [simp]: "opposite s \<noteq> s" "s \<noteq> opposite s" "opposite (opposite s) = s"
  by (cases s; simp add: opposite_def)+

lemma queue_of_to_snapshot [simp]: "queue_of (to_snapshot b) s = flat (in_priority s (ob_side b s))"
  by (cases s) (simp_all add: queue_of_def to_snapshot_def in_priority_def ob_side_def flat_def)

lemma snapshot_eqI: "(\<And>s. queue_of q s = queue_of q' s) \<Longrightarrow> q = q'"
proof -
  assume "\<And>s. queue_of q s = queue_of q' s"
  from this [of Bid] this [of Ask] show "q = q'"
    by (simp add: queue_of_def snapshot.expand)
qed

lemma to_snapshot_index [simp]: "to_snapshot (b\<lparr>oid_to_side_px := f\<rparr>) = to_snapshot b"
  by (simp add: to_snapshot_def)

lemma to_snapshot_set_side [simp]:
  "to_snapshot (ob_set_side b s m) = set_queue (to_snapshot b) s (flat (in_priority s m))"
  by (rule snapshot_eqI) simp

text \<open>The invariant side by side: what each side keeps, and what the index keeps.\<close>

lemma snap_orders_sides:
  "set (snap_orders q) = set (queue_of q s) \<union> set (queue_of q (opposite s))"
  by (cases s) (auto simp: snap_orders_def queue_of_def opposite_def)

lemma distinct_snap_orders:
  "distinct (map order_oid (snap_orders q)) \<longleftrightarrow>
     distinct (map order_oid (queue_of q s)) \<and> distinct (map order_oid (queue_of q (opposite s))) \<and>
     order_oid ` set (queue_of q s) \<inter> order_oid ` set (queue_of q (opposite s)) = {}"
  by (cases s) (auto simp: snap_orders_def queue_of_def opposite_def)

definition indexed :: "(oid \<rightharpoonup> side \<times> px) \<Rightarrow> inner_l4_order set \<Rightarrow> bool" where
  "indexed f os \<longleftrightarrow> (\<forall>k v. f k = Some v \<longleftrightarrow> (k, v) \<in> index_entry ` os)"

lemma fst_index_entry [simp]: "fst (index_entry m) = order_oid m" "fst \<circ> index_entry = order_oid"
  by (auto simp: index_entry_def)

lemma map_of_indexed:
  assumes "distinct (map order_oid os)"
  shows "f = map_of (map index_entry os) \<longleftrightarrow> indexed f (set os)"
proof -
  let ?es = "map index_entry os"
  have d: "distinct (map fst ?es)" using assms by simp
  have iff: "map_of ?es k = Some v \<longleftrightarrow> (k, v) \<in> index_entry ` set os" for k v
    by (subst map_of_eq_Some_iff [OF d]) simp
  then have "indexed (map_of ?es) (set os)" by (simp add: indexed_def)
  moreover have "f = map_of ?es" if "indexed f (set os)"
  proof
    fix k
    have "f k = Some v \<longleftrightarrow> map_of ?es k = Some v" for v
      using that unfolding indexed_def iff by blast
    then show "f k = map_of ?es k" by (metis option.exhaust)
  qed
  ultimately show ?thesis by blast
qed

lemma ob_inv_iff:
  "ob_inv b \<longleftrightarrow>
     levels_inv s (ob_side b s) \<and> levels_inv (opposite s) (ob_side b (opposite s)) \<and>
     distinct (map order_oid (queue_of (to_snapshot b) s)) \<and>
     distinct (map order_oid (queue_of (to_snapshot b) (opposite s))) \<and>
     order_oid ` set (queue_of (to_snapshot b) s) \<inter> order_oid ` set (queue_of (to_snapshot b) (opposite s)) = {} \<and>
     indexed (oid_to_side_px b) (set (queue_of (to_snapshot b) s) \<union> set (queue_of (to_snapshot b) (opposite s)))"
proof -
  have "levels_inv Bid (bids b) \<and> levels_inv Ask (asks b) \<longleftrightarrow>
      levels_inv s (ob_side b s) \<and> levels_inv (opposite s) (ob_side b (opposite s))"
    by (cases s) (auto simp: ob_side_def opposite_def)
  then show ?thesis
    unfolding ob_inv_def snap_orders_sides [symmetric]
    using map_of_indexed [of "snap_orders (to_snapshot b)" "oid_to_side_px b"]
      distinct_snap_orders [of "to_snapshot b" s] by blast
qed


section \<open>Levels in priority order\<close>

text \<open>Where a price sits among a side's levels, and what an update or a removal there gives.\<close>

lemma better_irrefl [simp]: "\<not> better s p p"
  by (cases s) (auto simp: better_def)

lemma better_asym: "better s p q \<Longrightarrow> \<not> better s q p"
  by (cases s) (auto simp: better_def)

lemma level_split:
  assumes "bt_sorted m"
  obtains a b where "in_priority s m = a @ (case map_of m p of None \<Rightarrow> [] | Some l \<Rightarrow> [(p, l)]) @ b"
    and "\<And>e. e \<in> set a \<Longrightarrow> better s (fst e) p" and "\<And>e. e \<in> set b \<Longrightarrow> better s p (fst e)"
    and "\<And>l. in_priority s (bt_insert p l m) = a @ (p, l) # b"
    and "in_priority s (bt_remove p m) = a @ b"
proof -
  have "\<exists>a b. m = a @ (case map_of m p of None \<Rightarrow> [] | Some l \<Rightarrow> [(p, l)]) @ b \<and>
      (\<forall>e \<in> set a. fst e < p) \<and> (\<forall>e \<in> set b. p < fst e) \<and>
      (\<forall>l. bt_insert p l m = a @ (p, l) # b) \<and> bt_remove p m = a @ b"
  proof (cases "map_of m p")
    case None
    obtain a b where "m = a @ b" "\<And>e. e \<in> set a \<Longrightarrow> fst e < p" "\<And>e. e \<in> set b \<Longrightarrow> p < fst e"
      "\<And>w. bt_insert p w m = a @ (p, w) # b" "bt_remove p m = m"
      by (rule bt_split_absent [OF assms None]) blast
    then show ?thesis unfolding None by (rule_tac x = a in exI, rule_tac x = b in exI) simp
  next
    case (Some l)
    obtain a b where "m = a @ (p, l) # b" "\<And>e. e \<in> set a \<Longrightarrow> fst e < p" "\<And>e. e \<in> set b \<Longrightarrow> p < fst e"
      "\<And>w. bt_insert p w m = a @ (p, w) # b" "bt_remove p m = a @ b"
      by (rule bt_split_present [OF assms Some]) blast
    then show ?thesis unfolding Some by (rule_tac x = a in exI, rule_tac x = b in exI) simp
  qed
  then obtain a b where ab: "m = a @ (case map_of m p of None \<Rightarrow> [] | Some l \<Rightarrow> [(p, l)]) @ b"
    "\<forall>e \<in> set a. fst e < p" "\<forall>e \<in> set b. p < fst e"
    "\<forall>l. bt_insert p l m = a @ (p, l) # b" "bt_remove p m = a @ b" by blast
  show thesis
  proof (cases s)
    case Ask
    with ab show thesis by (intro that [of a b]) (auto simp: in_priority_def better_def)
  next
    case Bid
    have "rev m = rev b @ (case map_of m p of None \<Rightarrow> [] | Some l \<Rightarrow> [(p, l)]) @ rev a"
      by (subst ab(1)) (auto split: option.splits)
    with Bid ab show thesis by (intro that [of "rev b" "rev a"]) (auto simp: in_priority_def better_def)
  qed
qed

lemma levels_inv_insert [inv_intros]:
  "levels_inv s m \<Longrightarrow> l \<noteq> [] \<Longrightarrow> level_ok s p l \<Longrightarrow> levels_inv s (bt_insert p l m)"
proof -
  assume m: "levels_inv s m" "l \<noteq> []" "level_ok s p l"
  then have "bt_sorted m" by (simp add: levels_inv_def)
  then obtain a b where "in_priority s m = a @ (case map_of m p of None \<Rightarrow> [] | Some l \<Rightarrow> [(p, l)]) @ b"
    and ins: "in_priority s (bt_insert p l m) = a @ (p, l) # b"
    by (rule level_split [of m s p]) blast
  from arg_cong [OF this(1), of set] have "set m \<supseteq> set a \<union> set b" by auto
  moreover from arg_cong [OF ins, of set] have "set (bt_insert p l m) = insert (p, l) (set a \<union> set b)" by auto
  ultimately show ?thesis using m by (auto simp: levels_inv_def)
qed

lemma levels_inv_remove [inv_intros]: "levels_inv s m \<Longrightarrow> levels_inv s (bt_remove p m)"
  by (auto simp: levels_inv_def bt_remove_def bt_sorted_filter)

lemma levels_inv_lookup:
  "levels_inv s m \<Longrightarrow> map_of m p = Some l \<Longrightarrow> l \<noteq> [] \<and> level_ok s p l"
  by (auto simp: levels_inv_def dest!: map_of_SomeD)

lemma level_ok_get: "levels_inv s m \<Longrightarrow> level_ok s p (bt_get_or kl_new m p)"
  using levels_inv_lookup [of s m p]
  by (cases "map_of m p") (auto simp: bt_get_or_def kl_new_def level_ok_def)

lemma levels_inv_orders:
  "levels_inv s m \<Longrightarrow> o1 \<in> set (flat m) \<Longrightarrow> io_side o1 = s \<and>
     (\<exists>l. map_of m (io_limit_px o1) = Some l \<and> (order_oid o1, o1) \<in> set l)"
proof -
  assume inv: "levels_inv s m" and "o1 \<in> set (flat m)"
  then obtain p l k where e: "(p, l) \<in> set m" "(k, o1) \<in> set l" by (fastforce simp: set_flat)
  with inv have "level_ok s p l" "distinct (map fst m)"
    by (auto simp: levels_inv_def bt_sorted_distinct)
  with e show ?thesis by (fastforce simp: level_ok_def)
qed

section \<open>Matching consumes the queue\<close>

definition keyed :: "inner_l4_order list \<Rightarrow> level" where
  "keyed os = map (\<lambda>m. (order_oid m, m)) os"

lemma keyed_simps [simp]:
  "keyed [] = []" "keyed (m # ms) = (order_oid m, m) # keyed ms" "map snd (keyed os) = os"
  "keyed os = [] \<longleftrightarrow> os = []" "level_ok s p (keyed os) \<longleftrightarrow> (\<forall>m \<in> set os. io_limit_px m = p \<and> io_side m = s)"
  by (auto simp: keyed_def comp_def level_ok_def)

lemma level_ok_keyed: "level_ok s p l \<Longrightarrow> l = keyed (map snd l)"
  by (induction l) (auto simp: level_ok_def)

lemma fill_eq: "fill t m = (resize t (qty (io_sz t) - qty (io_sz m)), resize m (qty (io_sz m) - qty (io_sz t)),
    min (io_sz t) (io_sz m))"
proof -
  obtain t' m' q where f: "fill t m = (t', m', q)" by (cases "fill t m")
  moreover from f have "q = min (io_sz t) (io_sz m)" by (simp add: fill_def Let_def)
  ultimately show ?thesis using fill_resize [OF f] by simp
qed

lemma sz_is_zero_resize:
  "sz_is_zero (Sz (of_nat (qty s - k))) \<longleftrightarrow> qty s \<le> k"
  by (simp add: book_simps del: of_nat_diff)

text \<open>The three outcomes of one fill: the taker, both, or the maker is used up.\<close>

lemma fill_outcomes:
  "(case if b \<le> a then (f1, l1) else (f0, l0) of (f, l) \<Rightarrow> if a \<le> b then (t, l, f) else g l f) =
    (if a < b then (t, l0, f0) else if a = (b :: nat) then (t, l1, f1) else g l1 f1)"
  by auto

lemma match_level_consume:
  assumes "consume (qty (io_sz t)) os = (n, os', f)"
  shows "match_level t (keyed os) fo = (resize t n, keyed os', fo @ f)"
  using assms
proof (induction os arbitrary: t fo n os' f)
  case Nil
  then show ?case by (subst match_level.simps) (auto simp: kl_head_value_def)
next
  case (Cons m ms)
  let ?t = "resize t (qty (io_sz t) - qty (io_sz m))"
  have step: "match_level t (keyed (m # ms)) fo =
      (if qty (io_sz t) < qty (io_sz m) then (?t, keyed (resize m (qty (io_sz m) - qty (io_sz t)) # ms), fo)
       else if qty (io_sz t) = qty (io_sz m) then (?t, keyed ms, fo @ [order_oid m])
       else match_level ?t (keyed ms) (fo @ [order_oid m]))"
    unfolding match_level.simps [of t "keyed (m # ms)"]
    by (simp only: kl_head_value_def fill_eq kl_write_head_def kl_remove_front_def keyed_simps Let_def
        list.case option.case prod.case fst_conv snd_conv resize_fields sz_is_zero_resize sum.case
        fill_outcomes)
  obtain n1 os1 f1 where c: "consume (qty (io_sz ?t)) ms = (n1, os1, f1)" by (metis prod_cases3)
  from Cons.IH [OF c, of "fo @ [order_oid m]"] Cons.prems c show ?case
    unfolding step by (auto simp: Let_def simp del: of_nat_diff split: if_splits)
qed

lemma consume_fst_le: "fst (consume n ms) \<le> n"
  by (simp add: consume_remaining)

lemma match_queue_level:
  assumes os: "os \<noteq> []" "\<And>m. m \<in> set os \<Longrightarrow> accepts (io_side t) (io_limit_px t) (io_limit_px m)"
    and c: "consume (qty (io_sz t)) os = (n, os', f)"
  shows "match_queue t (os @ q) =
    (if n = 0 then (0, os' @ q, f)
     else let (n2, q2, f2) = match_queue (resize t n) q in (n2, os' @ q2, f @ f2))"
proof -
  have "n \<le> qty (io_sz t)" using consume_fst_le [of "qty (io_sz t)" os] c by simp
  then have "unat (of_nat n :: u64) = n" by (simp add: unat_of_nat_small)
  moreover have "n \<noteq> 0 \<Longrightarrow> os' = []" using consume_all [of "qty (io_sz t)" os] c by simp
  ultimately show ?thesis
    using os c by (simp add: match_queue_def consume_append takeWhile_append2 dropWhile_append2
        Let_def split: prod.splits)
qed

lemma match_levels_queue:
  assumes "\<And>e. e \<in> set ls \<Longrightarrow> snd e \<noteq> [] \<and> level_ok s (fst e) (snd e)"
    and "match_levels t ls fo ks = (t', ls', fo', ks')"
    and "match_queue t (flat ls) = (n, q, f)"
  shows "t' = resize t n \<and> flat ls' = q \<and> fo' = fo @ f \<and> map fst ls' = map fst ls \<and>
    ks' = ks @ map fst (filter (\<lambda>e. snd e = []) ls') \<and> (\<forall>e \<in> set ls'. level_ok s (fst e) (snd e))"
  using assms
proof (induction ls arbitrary: t fo ks t' ls' fo' ks' n q f)
  case Nil
  then show ?case by (auto simp: match_queue_def)
next
  case (Cons e ls)
  obtain p l where e: "e = (p, l)" by (cases e)
  obtain os where l: "l = keyed os" using level_ok_keyed Cons.prems(1) [of e] e by auto
  with Cons.prems(1) [of e] e have os: "os \<noteq> []" "\<forall>m \<in> set os. io_limit_px m = p \<and> io_side m = s" by auto
  have rest: "\<And>e. e \<in> set ls \<Longrightarrow> snd e \<noteq> [] \<and> level_ok s (fst e) (snd e)" using Cons.prems(1) by simp
  show ?case
  proof (cases "accepts (io_side t) (io_limit_px t) p")
    case False
    moreover from False os have "takeWhile (\<lambda>m. accepts (io_side t) (io_limit_px t) (io_limit_px m)) (os @ flat ls) = []"
      "dropWhile (\<lambda>m. accepts (io_side t) (io_limit_px t) (io_limit_px m)) (os @ flat ls) = os @ flat ls"
      by (cases os; simp)+
    ultimately show ?thesis using Cons.prems os e l by (auto simp: match_queue_def filter_empty_conv)
  next
    case True
    obtain n1 os1 f1 where c: "consume (qty (io_sz t)) os = (n1, os1, f1)" by (metis prod_cases3)
    have "n1 \<le> qty (io_sz t)" using consume_fst_le [of "qty (io_sz t)" os] c by simp
    then have z: "unat (of_nat n1 :: u64) = n1" by (simp add: unat_of_nat_small)
    have ok1: "\<forall>m \<in> set os1. io_limit_px m = p \<and> io_side m = s"
      using consume_kept [of _ "qty (io_sz t)" os] c os by (metis fst_conv snd_conv resize_fields(2,3))
    have q: "match_queue t (os @ flat ls) =
        (if n1 = 0 then (0, os1 @ flat ls, f1)
         else let (n2, q2, f2) = match_queue (resize t n1) (flat ls) in (n2, os1 @ q2, f1 @ f2))"
      by (rule match_queue_level [OF os(1) _ c]) (use os True in simp)
    let ?ks = "if os1 = [] then ks @ [p] else ks"
    show ?thesis
    proof (cases "n1 = 0")
      case True': True
      have nil: "filter (\<lambda>e. snd e = []) ls = []" using rest by (auto simp: filter_empty_conv)
      from True True' show ?thesis using Cons.prems q e l c ok1 rest
        by (auto simp: match_level_consume [OF c] book_simps kl_is_empty_def z nil)
    next
      case False
      obtain t2 ls2 fo2 ks2 where r: "match_levels (resize t n1) ls (fo @ f1) ?ks = (t2, ls2, fo2, ks2)"
        by (metis prod_cases4)
      obtain n2 q2 f2 where mq: "match_queue (resize t n1) (flat ls) = (n2, q2, f2)" by (metis prod_cases3)
      note IH = Cons.IH [OF rest r mq]
      show ?thesis using Cons.prems q e l c ok1 IH False True r mq
        by (auto simp: match_level_consume [OF c] book_simps kl_is_empty_def z Let_def)
    qed
  qed
qed


lemma fold_bt_remove: "fold bt_remove ks m = filter (\<lambda>e. fst e \<notin> set ks) m"
  by (induction ks arbitrary: m) (auto simp: bt_remove_def intro!: filter_cong)

lemma fold_remove_empty:
  assumes "distinct (map fst m)"
  shows "fold bt_remove (map fst (filter (\<lambda>e. snd e = []) m)) m = filter (\<lambda>e. snd e \<noteq> []) m"
  unfolding fold_bt_remove
  by (rule filter_cong [OF refl]) (use assms in \<open>auto dest: eq_key_imp_eq_value\<close>)

lemma flat_filter_nonempty [simp]: "flat (filter (\<lambda>e. snd e \<noteq> []) m) = flat m"
  by (induction m) auto

lemma set_in_priority_keys: "distinct (map fst (in_priority s m)) = distinct (map fst m)"
  by (cases s) (simp_all add: in_priority_def rev_map [symmetric])

lemma match_order_queue:
  assumes inv: "levels_inv (opposite (io_side t)) m"
    and mq: "match_queue t (flat (in_priority (opposite (io_side t)) m)) = (n, q, f)"
  obtains m' where "match_order m t = (m', resize t n, f)"
    and "levels_inv (opposite (io_side t)) m'"
    and "flat (in_priority (opposite (io_side t)) m') = q"
proof -
  let ?s = "opposite (io_side t)"
  let ?ls = "in_priority ?s m"
  obtain t' ls' fo' ks' where r: "match_levels t ?ls [] [] = (t', ls', fo', ks')" by (metis prod_cases4)
  have "\<And>e. e \<in> set ?ls \<Longrightarrow> snd e \<noteq> [] \<and> level_ok ?s (fst e) (snd e)"
    using inv by (simp add: levels_inv_def)
  note ml = match_levels_queue [OF this r mq]
  let ?m1 = "in_priority ?s ls'"
  have keys: "map fst ?m1 = map fst m"
    using ml by (metis in_priority_simps(1,3))
  have d: "distinct (map fst ?m1)" using inv keys by (simp add: levels_inv_def bt_sorted_distinct)
  have iter: "(case io_side t of Ask \<Rightarrow> rev m | Bid \<Rightarrow> m) = ?ls"
    "(case io_side t of Ask \<Rightarrow> rev ls' | Bid \<Rightarrow> ls') = ?m1"
    by (cases "io_side t"; simp add: in_priority_def opposite_def)+
  have ks: "set ks' = set (map fst (filter (\<lambda>e. snd e = []) ?m1))" using ml by simp
  have "fold bt_remove ks' ?m1 = filter (\<lambda>e. snd e \<noteq> []) ?m1"
    using fold_remove_empty [OF d] unfolding fold_bt_remove ks .
  then have "match_order m t = (filter (\<lambda>e. snd e \<noteq> []) ?m1, resize t n, f)"
    using r ml by (simp add: match_order_def iter)
  moreover have "levels_inv ?s (filter (\<lambda>e. snd e \<noteq> []) ?m1)"
    using inv keys ml by (auto simp: levels_inv_def bt_sorted_filter)
  moreover have "flat (in_priority ?s (filter (\<lambda>e. snd e \<noteq> []) ?m1)) = q"
    using ml by simp
  ultimately show thesis by (rule that)
qed

section \<open>One level written back\<close>

definition put_level :: "px \<Rightarrow> level \<Rightarrow> levels \<Rightarrow> levels" where
  "put_level p l m = (if l = [] then bt_remove p (bt_insert p l m) else bt_insert p l m)"

lemma bt_remove_insert [simp]: "bt_remove p (bt_insert p l m) = bt_remove p m"
  by (induction m) (auto simp: bt_remove_def)

lemma put_level_split:
  assumes inv: "levels_inv s m"
  obtains a b where "flat (in_priority s m) = a @ map snd (bt_get_or kl_new m p) @ b"
    and "\<And>x. x \<in> set a \<Longrightarrow> better s (io_limit_px x) p" and "\<And>x. x \<in> set b \<Longrightarrow> better s p (io_limit_px x)"
    and "\<And>l. flat (in_priority s (put_level p l m)) = a @ map snd l @ b"
    and "\<And>l. level_ok s p l \<Longrightarrow> levels_inv s (put_level p l m)"
proof -
  have "bt_sorted m" using inv by (simp add: levels_inv_def)
  then obtain a b where m: "in_priority s m = a @ (case map_of m p of None \<Rightarrow> [] | Some l \<Rightarrow> [(p, l)]) @ b"
    and lo: "\<And>e. e \<in> set a \<Longrightarrow> better s (fst e) p" and hi: "\<And>e. e \<in> set b \<Longrightarrow> better s p (fst e)"
    and ins: "\<And>l. in_priority s (bt_insert p l m) = a @ (p, l) # b"
    and del: "in_priority s (bt_remove p m) = a @ b"
    by (rule level_split [of m s p]) blast
  have ab: "e \<in> set a \<union> set b \<Longrightarrow> e \<in> set m" for e
    using arg_cong [OF m, of set] by auto
  have px: "io_limit_px x = fst e" if "e \<in> set a \<union> set b" "x \<in> snd ` set (snd e)" for e x
    using inv ab [OF that(1)] that(2) by (auto simp: levels_inv_def level_ok_def)
  show thesis
  proof
    show "flat (in_priority s m) = flat a @ map snd (bt_get_or kl_new m p) @ flat b"
      unfolding m by (cases "map_of m p") (auto simp: bt_get_or_def kl_new_def)
    show "better s (io_limit_px x) p" if "x \<in> set (flat a)" for x
      using that px lo by (fastforce simp: set_flat)
    show "better s p (io_limit_px x)" if "x \<in> set (flat b)" for x
      using that px hi by (fastforce simp: set_flat)
    show "flat (in_priority s (put_level p l m)) = flat a @ map snd l @ flat b" for l
      by (simp add: put_level_def ins del)
    show "levels_inv s (put_level p l m)" if "level_ok s p l" for l
      using that inv by (simp add: put_level_def levels_inv_insert levels_inv_remove)
  qed
qed

lemma bt_insert_same: "bt_sorted m \<Longrightarrow> map_of m p = Some l \<Longrightarrow> bt_insert p l m = m"
  by (erule (1) bt_split_present) simp

lemma put_level_same: "levels_inv s m \<Longrightarrow> put_level p (bt_get_or kl_new m p) m = m"
proof (cases "map_of m p")
  case None
  assume "levels_inv s m"
  moreover have "bt_remove p m = m" if "bt_sorted m" using that None by (rule bt_split_absent) simp
  ultimately show ?thesis using None by (simp add: put_level_def bt_get_or_def kl_new_def levels_inv_def)
next
  case (Some l)
  assume "levels_inv s m"
  then show ?thesis using levels_inv_lookup [of s m p l] Some
    by (simp add: put_level_def bt_get_or_def bt_insert_same levels_inv_def)
qed

lemma takeWhile_dropWhile_split:
  assumes "\<And>x. x \<in> set xs \<Longrightarrow> P x" and "\<And>y. y \<in> set ys \<Longrightarrow> \<not> P y"
  shows "takeWhile P (xs @ ys) = xs" "dropWhile P (xs @ ys) = ys"
  using assms by (cases ys; simp add: takeWhile_append2 dropWhile_append2)+

lemma level_ok_keys: "level_ok s p l \<Longrightarrow> kl_keys l = order_oid ` set (map snd l)"
  by (force simp: level_ok_def)

lemma set_flat_in_priority: "set (flat (in_priority s m)) = set (flat m)"
  by (simp add: set_flat)

section \<open>Resting an order\<close>

lemma add_to_book_back:
  assumes inv: "levels_inv (io_side o1) m" and fresh: "order_oid o1 \<notin> order_oid ` set (flat m)"
  obtains m' where "add_order_to_book m o1 None = (True, m')" and "levels_inv (io_side o1) m'"
    and "flat (in_priority (io_side o1) m') = queue_back (io_side o1) o1 (flat (in_priority (io_side o1) m))"
proof -
  let ?s = "io_side o1" and ?p = "io_limit_px o1"
  let ?l = "bt_get_or kl_new m ?p"
  obtain a b where ab: "flat (in_priority ?s m) = a @ map snd ?l @ b"
    "\<And>x. x \<in> set a \<Longrightarrow> better ?s (io_limit_px x) ?p" "\<And>x. x \<in> set b \<Longrightarrow> better ?s ?p (io_limit_px x)"
    "\<And>l. flat (in_priority ?s (put_level ?p l m)) = a @ map snd l @ b"
    "\<And>l. level_ok ?s ?p l \<Longrightarrow> levels_inv ?s (put_level ?p l m)"
    by (rule put_level_split [OF inv, of ?p]) blast
  have ok: "level_ok ?s ?p ?l" by (rule level_ok_get [OF inv])
  have "order_oid o1 \<notin> kl_keys ?l"
    using fresh arg_cong [OF ab(1), of set] unfolding level_ok_keys [OF ok] set_flat_in_priority
    by auto
  then have push: "kl_push_back ?l (order_oid o1) o1 = (True, ?l @ [(order_oid o1, o1)])"
    by (simp add: kl_push_back_def)
  let ?m' = "put_level ?p (?l @ [(order_oid o1, o1)]) m"
  have "add_order_to_book m o1 None = (True, ?m')"
    by (simp add: add_order_to_book_def push put_level_def Let_def)
  moreover have "levels_inv ?s ?m'" using ok by (intro ab(5)) (auto simp: level_ok_def)
  moreover have "flat (in_priority ?s ?m') = queue_back ?s o1 (flat (in_priority ?s m))"
  proof -
    have "\<not> better ?s ?p (io_limit_px x)" if "x \<in> set (a @ map snd ?l)" for x
      using that ab(2) ok better_asym by (auto simp: level_ok_def)
    with ab(3) have
      "takeWhile (\<lambda>x. \<not> better ?s ?p (io_limit_px x)) ((a @ map snd ?l) @ b) = a @ map snd ?l"
      "dropWhile (\<lambda>x. \<not> better ?s ?p (io_limit_px x)) ((a @ map snd ?l) @ b) = b"
      using takeWhile_dropWhile_split [of "a @ map snd ?l" "\<lambda>x. \<not> better ?s ?p (io_limit_px x)" b]
      by blast+
    then show ?thesis unfolding ab(1,4) queue_back_def by simp
  qed
  ultimately show thesis by (rule that)
qed


lemma add_to_book_before:
  assumes inv: "levels_inv (io_side o1) m" and fresh: "order_oid o1 \<notin> order_oid ` set (flat m)"
    and dist: "distinct (map order_oid (flat (in_priority (io_side o1) m)))"
  obtains m' where "add_order_to_book m o1 (Some k) =
      (\<exists>x \<in> set (flat m). order_oid x = k \<and> io_limit_px x = io_limit_px o1, m')"
    and "levels_inv (io_side o1) m'"
    and "flat (in_priority (io_side o1) m') =
      (if \<exists>x \<in> set (flat m). order_oid x = k \<and> io_limit_px x = io_limit_px o1
       then queue_before k o1 (flat (in_priority (io_side o1) m)) else flat (in_priority (io_side o1) m))"
proof -
  let ?s = "io_side o1" and ?p = "io_limit_px o1"
  let ?l = "bt_get_or kl_new m ?p"
  obtain a b where ab: "flat (in_priority ?s m) = a @ map snd ?l @ b"
    "\<And>x. x \<in> set a \<Longrightarrow> better ?s (io_limit_px x) ?p" "\<And>x. x \<in> set b \<Longrightarrow> better ?s ?p (io_limit_px x)"
    "\<And>l. flat (in_priority ?s (put_level ?p l m)) = a @ map snd l @ b"
    "\<And>l. level_ok ?s ?p l \<Longrightarrow> levels_inv ?s (put_level ?p l m)"
    by (rule put_level_split [OF inv, of ?p]) blast
  have ok: "level_ok ?s ?p ?l" by (rule level_ok_get [OF inv])
  note set_eq = arg_cong [OF ab(1), of set, unfolded set_flat_in_priority]
  have new: "order_oid o1 \<notin> kl_keys ?l"
    using fresh set_eq unfolding level_ok_keys [OF ok] by auto
  have found: "(\<exists>x \<in> set (flat m). order_oid x = k \<and> io_limit_px x = ?p) \<longleftrightarrow> k \<in> kl_keys ?l"
  proof -
    have "io_limit_px x \<noteq> ?p" if "x \<in> set a \<union> set b" for x
      using that ab(2,3) better_irrefl by (metis Un_iff)
    then show ?thesis unfolding level_ok_keys [OF ok] set_eq
      using ok by (auto simp: level_ok_def image_iff)
  qed
  have book: "add_order_to_book m o1 (Some k) =
      (k \<in> kl_keys ?l, put_level ?p (if k \<in> kl_keys ?l then kl_place k (order_oid o1, o1) ?l else ?l) m)"
    using new by (simp add: add_order_to_book_def kl_insert_before_def put_level_def kl_is_empty_def Let_def)
  show thesis
  proof (cases "k \<in> kl_keys ?l")
    case False
    with book inv show thesis by (intro that [of m]) (simp_all add: found put_level_same)
  next
    case True
    have "distinct (map fst ?l)"
    proof -
      have "map fst ?l = map order_oid (map snd ?l)"
        using arg_cong [OF level_ok_keyed [OF ok], of "map fst"] by (simp add: keyed_def comp_def)
      moreover have "distinct (map order_oid (map snd ?l))" using dist unfolding ab(1) by simp
      ultimately show ?thesis by argo
    qed
    from kl_split [OF this True] obtain u v w where l: "?l = u @ (k, v) # w" and u: "k \<notin> kl_keys u" by metis
    then have place: "kl_place k (order_oid o1, o1) ?l = u @ (order_oid o1, o1) # (k, v) # w"
      by (simp add: kl_place_append)
    have k: "order_oid v = k" and oku: "level_ok ?s ?p u" using ok unfolding l by (auto simp: level_ok_def)
    have q: "flat (in_priority ?s m) = (a @ map snd u) @ v # map snd w @ b" by (simp add: ab(1) l)
    have "\<forall>x \<in> set (a @ map snd u). order_oid x \<noteq> k"
      using dist unfolding q by (auto simp: k)
    from queue_before_append [OF this k]
    have "queue_before k o1 (flat (in_priority ?s m)) = a @ map snd (kl_place k (order_oid o1, o1) ?l) @ b"
      unfolding q place by simp
    moreover have "level_ok ?s ?p (kl_place k (order_oid o1, o1) ?l)"
      unfolding place using ok unfolding l by (auto simp: level_ok_def)
    ultimately show thesis using True book
      by (intro that [of "put_level ?p (kl_place k (order_oid o1, o1) ?l) m"])
        (simp_all add: found ab(4,5))
  qed
qed

section \<open>The index\<close>

lemma indexed_None: "indexed f os \<Longrightarrow> f k = None \<longleftrightarrow> k \<notin> order_oid ` os"
proof -
  assume "indexed f os"
  then have iff: "f k = Some v \<longleftrightarrow> (k, v) \<in> index_entry ` os" for v unfolding indexed_def by blast
  have "k \<in> order_oid ` os \<longleftrightarrow> (\<exists>v. (k, v) \<in> index_entry ` os)" by (auto simp: index_entry_def)
  then show ?thesis using iff by (metis option.exhaust option.distinct(1))
qed

lemma indexed_insert:
  assumes "indexed f os" and "order_oid o1 \<notin> order_oid ` os"
  shows "indexed (f(order_oid o1 \<mapsto> (io_side o1, io_limit_px o1))) (insert o1 os)"
proof -
  have "(order_oid o1, v) \<notin> index_entry ` os" for v using assms(2) by (auto simp: index_entry_def)
  then show ?thesis using assms(1) by (auto simp: indexed_def index_entry_def)
qed

lemma indexed_delete:
  assumes "indexed f os" and "index_entry ` os = index_entry ` gone \<union> index_entry ` kept"
    and "order_oid ` gone \<inter> order_oid ` kept = {}"
  shows "indexed (\<lambda>k. if k \<in> order_oid ` gone then None else f k) kept"
proof -
  have key: "(k, v) \<in> index_entry ` xs \<Longrightarrow> k \<in> order_oid ` xs" for k v xs
    by (auto simp: index_entry_def)
  then have "(k, v) \<in> index_entry ` kept \<Longrightarrow> k \<notin> order_oid ` gone" for k v
    using assms(3) by blast
  with key show ?thesis using assms(1,2) unfolding indexed_def
    by (metis (no_types, lifting) Un_iff option.distinct(1))
qed

lemma indexed_cong: "index_entry ` os = index_entry ` os' \<Longrightarrow> indexed f os = indexed f os'"
  by (simp add: indexed_def)

lemma index_entry_resize [simp]: "index_entry (resize m n) = index_entry m"
  by (simp add: index_entry_def)

lemma consume_entries:
  "\<exists>gone. snd (snd (consume n ms)) = map order_oid gone \<and>
     map index_entry ms = map index_entry (gone @ fst (snd (consume n ms)))"
proof (induction n ms rule: consume.induct)
  case (2 n m ms)
  consider "n < qty (io_sz m)" | "n = qty (io_sz m)" | "qty (io_sz m) < n" by linarith
  then show ?case
  proof cases
    case 1
    then show ?thesis by (intro exI [of _ "[]"]) simp
  next
    case 2
    then show ?thesis by (intro exI [of _ "[m]"]) simp
  next
    case 3
    with "2.IH" [OF refl] obtain gone where
      "snd (snd (consume (n - qty (io_sz m)) ms)) = map order_oid gone"
      "map index_entry ms = map index_entry (gone @ fst (snd (consume (n - qty (io_sz m)) ms)))" by auto
    with 3 show ?thesis
      by (intro exI [of _ "m # gone"]) (simp add: Let_def case_prod_beta)
  qed
qed simp

lemma match_queue_entries:
  assumes "match_queue t q = (n, q', f)"
  obtains gone where "f = map order_oid gone" and "map index_entry q = map index_entry (gone @ q')"
proof -
  let ?hit = "\<lambda>m. accepts (io_side t) (io_limit_px t) (io_limit_px m)"
  from consume_entries [of "qty (io_sz t)" "takeWhile ?hit q"] obtain gone where
    g: "snd (snd (consume (qty (io_sz t)) (takeWhile ?hit q))) = map order_oid gone"
      "map index_entry (takeWhile ?hit q) = map index_entry (gone @ fst (snd (consume (qty (io_sz t)) (takeWhile ?hit q))))"
    by blast
  have "map index_entry q = map index_entry (takeWhile ?hit q) @ map index_entry (dropWhile ?hit q)"
    by (metis map_append takeWhile_dropWhile_id)
  with g assms show thesis
    by (intro that [of gone]) (auto simp: match_queue_def Let_def case_prod_beta)
qed

lemma match_queue_le: "match_queue t q = (n, q', f) \<Longrightarrow> n \<le> qty (io_sz t)"
  using consume_fst_le [of "qty (io_sz t)"] by (auto simp: match_queue_def Let_def case_prod_beta)

section \<open>Every operation refines its specification\<close>

lemma distinct_entries: "map index_entry q = map index_entry q' \<Longrightarrow> map order_oid q = map order_oid q'"
  by (metis fst_index_entry(2) map_map)

text \<open>After matching, before the order rests.\<close>

lemma after_matching:
  assumes inv: "ob_inv b" and mq: "match_queue o1 (queue_of (to_snapshot b) (opposite (io_side o1))) = (n, q, f)"
  obtains m' b2 where "match_order (ob_side b (opposite (io_side o1))) o1 = (m', resize o1 n, f)"
    and "b2 = (ob_set_side b (opposite (io_side o1)) m')
      \<lparr>oid_to_side_px := \<lambda>k. if k \<in> set f then None else oid_to_side_px b k\<rparr>"
    and "ob_inv b2" and "to_snapshot b2 = set_queue (to_snapshot b) (opposite (io_side o1)) q"
    and "ob_side b2 (io_side o1) = ob_side b (io_side o1)"
proof -
  let ?s = "io_side o1" and ?o = "opposite (io_side o1)"
  let ?qs = "queue_of (to_snapshot b) ?s" and ?qo = "queue_of (to_snapshot b) ?o"
  have parts: "levels_inv ?s (ob_side b ?s)" "levels_inv ?o (ob_side b ?o)"
    "distinct (map order_oid ?qs)" "distinct (map order_oid ?qo)"
    "order_oid ` set ?qs \<inter> order_oid ` set ?qo = {}" "indexed (oid_to_side_px b) (set ?qs \<union> set ?qo)"
    using inv [unfolded ob_inv_iff [of b ?s]] by auto
  from match_order_queue [OF parts(2) mq [unfolded queue_of_to_snapshot]] obtain m' where
    m: "match_order (ob_side b ?o) o1 = (m', resize o1 n, f)" "levels_inv ?o m'" "flat (in_priority ?o m') = q" .
  from match_queue_entries [OF mq] obtain gone where
    g: "f = map order_oid gone" "map index_entry ?qo = map index_entry (gone @ q)" .
  define b2 where "b2 = (ob_set_side b ?o m')\<lparr>oid_to_side_px := \<lambda>k. if k \<in> set f then None else oid_to_side_px b k\<rparr>"
  have snap: "to_snapshot b2 = set_queue (to_snapshot b) ?o q" by (simp add: b2_def m)
  have oids: "map order_oid ?qo = map order_oid gone @ map order_oid q"
    using distinct_entries [OF g(2)] by simp
  have img: "order_oid ` set ?qo = order_oid ` set gone \<union> order_oid ` set q"
    using arg_cong [OF oids, of set] by (simp only: set_map set_append)
  have d: "distinct (map order_oid q)" "order_oid ` set gone \<inter> order_oid ` set q = {}"
    "order_oid ` set ?qs \<inter> order_oid ` set q = {}" "order_oid ` set gone \<inter> order_oid ` set ?qs = {}"
    using parts(4,5) unfolding img oids by auto
  have "indexed (\<lambda>k. if k \<in> order_oid ` set gone then None else oid_to_side_px b k) (set ?qs \<union> set q)"
  proof (rule indexed_delete [OF parts(6)])
    show "index_entry ` (set ?qs \<union> set ?qo) = index_entry ` set gone \<union> index_entry ` (set ?qs \<union> set q)"
      using arg_cong [OF g(2), of set] by (auto simp del: queue_of_to_snapshot)
    show "order_oid ` set gone \<inter> order_oid ` (set ?qs \<union> set q) = {}" using d by blast
  qed
  then have "ob_inv b2"
    unfolding ob_inv_iff [of b2 ?s] snap using parts(1,3) d m(2) g(1)
    by (simp add: b2_def del: queue_of_to_snapshot)
  with m(1) snap show thesis by (intro that [of m' b2]) (simp_all add: b2_def)
qed


lemma resting_inv:
  assumes inv: "ob_inv b" and fresh: "order_oid o1 \<notin> order_oid ` set (snap_orders (to_snapshot b))"
    and m': "levels_inv (io_side o1) m'"
    and q: "flat (in_priority (io_side o1) m') = xs @ o1 # ys" "queue_of (to_snapshot b) (io_side o1) = xs @ ys"
  shows "ob_inv ((ob_set_side b (io_side o1) m')
    \<lparr>oid_to_side_px := (oid_to_side_px b)(order_oid o1 \<mapsto> (io_side o1, io_limit_px o1))\<rparr>)"
proof -
  let ?s = "io_side o1" and ?o = "opposite (io_side o1)"
  note parts = inv [unfolded ob_inv_iff [of b ?s]]
  have new: "order_oid o1 \<notin> order_oid ` (set (xs @ ys) \<union> set (queue_of (to_snapshot b) ?o))"
    using fresh unfolding snap_orders_sides [of _ ?s] q(2) .
  have "indexed ((oid_to_side_px b)(order_oid o1 \<mapsto> (?s, io_limit_px o1)))
      (insert o1 (set (xs @ ys) \<union> set (queue_of (to_snapshot b) ?o)))"
    using parts unfolding q(2) by (intro indexed_insert [OF _ new]) blast
  then show ?thesis
    unfolding ob_inv_iff [of _ ?s] using parts new m' unfolding q(2)
    by (auto simp: q(1) simp del: queue_of_to_snapshot)
qed

lemma add_order_before_refines:
  assumes inv: "ob_inv b" and fresh: "order_oid o1 \<notin> order_oid ` set (snap_orders (to_snapshot b))"
  shows "ob_inv (snd (add_order_before b o1 insert_before)) \<and>
    map_prod id to_snapshot (add_order_before b o1 insert_before) = spec_add (to_snapshot b) o1 insert_before"
proof -
  let ?s = "io_side o1" and ?o = "opposite (io_side o1)"
  obtain n q f where mq: "match_queue o1 (queue_of (to_snapshot b) ?o) = (n, q, f)" by (metis prod_cases3)
  from after_matching [OF inv mq] obtain m' b2 where
    mo: "match_order (ob_side b ?o) o1 = (m', resize o1 n, f)"
    and b2: "b2 = (ob_set_side b ?o m')\<lparr>oid_to_side_px := \<lambda>k. if k \<in> set f then None else oid_to_side_px b k\<rparr>"
    and inv2: "ob_inv b2" and snap: "to_snapshot b2 = set_queue (to_snapshot b) ?o q"
    and side: "ob_side b2 ?s = ob_side b ?s" .
  from match_queue_entries [OF mq] obtain gone where "map index_entry (queue_of (to_snapshot b) ?o) = map index_entry (gone @ q)" .
  from arg_cong [OF distinct_entries [OF this], of set]
  have "order_oid ` set (queue_of (to_snapshot b) ?o) \<supseteq> order_oid ` set q" by (auto simp del: queue_of_to_snapshot)
  with fresh have fresh2: "order_oid (resize o1 n) \<notin> order_oid ` set (snap_orders (to_snapshot b2))"
    unfolding snap snap_orders_sides [of _ ?s] by (auto simp del: queue_of_to_snapshot)
  have n: "sz_is_positive (io_sz (resize o1 n)) \<longleftrightarrow> n \<noteq> 0"
    using match_queue_le [OF mq] by (simp add: book_simps unat_of_nat_small)
  show ?thesis
  proof (cases "n = 0")
    case True
    with n have "add_order_before b o1 insert_before = (True, b2)"
      by (simp add: add_order_before_def mo b2 Let_def cong: if_cong)
    with True inv2 mq snap show ?thesis by (simp add: spec_add_def del: queue_of_to_snapshot)
  next
    case False
    let ?o2 = "resize o1 n"
    let ?q = "queue_of (to_snapshot b2) ?s"
    have lv: "levels_inv (io_side ?o2) (ob_side b2 ?s)" "distinct (map order_oid (flat (in_priority (io_side ?o2) (ob_side b2 ?s))))"
      using inv2 [unfolded ob_inv_iff [of b2 ?s]] by auto
    have fr: "order_oid ?o2 \<notin> order_oid ` set (flat (ob_side b2 ?s))"
      using fresh2 unfolding snap_orders_sides [of _ ?s] by (auto simp: set_flat_in_priority)
    have add: "add_order_before b o1 insert_before =
        (case add_order_to_book (ob_side b2 ?s) ?o2 insert_before of (ok, r) \<Rightarrow>
           if \<not> ok then (False, ob_set_side b2 ?s r)
           else (True, (ob_set_side b2 ?s r)\<lparr>oid_to_side_px := (oid_to_side_px b2)(order_oid ?o2 \<mapsto> (io_side ?o2, io_limit_px ?o2))\<rparr>))"
      using False n by (simp add: add_order_before_def mo b2 Let_def cong: if_cong)
    have spec: "spec_add (to_snapshot b) o1 insert_before =
        (case insert_before of
           None \<Rightarrow> (True, set_queue (to_snapshot b2) ?s (queue_back ?s ?o2 ?q))
         | Some k \<Rightarrow>
             if \<exists>m \<in> set (flat (ob_side b2 ?s)). order_oid m = k \<and> io_limit_px m = io_limit_px ?o2
             then (True, set_queue (to_snapshot b2) ?s (queue_before k ?o2 ?q))
             else (False, to_snapshot b2))"
    proof -
      have "set (flat (ob_side b2 ?s)) = set ?q" by (simp add: set_flat_in_priority)
      then show ?thesis unfolding spec_add_def Let_def mq prod.case snap [symmetric]
        using False by (simp del: queue_of_to_snapshot cong: option.case_cong if_cong)
    qed
    have rests: "ob_inv ((ob_set_side b2 (io_side ?o2) r)
          \<lparr>oid_to_side_px := (oid_to_side_px b2)(order_oid ?o2 \<mapsto> (io_side ?o2, io_limit_px ?o2))\<rparr>)"
      if "levels_inv ?s r" "flat (in_priority ?s r) = takeWhile P ?q @ ?o2 # dropWhile P ?q" for r P
      using that resting_inv [OF inv2 fresh2, of r "takeWhile P ?q" "dropWhile P ?q"]
      by (simp del: queue_of_to_snapshot)
    show ?thesis
    proof (cases insert_before)
      case None
      from add_to_book_back [OF lv(1) fr] obtain r where
        r: "add_order_to_book (ob_side b2 ?s) ?o2 None = (True, r)" "levels_inv ?s r"
          "flat (in_priority ?s r) = queue_back ?s ?o2 ?q" by auto
      from r None rests [OF r(2) r(3) [unfolded queue_back_def Let_def]]
      show ?thesis unfolding add spec by simp
    next
      case (Some k)
      let ?hit = "\<exists>x \<in> set (flat (ob_side b2 ?s)). order_oid x = k \<and> io_limit_px x = io_limit_px o1"
      from add_to_book_before [OF lv(1) fr lv(2), of k] obtain r where
        r: "add_order_to_book (ob_side b2 ?s) ?o2 (Some k) = (?hit, r)" "levels_inv ?s r"
          "flat (in_priority ?s r) = (if ?hit then queue_before k ?o2 ?q else ?q)"
        unfolding resize_fields queue_of_to_snapshot by blast
      show ?thesis
      proof (cases ?hit)
        case True
        with r(3) have "flat (in_priority ?s r) = queue_before k ?o2 ?q" by simp
        from r True Some rests [OF r(2) this [unfolded queue_before_def]] this
        show ?thesis unfolding add spec by simp
      next
        case False
        with r(3) have "flat (in_priority ?s r) = ?q" by simp
        then have "to_snapshot (ob_set_side b2 ?s r) = to_snapshot b2"
          by (auto intro!: snapshot_eqI)
        moreover from this have "ob_inv (ob_set_side b2 ?s r)"
          using inv2 r(2) unfolding ob_inv_iff [of _ ?s] by simp
        ultimately show ?thesis unfolding add spec using r False Some by simp
      qed
    qed
  qed
qed

lemma located:
  assumes inv: "ob_inv b" and idx: "oid_to_side_px b k = Some (s, p)"
  obtains m l a c where "map_of (ob_side b s) p = Some l" and "(k, m) \<in> set l" and "level_ok s p l"
    and "distinct (map fst l)"
    and "queue_of (to_snapshot b) s = a @ map snd l @ c"
    and "k \<notin> order_oid ` set (a @ c @ queue_of (to_snapshot b) (opposite s))"
    and "\<And>l. flat (in_priority s (put_level p l (ob_side b s))) = a @ map snd l @ c"
    and "\<And>l. level_ok s p l \<Longrightarrow> levels_inv s (put_level p l (ob_side b s))"
proof -
  let ?qs = "queue_of (to_snapshot b) s" and ?qo = "queue_of (to_snapshot b) (opposite s)"
  have lv: "levels_inv s (ob_side b s)" "levels_inv (opposite s) (ob_side b (opposite s))"
    and d: "distinct (map order_oid ?qs)" "order_oid ` set ?qs \<inter> order_oid ` set ?qo = {}"
    and ix: "indexed (oid_to_side_px b) (set ?qs \<union> set ?qo)"
    using inv [unfolded ob_inv_iff [of b s]] by blast+
  have "(k, s, p) \<in> index_entry ` (set ?qs \<union> set ?qo)" using ix idx unfolding indexed_def by blast
  then obtain m where m: "m \<in> set ?qs \<union> set ?qo" "order_oid m = k" "io_side m = s" "io_limit_px m = p"
    by (auto simp: index_entry_def)
  have "m \<notin> set ?qo"
    using levels_inv_orders [OF lv(2), of m] m(3) by (auto simp: set_flat_in_priority)
  with m(1) have mq: "m \<in> set ?qs" by simp
  with levels_inv_orders [OF lv(1), of m] m obtain l where l: "map_of (ob_side b s) p = Some l" "(k, m) \<in> set l"
    by (auto simp: set_flat_in_priority)
  have ok: "level_ok s p l" using levels_inv_lookup [OF lv(1) l(1)] by simp
  obtain a c where ac: "flat (in_priority s (ob_side b s)) = a @ map snd (bt_get_or kl_new (ob_side b s) p) @ c"
    "\<And>l. flat (in_priority s (put_level p l (ob_side b s))) = a @ map snd l @ c"
    "\<And>l. level_ok s p l \<Longrightarrow> levels_inv s (put_level p l (ob_side b s))"
    by (rule put_level_split [OF lv(1), of p]) blast
  have q: "?qs = a @ map snd l @ c" using ac(1) l(1) by (simp add: bt_get_or_def)
  have "map fst l = map order_oid (map snd l)"
    using arg_cong [OF level_ok_keyed [OF ok], of "map fst"] by (simp add: keyed_def comp_def)
  moreover have "distinct (map order_oid (map snd l))" using d(1) unfolding q by simp
  ultimately have dl: "distinct (map fst l)" by argo
  have "m \<in> set (map snd l)" using l(2) by force
  then have "k \<in> order_oid ` set (map snd l)" using m(2) by blast
  then have "k \<notin> order_oid ` set (a @ c @ ?qo)" using d unfolding q by auto
  with l ok dl q ac show thesis by (intro that [of l m a c])
qed

lemma filter_absent: "k \<notin> order_oid ` set q \<Longrightarrow> filter (\<lambda>m. order_oid m \<noteq> k) q = q"
  by (auto simp: filter_id_conv)

lemma update_absent: "k \<notin> order_oid ` set q \<Longrightarrow> map (\<lambda>m. if order_oid m = k then g m else m) q = q"
  by (auto intro!: map_idI)

lemma map_queues_sides: "queue_of (map_queues f q) s = f (queue_of q s)"
  by (cases s) (simp_all add: map_queues_def queue_of_def)

lemma ob_set_side_index [simp]:
  "ob_set_side (b\<lparr>oid_to_side_px := f\<rparr>) s m = (ob_set_side b s m)\<lparr>oid_to_side_px := f\<rparr>"
  by (cases s) (simp_all add: ob_set_side_def)

lemma side_or_opposite: "t = s \<or> t = opposite s"
  by (cases s; cases t; simp add: opposite_def)

text \<open>Rewriting one level acts on the queues as the function that rewrites the level's orders.\<close>

lemma rewrite_level:
  assumes "queue_of (to_snapshot b) s = a @ map snd l @ c"
    and "flat (in_priority s (put_level p l' (ob_side b s))) = a @ map snd l' @ c"
    and "map snd l' = g (map snd l)" and "\<And>x y. g (x @ y) = g x @ g y"
    and "g a = a" and "g c = c" and "g (queue_of (to_snapshot b) (opposite s)) = queue_of (to_snapshot b) (opposite s)"
  shows "to_snapshot (ob_set_side b s (put_level p l' (ob_side b s))) = map_queues g (to_snapshot b)"
proof (rule snapshot_eqI)
  fix t
  from side_or_opposite [of t s] assms
  show "queue_of (to_snapshot (ob_set_side b s (put_level p l' (ob_side b s)))) t = queue_of (map_queues g (to_snapshot b)) t"
    unfolding map_queues_sides by (auto simp del: queue_of_to_snapshot)
qed

lemma cancel_inv:
  assumes inv: "ob_inv b" and idx: "oid_to_side_px b k = Some (s, p)" and m': "levels_inv s m'"
    and snap: "to_snapshot (ob_set_side b s m') = map_queues (filter (\<lambda>m. order_oid m \<noteq> k)) (to_snapshot b)"
  shows "ob_inv ((ob_set_side b s m')\<lparr>oid_to_side_px := (oid_to_side_px b)(k := None)\<rparr>)"
proof -
  let ?b = "(ob_set_side b s m')\<lparr>oid_to_side_px := (oid_to_side_px b)(k := None)\<rparr>"
  let ?qs = "queue_of (to_snapshot b) s" and ?qo = "queue_of (to_snapshot b) (opposite s)"
  note parts = inv [unfolded ob_inv_iff [of b s]]
  have "indexed (\<lambda>j. if j \<in> order_oid ` {m \<in> set ?qs \<union> set ?qo. order_oid m = k} then None else oid_to_side_px b j)
      {m \<in> set ?qs \<union> set ?qo. order_oid m \<noteq> k}"
    by (rule indexed_delete [where os = "set ?qs \<union> set ?qo"]) (use parts in \<open>auto simp del: queue_of_to_snapshot\<close>)
  moreover have "(\<lambda>j. if j \<in> order_oid ` {m \<in> set ?qs \<union> set ?qo. order_oid m = k} then None else oid_to_side_px b j)
      = (oid_to_side_px b)(k := None)"
    using parts indexed_None [of "oid_to_side_px b" _ k] idx by (auto simp: fun_eq_iff simp del: queue_of_to_snapshot)
  moreover have "{m \<in> set ?qs \<union> set ?qo. order_oid m \<noteq> k} =
      set (filter (\<lambda>m. order_oid m \<noteq> k) ?qs) \<union> set (filter (\<lambda>m. order_oid m \<noteq> k) ?qo)" by auto
  moreover have "to_snapshot ?b = map_queues (filter (\<lambda>m. order_oid m \<noteq> k)) (to_snapshot b)" using snap by simp
  ultimately show ?thesis
    unfolding ob_inv_iff [of ?b s] using parts m'
    by (auto simp: map_queues_sides distinct_map_filter simp del: queue_of_to_snapshot)
qed

lemma absent_order:
  assumes "ob_inv b" and "oid_to_side_px b k = None"
  shows "k \<notin> order_oid ` set (snap_orders (to_snapshot b))"
  using assms(1) [unfolded ob_inv_iff [of b Ask]] assms(2) indexed_None
  unfolding snap_orders_sides [of _ Ask] by blast

lemma cancel_order_refines:
  assumes inv: "ob_inv b"
  shows "ob_inv (snd (cancel_order b k)) \<and>
    map_prod id to_snapshot (cancel_order b k) = spec_cancel (to_snapshot b) k"
proof (cases "oid_to_side_px b k")
  case None
  from absent_order [OF inv None] have
    "map_queues (filter (\<lambda>m. order_oid m \<noteq> k)) (to_snapshot b) = to_snapshot b"
    by (cases "to_snapshot b") (auto simp: map_queues_def filter_absent snap_orders_def image_Un)
  with absent_order [OF inv None] show ?thesis using None inv by (simp add: cancel_order_def spec_cancel_def)
next
  case (Some sp)
  then obtain s p where idx: "oid_to_side_px b k = Some (s, p)" by (cases sp) simp
  obtain m l a c where
    l: "map_of (ob_side b s) p = Some l" "(k, m) \<in> set l" "level_ok s p l"
    and q: "queue_of (to_snapshot b) s = a @ map snd l @ c"
      "k \<notin> order_oid ` set (a @ c @ queue_of (to_snapshot b) (opposite s))"
    and put: "\<And>l. flat (in_priority s (put_level p l (ob_side b s))) = a @ map snd l @ c"
      "\<And>l. level_ok s p l \<Longrightarrow> levels_inv s (put_level p l (ob_side b s))"
    by (rule located [OF inv idx]) blast
  let ?l = "filter (\<lambda>x. fst x \<noteq> k) l"
  let ?m = "put_level p ?l (ob_side b s)"
  let ?b = "(ob_set_side b s ?m)\<lparr>oid_to_side_px := (oid_to_side_px b)(k := None)\<rparr>"
  have "kl_remove_node l k = (True, ?l)" using l(2) by (force simp: kl_remove_node_def)
  then have c: "cancel_order b k = (True, ?b)"
    by (simp add: cancel_order_def idx l(1) put_level_def kl_is_empty_def Let_def)
  have "map snd ?l = filter (\<lambda>m. order_oid m \<noteq> k) (map snd l)"
    using l(3) by (induction l) (auto simp: level_ok_def)
  then have snap: "to_snapshot (ob_set_side b s ?m) = map_queues (filter (\<lambda>m. order_oid m \<noteq> k)) (to_snapshot b)"
    by (rule rewrite_level [OF q(1) put(1)]) (use q(2) in \<open>simp_all add: filter_absent image_Un del: queue_of_to_snapshot\<close>)
  have "k \<in> order_oid ` set (snap_orders (to_snapshot b))"
    unfolding snap_orders_sides [of _ s] q(1) using l(2,3) by (force simp: level_ok_def)
  moreover have "levels_inv s ?m" using l(3) by (intro put) (auto simp: level_ok_def)
  ultimately show ?thesis using c snap cancel_inv [OF inv idx _ snap] by (simp add: spec_cancel_def)
qed

lemma modify_inv:
  assumes inv: "ob_inv b" and m': "levels_inv s m'"
    and snap: "to_snapshot (ob_set_side b s m') =
      map_queues (map (\<lambda>m. if order_oid m = k then m\<lparr>io_sz := z\<rparr> else m)) (to_snapshot b)"
  shows "ob_inv (ob_set_side b s m')"
proof -
  let ?g = "map (\<lambda>m. if order_oid m = k then m\<lparr>io_sz := z\<rparr> else m)"
  note parts = inv [unfolded ob_inv_iff [of b s]]
  have keep: "map index_entry (?g os) = map index_entry os" for os
    by (auto simp: index_entry_def order_oid_def)
  note oids = distinct_entries [OF keep]
  have sets: "index_entry ` set (?g os) = index_entry ` set os" "order_oid ` set (?g os) = order_oid ` set os" for os
    using arg_cong [OF keep [of os], of set] arg_cong [OF oids [of os], of set] by (simp_all only: set_map)
  have "index_entry ` (set (?g x) \<union> set (?g y)) = index_entry ` (set x \<union> set y)" for x y
    unfolding image_Un sets ..
  from indexed_cong [OF this] show ?thesis
    unfolding ob_inv_iff [of _ s] snap map_queues_sides oids sets using parts m' by simp
qed

lemma modify_sz_refines:
  assumes inv: "ob_inv b"
  shows "ob_inv (snd (modify_sz b k z)) \<and>
    map_prod id to_snapshot (modify_sz b k z) = spec_modify (to_snapshot b) k z"
proof (cases "oid_to_side_px b k")
  let ?g = "map (\<lambda>m. if order_oid m = k then m\<lparr>io_sz := z\<rparr> else m)"
  case None
  from absent_order [OF inv None] have "map_queues ?g (to_snapshot b) = to_snapshot b"
    by (cases "to_snapshot b") (auto simp: map_queues_def update_absent snap_orders_def image_Un)
  with absent_order [OF inv None] show ?thesis using None inv by (simp add: modify_sz_def spec_modify_def)
next
  let ?g = "map (\<lambda>m. if order_oid m = k then m\<lparr>io_sz := z\<rparr> else m)"
  case (Some sp)
  then obtain s p where idx: "oid_to_side_px b k = Some (s, p)" by (cases sp) simp
  obtain m l a c where
    l: "map_of (ob_side b s) p = Some l" "(k, m) \<in> set l" "level_ok s p l" "distinct (map fst l)"
    and q: "queue_of (to_snapshot b) s = a @ map snd l @ c"
      "k \<notin> order_oid ` set (a @ c @ queue_of (to_snapshot b) (opposite s))"
    and put: "\<And>l. flat (in_priority s (put_level p l (ob_side b s))) = a @ map snd l @ c"
      "\<And>l. level_ok s p l \<Longrightarrow> levels_inv s (put_level p l (ob_side b s))"
    by (rule located [OF inv idx]) blast
  let ?l = "kl_write_node l k (modify_order_sz m z)"
  let ?m = "put_level p ?l (ob_side b s)"
  have "l \<noteq> []" using l(2) by auto
  then have "?l \<noteq> []" by (simp add: kl_write_node_def)
  then have c: "modify_sz b k z = (True, ob_set_side b s ?m)"
    using l(2,4) by (simp add: modify_sz_def idx l(1) put_level_def kl_node_value_def)
  have "x = m" if "(k, x) \<in> set l" for x using l(2,4) that by (rule eq_key_imp_eq_value [rotated 2])
  then have "map snd ?l = ?g (map snd l)"
    using l(3) by (auto simp: kl_write_node_def level_ok_def modify_order_sz_def)
  then have snap: "to_snapshot (ob_set_side b s ?m) = map_queues ?g (to_snapshot b)"
    by (rule rewrite_level [OF q(1) put(1)]) (use q(2) in \<open>simp_all add: update_absent image_Un del: queue_of_to_snapshot\<close>)
  have "k \<in> order_oid ` set (snap_orders (to_snapshot b))"
    unfolding snap_orders_sides [of _ s] q(1) using l(2,3) by (force simp: level_ok_def)
  moreover have "level_ok s p ?l"
  proof -
    have "order_oid m = k" "io_limit_px m = p" "io_side m = s" using l(2,3) by (force simp: level_ok_def)+
    with l(3) show ?thesis by (fastforce simp: level_ok_def kl_write_node_def)
  qed
  then have "ob_inv (ob_set_side b s ?m)" using modify_inv [OF inv put(2) snap] by blast
  ultimately show ?thesis using c snap by (simp add: spec_modify_def)
qed

section \<open>The interface\<close>

text \<open>
  What a client of an order book may rely on: every operation keeps the invariant, and what it
  returns and what the book then lists is what the price-time queues say. Only an order id
  that is not resting may be added.
\<close>

datatype book_op = AddOrder inner_l4_order "oid option" | CancelOrder oid | ModifySz oid sz

fun spec_step :: "inner_l4_order snapshot \<Rightarrow> book_op \<Rightarrow> bool \<times> inner_l4_order snapshot" where
  "spec_step q (AddOrder o1 before) = spec_add q o1 before"
| "spec_step q (CancelOrder k) = spec_cancel q k"
| "spec_step q (ModifySz k z) = spec_modify q k z"

fun op_allowed :: "inner_l4_order snapshot \<Rightarrow> book_op \<Rightarrow> bool" where
  "op_allowed q (AddOrder o1 _) = (order_oid o1 \<notin> order_oid ` set (snap_orders q))"
| "op_allowed q _ = True"

fun run_book :: "('b \<Rightarrow> book_op \<Rightarrow> bool \<times> 'b) \<Rightarrow> 'b \<Rightarrow> book_op list \<Rightarrow> bool list \<times> 'b" where
  "run_book step b [] = ([], b)"
| "run_book step b (op # ops) =
     (let (r, b') = step b op; (rs, b'') = run_book step b' ops in (r # rs, b''))"

fun ops_allowed :: "inner_l4_order snapshot \<Rightarrow> book_op list \<Rightarrow> bool" where
  "ops_allowed q [] = True"
| "ops_allowed q (op # ops) = (op_allowed q op \<and> ops_allowed (snd (spec_step q op)) ops)"

locale price_time_book =
  fixes inv :: "'b \<Rightarrow> bool" and view :: "'b \<Rightarrow> inner_l4_order snapshot"
    and empty :: 'b and step :: "'b \<Rightarrow> book_op \<Rightarrow> bool \<times> 'b"
  assumes inv_empty: "inv empty" and view_empty: "view empty = Snapshot [] []"
    and inv_step: "inv b \<Longrightarrow> op_allowed (view b) op \<Longrightarrow> inv (snd (step b op))"
    and view_step: "inv b \<Longrightarrow> op_allowed (view b) op \<Longrightarrow>
      map_prod id view (step b op) = spec_step (view b) op"
    and view_inj: "inv b \<Longrightarrow> inv b' \<Longrightarrow> view b = view b' \<Longrightarrow> b = b'"
begin

lemma run_inv: "inv b \<Longrightarrow> ops_allowed (view b) ops \<Longrightarrow> inv (snd (run_book step b ops))"
proof (induction ops arbitrary: b)
  case (Cons op ops)
  then have "inv (snd (step b op))" "view (snd (step b op)) = snd (spec_step (view b) op)"
    using inv_step view_step [of b op] by (auto simp: prod_eq_iff)
  with Cons.IH [of "snd (step b op)"] Cons.prems show ?case by (simp add: case_prod_beta Let_def)
qed simp

lemma run_view:
  "inv b \<Longrightarrow> ops_allowed (view b) ops \<Longrightarrow>
    map_prod id view (run_book step b ops) = run_book spec_step (view b) ops"
proof (induction ops arbitrary: b)
  case (Cons op ops)
  then have "inv (snd (step b op))" "view (snd (step b op)) = snd (spec_step (view b) op)"
    "fst (step b op) = fst (spec_step (view b) op)"
    using inv_step view_step [of b op] by (auto simp: prod_eq_iff)
  with Cons.IH [of "snd (step b op)"] Cons.prems show ?case
    by (simp add: case_prod_beta Let_def prod_eq_iff)
qed simp

text \<open>Two operation sequences with the same effect on the queues leave the same book.\<close>

lemma run_confluent:
  assumes "inv b" and "ops_allowed (view b) xs" and "ops_allowed (view b) ys"
    and "snd (run_book spec_step (view b) xs) = snd (run_book spec_step (view b) ys)"
  shows "snd (run_book step b xs) = snd (run_book step b ys)"
proof (rule view_inj)
  show "inv (snd (run_book step b xs))" "inv (snd (run_book step b ys))" by (simp_all add: assms run_inv)
  show "view (snd (run_book step b xs)) = view (snd (run_book step b ys))"
    using run_view [OF assms(1,2)] run_view [OF assms(1,3)] assms(4) by (auto simp: prod_eq_iff)
qed

end

section \<open>The snapshot determines the book\<close>

lemma first_level:
  assumes "distinct (map fst ((p, l) # ls))" and "\<And>e. e \<in> set ((p, l) # ls) \<Longrightarrow> level_ok s (fst e) (snd e)"
  shows "takeWhile (\<lambda>x. io_limit_px x = p) (flat ((p, l) # ls)) = map snd l"
    and "dropWhile (\<lambda>x. io_limit_px x = p) (flat ((p, l) # ls)) = flat ls"
proof -
  have "io_limit_px x = p" if "x \<in> set (map snd l)" for x
    using that assms(2) [of "(p, l)"] by (auto simp: level_ok_def)
  moreover have "io_limit_px x \<noteq> p" if "x \<in> set (flat ls)" for x
  proof -
    from that obtain e where e: "e \<in> set ls" "x \<in> snd ` set (snd e)" by (auto simp: set_flat)
    with assms(2) [of e] have "io_limit_px x = fst e" by (auto simp: level_ok_def)
    moreover have "fst e \<noteq> p" using assms(1) e(1) by auto
    ultimately show ?thesis by simp
  qed
  ultimately show "takeWhile (\<lambda>x. io_limit_px x = p) (flat ((p, l) # ls)) = map snd l"
    "dropWhile (\<lambda>x. io_limit_px x = p) (flat ((p, l) # ls)) = flat ls"
    using takeWhile_dropWhile_split [of "map snd l" "\<lambda>x. io_limit_px x = p" "flat ls"]
    unfolding flat_simps snd_conv by blast+
qed

lemma level_list_determined:
  assumes "distinct (map fst ls)" and "\<And>e. e \<in> set ls \<Longrightarrow> snd e \<noteq> [] \<and> level_ok s (fst e) (snd e)"
    and "distinct (map fst ls')" and "\<And>e. e \<in> set ls' \<Longrightarrow> snd e \<noteq> [] \<and> level_ok s (fst e) (snd e)"
    and "flat ls = flat ls'"
  shows "ls = ls'"
  using assms
proof (induction ls arbitrary: ls')
  case Nil
  then show ?case by (cases ls') auto
next
  case (Cons e ls)
  obtain p l where e: "e = (p, l)" by (cases e)
  have "flat (e # ls) \<noteq> []" using Cons.prems(2) [of e] by simp
  with Cons.prems(5) obtain p' l' r' where ls': "ls' = (p', l') # r'" by (cases ls') auto
  have "io_limit_px (hd (flat (e # ls))) = p" "io_limit_px (hd (flat ls')) = p'"
    using Cons.prems(2) [of e] Cons.prems(4) [of "(p', l')"] e ls' by (auto simp: level_ok_def hd_append hd_map)
  with Cons.prems(5) have p: "p' = p" by simp
  have tk: "takeWhile (\<lambda>x. io_limit_px x = p) (flat (e # ls)) = map snd l"
      "dropWhile (\<lambda>x. io_limit_px x = p) (flat (e # ls)) = flat ls"
      "takeWhile (\<lambda>x. io_limit_px x = p) (flat ls') = map snd l'"
      "dropWhile (\<lambda>x. io_limit_px x = p) (flat ls') = flat r'"
    unfolding e ls' p
    by (rule first_level; use Cons.prems e ls' p in blast)+
  with Cons.prems(5) have "map snd l = map snd l'" "flat ls = flat r'" by simp_all
  moreover have "l = keyed (map snd l)" "l' = keyed (map snd l')"
    using Cons.prems(2) [of e] Cons.prems(4) [of "(p', l')"] e ls' level_ok_keyed by auto
  moreover have "ls = r'"
    by (rule Cons.IH) (use Cons.prems ls' e \<open>flat ls = flat r'\<close> in auto)
  ultimately show ?case using e ls' p by metis
qed

lemma levels_determined:
  assumes "levels_inv s m" and "levels_inv s m'" and "flat (in_priority s m) = flat (in_priority s m')"
  shows "m = m'"
proof -
  have "in_priority s m = in_priority s m'"
    by (rule level_list_determined [where s = s])
      (use assms in \<open>auto simp: levels_inv_def set_in_priority_keys bt_sorted_distinct\<close>)
  then show ?thesis by (metis in_priority_simps(1))
qed

lemma snapshot_determines_book:
  assumes "ob_inv b" and "ob_inv b'" and "to_snapshot b = to_snapshot b'"
  shows "b = b'"
proof -
  have "oid_to_side_px b = oid_to_side_px b'" using assms by (simp add: ob_inv_def)
  moreover have "ob_side b s = ob_side b' s" for s
    using assms(1,2) [unfolded ob_inv_iff [of _ s]] arg_cong [OF assms(3), of "\<lambda>q. queue_of q s"]
    by (intro levels_determined [of s]) auto
  from this [of Bid] this [of Ask] have "bids b = bids b'" "asks b = asks b'" by (simp_all add: ob_side_def)
  ultimately show ?thesis by simp
qed

fun ob_step :: "order_book \<Rightarrow> book_op \<Rightarrow> bool \<times> order_book" where
  "ob_step b (AddOrder o1 before) = add_order_before b o1 before"
| "ob_step b (CancelOrder k) = cancel_order b k"
| "ob_step b (ModifySz k z) = modify_sz b k z"

lemma ob_inv_new: "ob_inv ob_new"
  by (simp add: ob_inv_def ob_new_def levels_inv_def to_snapshot_def snap_orders_def)

interpretation ob: price_time_book ob_inv to_snapshot ob_new ob_step
proof
  show "ob_inv ob_new" by (rule ob_inv_new)
  show "to_snapshot ob_new = Snapshot [] []" by (simp add: to_snapshot_def ob_new_def)
  fix b op assume "ob_inv b" "op_allowed (to_snapshot b) op"
  then show "ob_inv (snd (ob_step b op))" "map_prod id to_snapshot (ob_step b op) = spec_step (to_snapshot b) op"
    by (cases op; simp add: add_order_before_refines cancel_order_refines modify_sz_refines)+
qed (rule snapshot_determines_book)

end
