(* ===== verification/Order_Book_Properties.thy ===== *)
theory Order_Book_Properties
  imports Order_Book_Refinement
begin

text \<open>
  What the order book promises its callers, drawn from the refinement: runs of operations,
  matching, the uncrossed book, the snapshot round trip and the undo of an add.
\<close>

section \<open>Queues in priority order\<close>

definition priority_sorted :: "side \<Rightarrow> inner_l4_order list \<Rightarrow> bool" where
  "priority_sorted s q = sorted_wrt (\<lambda>x y. \<not> better s (io_limit_px y) (io_limit_px x)) q"

lemma levels_priority: "bt_sorted m \<Longrightarrow> sorted_wrt (better s) (map fst (in_priority s m))"
proof (cases s)
  case Bid
  then have "better s = (\<lambda>p q. q < p)" by (simp add: better_def fun_eq_iff)
  moreover assume "bt_sorted m"
  ultimately show ?thesis using Bid by (simp add: in_priority_def rev_map [symmetric] sorted_wrt_rev)
qed (simp add: in_priority_def better_def [abs_def])

lemma flat_priority_sorted:
  assumes "sorted_wrt (better s) (map fst ls)" and "\<And>e. e \<in> set ls \<Longrightarrow> level_ok s (fst e) (snd e)"
  shows "priority_sorted s (flat ls)"
  using assms
proof (induction ls)
  case Nil
  then show ?case by (simp add: priority_sorted_def)
next
  case (Cons e ls)
  have px: "io_limit_px x = fst e" if "x \<in> snd ` set (snd e)" for x
    using that Cons.prems(2) [of e] by (auto simp: level_ok_def)
  then have "priority_sorted s (map snd (snd e))"
    unfolding priority_sorted_def
    by (intro sorted_wrt_mono_rel [OF _ sorted_wrt_true]) (simp add: px del: set_map add: set_map)
  moreover have "better s (fst e) (io_limit_px y)" if "y \<in> set (flat ls)" for y
  proof -
    from that obtain d where d: "d \<in> set ls" "y \<in> snd ` set (snd d)" by (auto simp: set_flat)
    with Cons.prems(2) [of d] have "io_limit_px y = fst d" by (auto simp: level_ok_def)
    then show ?thesis using Cons.prems(1) d(1) by simp
  qed
  moreover have "priority_sorted s (flat ls)" using Cons by simp
  ultimately show ?case
    unfolding flat_simps priority_sorted_def sorted_wrt_append
    using px better_asym by (metis (no_types, lifting) list.set_map)
qed

lemma queue_priority_sorted: "ob_inv b \<Longrightarrow> priority_sorted s (queue_of (to_snapshot b) s)"
  unfolding queue_of_to_snapshot ob_inv_iff [of b s]
  by (intro flat_priority_sorted levels_priority) (auto simp: levels_inv_def)


section \<open>The uncrossed book\<close>

definition uncrossed :: "inner_l4_order snapshot \<Rightarrow> bool" where
  "uncrossed q \<longleftrightarrow> (\<forall>x \<in> set (snap_bids q). \<forall>y \<in> set (snap_asks q). io_limit_px x < io_limit_px y)"

lemma uncrossed_sides:
  "uncrossed q \<longleftrightarrow>
    (\<forall>x \<in> set (queue_of q s). \<forall>y \<in> set (queue_of q (opposite s)). \<not> accepts s (io_limit_px x) (io_limit_px y))"
  by (cases s) (auto simp: uncrossed_def queue_of_def opposite_def accepts_def better_def not_le)

lemma dropWhile_no_cross:
  assumes "priority_sorted (opposite s) q"
    and "y \<in> set (dropWhile (\<lambda>m. accepts s p (io_limit_px m)) q)"
  shows "\<not> accepts s p (io_limit_px y)"
  using assms
proof (induction q)
  case (Cons m q)
  show ?case
  proof (cases "accepts s p (io_limit_px m)")
    case False
    with Cons.prems have "y = m \<or> \<not> better (opposite s) (io_limit_px y) (io_limit_px m)"
      by (auto simp: priority_sorted_def)
    with False show ?thesis by (cases s) (auto simp: accepts_def better_def better_def opposite_def)
  qed (use Cons in \<open>auto simp: priority_sorted_def\<close>)
qed simp

text \<open>Whatever an incoming order leaves of itself crosses nothing that is left of the other side.\<close>

lemma match_queue_leftover:
  assumes "priority_sorted (opposite (io_side t)) q" and "match_queue t q = (n, q', f)" and "n \<noteq> 0"
    and "y \<in> set q'"
  shows "\<not> accepts (io_side t) (io_limit_px t) (io_limit_px y)"
proof -
  let ?hit = "\<lambda>m. accepts (io_side t) (io_limit_px t) (io_limit_px m)"
  have "q' = dropWhile ?hit q"
    using assms(2,3) consume_all [of "qty (io_sz t)" "takeWhile ?hit q"]
    by (auto simp: match_queue_def Let_def case_prod_beta)
  then show ?thesis using dropWhile_no_cross [OF assms(1)] assms(4) by blast
qed

lemma match_queue_prices:
  "match_queue t q = (n, q', f) \<Longrightarrow> io_limit_px ` set q' \<subseteq> io_limit_px ` set q"
proof -
  assume "match_queue t q = (n, q', f)"
  from match_queue_entries [OF this] obtain gone where "map index_entry q = map index_entry (gone @ q')" .
  then have "map (snd \<circ> snd \<circ> index_entry) q = map (snd \<circ> snd \<circ> index_entry) (gone @ q')"
    by (metis map_map)
  then have "map io_limit_px q = map io_limit_px (gone @ q')" by (simp add: index_entry_def comp_def)
  from arg_cong [OF this, of set] show ?thesis by auto
qed

lemma set_queue_back: "set (queue_back s o1 q) = insert o1 (set q)"
  unfolding queue_back_def Let_def
  by (metis (no_types, lifting) Un_insert_right list.simps(15) set_append takeWhile_dropWhile_id)

lemma set_queue_before: "set (queue_before k o1 q) = insert o1 (set q)"
  unfolding queue_before_def
  by (metis (no_types, lifting) Un_insert_right list.simps(15) set_append takeWhile_dropWhile_id)

lemma spec_add_uncrossed:
  assumes sorted: "priority_sorted (opposite (io_side o1)) (queue_of q (opposite (io_side o1)))"
    and un: "uncrossed q"
  shows "uncrossed (snd (spec_add q o1 before))"
proof -
  let ?s = "io_side o1" and ?o = "opposite (io_side o1)"
  obtain n r f where mq: "match_queue o1 (queue_of q ?o) = (n, r, f)" by (metis prod_cases3)
  have old: "\<not> accepts ?s (io_limit_px x) (io_limit_px y)" if "x \<in> set (queue_of q ?s)" "y \<in> set r" for x y
  proof -
    have "io_limit_px y \<in> io_limit_px ` set (queue_of q ?o)" using match_queue_prices [OF mq] that(2) by blast
    then obtain z where "z \<in> set (queue_of q ?o)" "io_limit_px y = io_limit_px z" by blast
    then show ?thesis using un that(1) unfolding uncrossed_sides [of _ ?s] by simp
  qed
  have new: "\<not> accepts ?s (io_limit_px o1) (io_limit_px y)" if "n \<noteq> 0" "y \<in> set r" for y
    using match_queue_leftover [OF sorted mq that] .
  have "set (queue_of (snd (spec_add q o1 before)) ?o) = set r"
    by (auto simp: spec_add_def mq Let_def split: option.splits)
  moreover have "set (queue_of (snd (spec_add q o1 before)) ?s) \<subseteq>
      (if n = 0 then {} else {resize o1 n}) \<union> set (queue_of q ?s)"
    by (auto simp: spec_add_def mq Let_def set_queue_back set_queue_before split: option.splits if_splits)
  ultimately show ?thesis unfolding uncrossed_sides [of _ ?s] using old new
    by (fastforce split: if_splits)
qed

section \<open>Resting without a match\<close>

definition live :: "inner_l4_order \<Rightarrow> bool" where
  "live o1 \<longleftrightarrow> sz_is_positive (io_sz o1)"

definition rests :: "inner_l4_order snapshot \<Rightarrow> inner_l4_order \<Rightarrow> bool" where
  "rests q o1 \<longleftrightarrow> live o1 \<and>
     (\<forall>y \<in> set (queue_of q (opposite (io_side o1))). \<not> accepts (io_side o1) (io_limit_px o1) (io_limit_px y))"

lemma match_queue_none:
  "\<forall>y \<in> set q. \<not> accepts (io_side t) (io_limit_px t) (io_limit_px y) \<Longrightarrow> match_queue t q = (qty (io_sz t), q, [])"
  by (cases q) (auto simp: match_queue_def)

lemma set_queue_same [simp]: "set_queue q s (queue_of q s) = q"
  by (cases s; cases q) (simp_all add: set_queue_def queue_of_def)

lemma set_queue_twice [simp]: "set_queue (set_queue q s xs) s ys = set_queue q s ys"
  by (cases s; cases q) (simp_all add: set_queue_def)

lemma spec_add_rests:
  assumes "rests q o1"
  shows "spec_add q o1 before =
    (case before of
       None \<Rightarrow> (True, set_queue q (io_side o1) (queue_back (io_side o1) o1 (queue_of q (io_side o1))))
     | Some k \<Rightarrow>
         if \<exists>m \<in> set (queue_of q (io_side o1)). order_oid m = k \<and> io_limit_px m = io_limit_px o1
         then (True, set_queue q (io_side o1) (queue_before k o1 (queue_of q (io_side o1))))
         else (False, q))"
  using assms by (auto simp: spec_add_def rests_def live_def book_simps match_queue_none Let_def split: option.splits)

lemma queue_back_end:
  "\<forall>x \<in> set q. \<not> better s (io_limit_px o1) (io_limit_px x) \<Longrightarrow> queue_back s o1 q = q @ [o1]"
  using takeWhile_dropWhile_split [of q "\<lambda>m. \<not> better s (io_limit_px o1) (io_limit_px m)" "[]"]
  by (simp add: queue_back_def Let_def)

lemma rest_in_order:
  assumes "ob_inv b" and "queue_of (to_snapshot b) s = xs" and "priority_sorted s (xs @ os)"
    and "\<forall>x \<in> set os. io_side x = s \<and> rests (to_snapshot b) x"
    and "distinct (map order_oid (xs @ os))"
    and "order_oid ` set os \<inter> order_oid ` set (queue_of (to_snapshot b) (opposite s)) = {}"
  shows "ob_inv (foldl add_order b os) \<and> to_snapshot (foldl add_order b os) = set_queue (to_snapshot b) s (xs @ os)"
  using assms
proof (induction os arbitrary: b xs)
  case Nil
  then show ?case by (metis append_Nil2 foldl_Nil set_queue_same)
next
  case (Cons x os)
  have x: "io_side x = s" "rests (to_snapshot b) x" using Cons.prems(4) by auto
  have "\<forall>y \<in> set xs. \<not> better s (io_limit_px x) (io_limit_px y)"
    using Cons.prems(3) by (auto simp: priority_sorted_def sorted_wrt_append)
  from queue_back_end [OF this] have
    spec: "spec_add (to_snapshot b) x None = (True, set_queue (to_snapshot b) s (xs @ [x]))"
    using spec_add_rests [OF x(2), of None] x(1) Cons.prems(2) by simp
  have "order_oid x \<notin> order_oid ` set (snap_orders (to_snapshot b))"
    using Cons.prems(2,5,6) unfolding snap_orders_sides [of _ s] by (auto simp del: queue_of_to_snapshot)
  from add_order_before_refines [OF Cons.prems(1) this, of None] spec
  have b': "ob_inv (add_order b x)" "to_snapshot (add_order b x) = set_queue (to_snapshot b) s (xs @ [x])"
    by (auto simp: add_order_def prod_eq_iff)
  have "ob_inv (foldl add_order (add_order b x) os) \<and>
      to_snapshot (foldl add_order (add_order b x) os) = set_queue (to_snapshot (add_order b x)) s ((xs @ [x]) @ os)"
  proof (rule Cons.IH [OF b'(1)])
    show "\<forall>y \<in> set os. io_side y = s \<and> rests (to_snapshot (add_order b x)) y"
      unfolding b'(2) using Cons.prems(4) by (auto simp: rests_def simp del: queue_of_to_snapshot)
  qed (use Cons.prems in \<open>simp_all add: b'(2) del: queue_of_to_snapshot\<close>)
  then show ?case unfolding b'(2) by simp
qed

lemma from_to_snapshot:
  assumes inv: "ob_inv b" and un: "uncrossed (to_snapshot b)"
    and pos: "\<forall>x \<in> set (snap_orders (to_snapshot b)). live x"
  shows "from_snapshot (to_snapshot b) False = b"
proof -
  let ?q = "to_snapshot b"
  have q: "queue_of ?q Bid = snap_bids ?q" "queue_of ?q Ask = snap_asks ?q" by (simp_all add: queue_of_def del: queue_of_to_snapshot)
  have sides: "\<forall>x \<in> set (queue_of ?q s). io_side x = s" for s
    using inv [unfolded ob_inv_iff [of b s]] levels_inv_orders by (auto simp: set_flat_in_priority)
  have dist: "distinct (map order_oid (snap_orders ?q))" using inv by (simp add: ob_inv_def)
  have new: "to_snapshot ob_new = Snapshot [] []" by (simp add: to_snapshot_def ob_new_def)
  have bids: "ob_inv (foldl add_order ob_new (snap_bids ?q)) \<and>
      to_snapshot (foldl add_order ob_new (snap_bids ?q)) = set_queue (to_snapshot ob_new) Bid ([] @ snap_bids ?q)"
  proof (rule rest_in_order [OF ob_inv_new])
    show "\<forall>x \<in> set (snap_bids ?q). io_side x = Bid \<and> rests (to_snapshot ob_new) x"
      using sides [of Bid] pos unfolding q new by (auto simp: rests_def snap_orders_def queue_of_def split: side.splits)
    show "priority_sorted Bid ([] @ snap_bids ?q)" using queue_priority_sorted [OF inv, of Bid] q by simp
  qed (use dist in \<open>auto simp: new queue_of_def snap_orders_def opposite_def\<close>)
  let ?b = "foldl add_order ob_new (snap_bids ?q)"
  have inv_b: "ob_inv ?b" using bids by blast
  have sb: "to_snapshot ?b = Snapshot (snap_bids ?q) []" using bids by (simp add: new set_queue_def)
  have "ob_inv (foldl add_order ?b (snap_asks ?q)) \<and>
      to_snapshot (foldl add_order ?b (snap_asks ?q)) = set_queue (to_snapshot ?b) Ask ([] @ snap_asks ?q)"
  proof (rule rest_in_order)
    show "\<forall>x \<in> set (snap_asks ?q). io_side x = Ask \<and> rests (to_snapshot ?b) x"
      using sides [of Ask] pos un unfolding q sb
      by (auto simp: rests_def snap_orders_def queue_of_def opposite_def uncrossed_def accepts_def better_def not_le simp del: queue_of_to_snapshot)
    show "priority_sorted Ask ([] @ snap_asks ?q)" using queue_priority_sorted [OF inv, of Ask] q by simp
  qed (use dist inv_b in \<open>auto simp: sb queue_of_def snap_orders_def opposite_def simp del: queue_of_to_snapshot\<close>)
  then have "ob_inv (from_snapshot ?q False)" "to_snapshot (from_snapshot ?q False) = ?q"
    by (simp_all add: from_snapshot_def sb set_queue_def Let_def)
  then show ?thesis using inv snapshot_determines_book by blast
qed


lemma filter_queue_parts:
  assumes "order_oid o1 \<notin> order_oid ` set q"
  shows "filter (\<lambda>m. order_oid m \<noteq> order_oid o1) (takeWhile P q @ o1 # dropWhile P q) = q"
proof -
  have "filter (\<lambda>m. order_oid m \<noteq> order_oid o1) (takeWhile P q @ dropWhile P q) = q"
    using assms by (simp add: filter_absent)
  then show ?thesis by (simp del: takeWhile_dropWhile_id)
qed

lemma spec_cancel_added:
  assumes "rests q o1" and "order_oid o1 \<notin> order_oid ` set (snap_orders q)" and "fst (spec_add q o1 before)"
  shows "spec_cancel (snd (spec_add q o1 before)) (order_oid o1) = (True, q)"
proof -
  let ?s = "io_side o1"
  obtain P where q1: "snd (spec_add q o1 before) =
      set_queue q ?s (takeWhile P (queue_of q ?s) @ o1 # dropWhile P (queue_of q ?s))"
    using assms(1,3) by (auto simp: spec_add_rests queue_back_def queue_before_def Let_def split: option.splits if_splits)
  have absent: "order_oid o1 \<notin> order_oid ` set (queue_of q ?s)" "order_oid o1 \<notin> order_oid ` set (queue_of q (opposite ?s))"
    using assms(2) unfolding snap_orders_sides [of q ?s] by auto
  have "map_queues (filter (\<lambda>m. order_oid m \<noteq> order_oid o1)) (snd (spec_add q o1 before)) = q"
  proof (rule snapshot_eqI)
    fix t
    show "queue_of (map_queues (filter (\<lambda>m. order_oid m \<noteq> order_oid o1)) (snd (spec_add q o1 before))) t = queue_of q t"
      using side_or_opposite [of t ?s] filter_queue_parts [OF absent(1)] absent(2)
      by (auto simp: q1 map_queues_sides filter_absent)
  qed
  moreover have "order_oid o1 \<in> order_oid ` set (snap_orders (snd (spec_add q o1 before)))"
    unfolding snap_orders_sides [of _ ?s] by (simp add: q1)
  ultimately show ?thesis by (simp add: spec_cancel_def)
qed

lemma anchor_indexed:
  assumes inv: "ob_inv b" and "m \<in> set (queue_of (to_snapshot b) s)"
  shows "oid_to_side_px b (order_oid m) = Some (s, io_limit_px m)"
proof -
  have "io_side m = s"
    using inv [unfolded ob_inv_iff [of b s]] levels_inv_orders assms(2) by (auto simp: set_flat_in_priority)
  moreover have "indexed (oid_to_side_px b) (set (queue_of (to_snapshot b) s) \<union> set (queue_of (to_snapshot b) (opposite s)))"
    using inv [unfolded ob_inv_iff [of b s]] by blast
  moreover have "(order_oid m, io_side m, io_limit_px m) \<in> index_entry ` set (queue_of (to_snapshot b) s)"
    using assms(2) by (simp add: index_entry_def rev_image_eqI)
  ultimately show ?thesis unfolding indexed_def by blast
qed

lemma match_queue_conserves:
  assumes "match_queue t q = (n, q', f)"
  shows "n + sum_list (map (\<lambda>x. qty (io_sz x)) q) = qty (io_sz t) + sum_list (map (\<lambda>x. qty (io_sz x)) q')"
proof -
  let ?hit = "\<lambda>m. accepts (io_side t) (io_limit_px t) (io_limit_px m)" and ?sum = "\<lambda>q. sum_list (map (\<lambda>x. qty (io_sz x)) q)"
  have "?sum q = ?sum (takeWhile ?hit q) + ?sum (dropWhile ?hit q)"
    using arg_cong [OF takeWhile_dropWhile_id [of ?hit q, symmetric], of ?sum]
    by (simp only: map_append sum_list_append)
  then show ?thesis using assms consume_conserves [of "qty (io_sz t)" "takeWhile ?hit q"]
    by (auto simp: match_queue_def Let_def case_prod_beta)
qed

lemma sum_flat_in_priority:
  "sum_list (map f (flat (in_priority s m))) = (sum_list (map f (flat m)) :: nat)"
proof (cases s)
  case Bid
  have "sum_list (map f (flat (rev m))) = (sum_list (map f (flat m)) :: nat)" by (induction m) auto
  with Bid show ?thesis by (simp add: in_priority_def)
qed (simp add: in_priority_def)

text \<open>An order for the examples: only the fields the book reads vary.\<close>

definition mk_order :: "side \<Rightarrow> u64 \<Rightarrow> u64 \<Rightarrow> u64 \<Rightarrow> inner_l4_order" where
  "mk_order s p z k =
     \<lparr>io_user = 0, io_coin = Coin ''BTC'', io_side = s, io_limit_px = Px p, io_sz = Sz z, io_oid = k,
      io_timestamp = 0, io_trigger_condition = ''N/A'', io_is_trigger = False, io_trigger_px = ''0.0'',
      io_is_position_tpsl = False, io_reduce_only = False, io_order_type = ''Limit'', io_tif = Some ''Gtc'',
      io_cloid = None\<rparr>"

definition sample_book :: order_book where
  "sample_book = snd (run_book ob_step ob_new
     [AddOrder (mk_order Bid 100 5 1) None, AddOrder (mk_order Ask 110 3 2) None,
      AddOrder (mk_order Ask 110 4 3) (Some (Oid 2)), AddOrder (mk_order Ask 120 7 4) None])"

section \<open>Properties\<close>

text \<open>
  C3. Any run of adds, cancels and resizes on the book, starting from \<open>OrderBook::new\<close> and adding
  only ids that are not resting, returns what the same run returns on the two price-time
  queues, and \<open>to_snapshot\<close> of the resulting book is exactly those queues. The
  representation invariant (sorted non-empty levels, every order under its own id, price and
  side, the index naming exactly the resting orders) holds throughout.
\<close>

theorem order_book_refines_price_time:
  assumes "ops_allowed (Snapshot [] []) ops"
  shows "ob_inv (snd (run_book ob_step ob_new ops)) \<and>
    map_prod id to_snapshot (run_book ob_step ob_new ops) = run_book spec_step (Snapshot [] []) ops"
  using ob.run_inv [OF ob.inv_empty, of ops] ob.run_view [OF ob.inv_empty, of ops] assms
  by (simp add: ob.view_empty)

theorem order_book_refines_price_time_witness:
  "let ops = [AddOrder (mk_order Bid 100 5 1) None, AddOrder (mk_order Ask 110 3 2) None,
       AddOrder (mk_order Ask 110 4 3) (Some (Oid 2)), AddOrder (mk_order Bid 115 9 4) None,
       ModifySz (Oid 4) (Sz 8), CancelOrder (Oid 1)]
   in ops_allowed (Snapshot [] []) ops \<and> ob_inv (snd (run_book ob_step ob_new ops)) \<and>
     map_prod id to_snapshot (run_book ob_step ob_new ops) = run_book spec_step (Snapshot [] []) ops"
proof -
  let ?ops = "[AddOrder (mk_order Bid 100 5 1) None, AddOrder (mk_order Ask 110 3 2) None,
       AddOrder (mk_order Ask 110 4 3) (Some (Oid 2)), AddOrder (mk_order Bid 115 9 4) None,
       ModifySz (Oid 4) (Sz 8), CancelOrder (Oid 1)]"
  have "ops_allowed (Snapshot [] []) ?ops" by code_simp
  then show ?thesis unfolding Let_def using order_book_refines_price_time [of ?ops] by blast
qed

lemma sample_inv: "ob_inv sample_book" "to_snapshot sample_book =
    Snapshot [mk_order Bid 100 5 1] [mk_order Ask 110 4 3, mk_order Ask 110 3 2, mk_order Ask 120 7 4]"
proof -
  let ?ops = "[AddOrder (mk_order Bid 100 5 1) None, AddOrder (mk_order Ask 110 3 2) None,
      AddOrder (mk_order Ask 110 4 3) (Some (Oid 2)), AddOrder (mk_order Ask 120 7 4) None]"
  have "ops_allowed (Snapshot [] []) ?ops" by code_simp
  then show "ob_inv sample_book"
    unfolding sample_book_def using ob.run_inv [OF ob.inv_empty, of ?ops] by (simp add: ob.view_empty)
  show "to_snapshot sample_book =
    Snapshot [mk_order Bid 100 5 1] [mk_order Ask 110 4 3, mk_order Ask 110 3 2, mk_order Ask 120 7 4]"
    by code_simp
qed

text \<open>
  C4. \<open>match_order\<close> on a well-formed maker side consumes its price-time queue: makers at
  crossing prices are filled front first, the ids filled completely are returned in that
  order, emptied levels disappear, everything else is untouched, and the quantity the taker
  loses is exactly the quantity the makers lose.
\<close>

theorem match_order_price_time:
  assumes inv: "levels_inv (opposite (io_side t)) m"
  shows "case match_order m t of (m', t', filled) \<Rightarrow>
    levels_inv (opposite (io_side t)) m' \<and>
    (qty (io_sz t'), flat (in_priority (opposite (io_side t)) m'), filled) =
      match_queue t (flat (in_priority (opposite (io_side t)) m)) \<and>
    t' = t\<lparr>io_sz := io_sz t'\<rparr> \<and>
    qty (io_sz t') + sum_list (map (\<lambda>x. qty (io_sz x)) (flat m)) =
      qty (io_sz t) + sum_list (map (\<lambda>x. qty (io_sz x)) (flat m'))"
proof -
  let ?s = "opposite (io_side t)" and ?sum = "\<lambda>q. sum_list (map (\<lambda>x. qty (io_sz x)) q)"
  obtain n q f where mq: "match_queue t (flat (in_priority ?s m)) = (n, q, f)" by (metis prod_cases3)
  from match_order_queue [OF inv mq] obtain m' where
    m': "match_order m t = (m', resize t n, f)" "levels_inv ?s m'" "flat (in_priority ?s m') = q" .
  have "qty (io_sz (resize t n)) = n" using match_queue_le [OF mq] by (simp add: unat_of_nat_small)
  moreover have "n + ?sum (flat (in_priority ?s m)) = qty (io_sz t) + ?sum q"
    by (rule match_queue_conserves [OF mq])
  moreover have "resize t n = t\<lparr>io_sz := io_sz (resize t n)\<rparr>" by (simp add: resize_def)
  moreover have "?sum q = ?sum (flat m')"
    using sum_flat_in_priority [of "\<lambda>x. qty (io_sz x)" ?s m'] unfolding m'(3) .
  ultimately show ?thesis using m' mq by (simp add: sum_flat_in_priority)
qed

theorem match_order_price_time_witness:
  "let m = [(Px 110, [(Oid 3, mk_order Ask 110 4 3), (Oid 2, mk_order Ask 110 3 2)])];
       t = mk_order Bid 115 5 9
   in levels_inv (opposite (io_side t)) m \<and>
     (case match_order m t of (m', t', filled) \<Rightarrow>
        levels_inv (opposite (io_side t)) m' \<and>
        (qty (io_sz t'), flat (in_priority (opposite (io_side t)) m'), filled) =
          match_queue t (flat (in_priority (opposite (io_side t)) m)))"
proof -
  let ?m = "[(Px 110, [(Oid 3, mk_order Ask 110 4 3), (Oid 2, mk_order Ask 110 3 2)])]"
  let ?t = "mk_order Bid 115 5 9"
  have "levels_inv (opposite (io_side ?t)) ?m" by code_simp
  then show ?thesis unfolding Let_def using match_order_price_time [of ?t ?m] by (auto split: prod.splits)
qed

text \<open>
  C10. Adding an order never leaves the book crossed: if every bid is below every ask before,
  every bid is below every ask after, wherever the order is inserted.
\<close>

theorem add_order_keeps_uncrossed:
  assumes inv: "ob_inv b" and "uncrossed (to_snapshot b)"
    and "oid_to_side_px b (order_oid o1) = None"
  shows "uncrossed (to_snapshot (snd (add_order_before b o1 insert_before)))"
proof -
  have "to_snapshot (snd (add_order_before b o1 insert_before)) = snd (spec_add (to_snapshot b) o1 insert_before)"
    using add_order_before_refines [OF inv absent_order [OF inv assms(3)], of insert_before]
    by (auto simp: prod_eq_iff)
  then show ?thesis using spec_add_uncrossed [OF queue_priority_sorted [OF inv] assms(2)] by simp
qed

theorem add_order_keeps_uncrossed_witness:
  "uncrossed (to_snapshot sample_book) \<and> oid_to_side_px sample_book (Oid 9) = None \<and>
   uncrossed (to_snapshot (snd (add_order_before sample_book (mk_order Bid 110 5 9) None)))"
proof -
  have "uncrossed (to_snapshot sample_book)" by (simp add: sample_inv uncrossed_def mk_order_def less_px_def)
  moreover have "oid_to_side_px sample_book (Oid 9) = None" by code_simp
  ultimately show ?thesis
    using add_order_keeps_uncrossed [OF sample_inv(1), of "mk_order Bid 110 5 9" None]
    by (simp add: mk_order_def order_oid_def)
qed

text \<open>
  C9. A snapshot restores the book it was taken from: rebuilding from \<open>to_snapshot\<close> gives back
  the same levels in the same queue order and the same index, for every well-formed uncrossed
  book whose resting sizes are positive.
\<close>

theorem snapshot_round_trip:
  assumes "ob_inv b" and "uncrossed (to_snapshot b)"
    and "\<forall>x \<in> set (snap_orders (to_snapshot b)). sz_is_positive (io_sz x)"
  shows "from_snapshot (to_snapshot b) False = b"
  using from_to_snapshot [OF assms(1,2)] assms(3) by (simp add: live_def)

theorem snapshot_round_trip_witness:
  "from_snapshot (to_snapshot sample_book) False = sample_book"
  by (rule snapshot_round_trip [OF sample_inv(1)])
    (simp_all add: sample_inv uncrossed_def mk_order_def less_px_def snap_orders_def sz_is_positive_def)

text \<open>
  C13. Cancelling an order that was just added and did not trade restores the book exactly, and
  the cancel reports success.
\<close>

theorem cancel_undoes_add:
  assumes inv: "ob_inv b" and new: "oid_to_side_px b (order_oid o1) = None"
    and "rests (to_snapshot b) o1" and "fst (add_order_before b o1 insert_before)"
  shows "cancel_order (snd (add_order_before b o1 insert_before)) (order_oid o1) = (True, b)"
proof -
  let ?b = "snd (add_order_before b o1 insert_before)"
  note fresh = absent_order [OF inv new]
  have b: "ob_inv ?b" "to_snapshot ?b = snd (spec_add (to_snapshot b) o1 insert_before)"
    "fst (spec_add (to_snapshot b) o1 insert_before)"
    using add_order_before_refines [OF inv fresh, of insert_before] assms(4) by (auto simp: prod_eq_iff)
  from spec_cancel_added [OF assms(3) fresh b(3)] cancel_order_refines [OF b(1), of "order_oid o1"]
  have c: "ob_inv (snd (cancel_order ?b (order_oid o1)))" "fst (cancel_order ?b (order_oid o1))"
    "to_snapshot (snd (cancel_order ?b (order_oid o1))) = to_snapshot b"
    by (auto simp: b(2) prod_eq_iff)
  then show ?thesis using snapshot_determines_book [OF c(1) inv c(3)] by (simp add: prod_eq_iff)
qed

theorem cancel_undoes_add_witness:
  "cancel_order (snd (add_order_before sample_book (mk_order Ask 110 6 9) (Some (Oid 2)))) (Oid 9) = (True, sample_book)"
proof -
  let ?o = "mk_order Ask 110 6 9"
  have "oid_to_side_px sample_book (order_oid ?o) = None" "fst (add_order_before sample_book ?o (Some (Oid 2)))"
    by code_simp+
  moreover have "rests (to_snapshot sample_book) ?o" unfolding sample_inv by code_simp
  ultimately show ?thesis
    using cancel_undoes_add [OF sample_inv(1), of ?o "Some (Oid 2)"] by (simp add: mk_order_def order_oid_def)
qed

text \<open>
  C14. When the anchor \<open>insert_before\<close> does not rest at the order's price on its side, an order
  that trades with nothing is refused and the book is left exactly as it was: no order lost,
  no index entry and no empty level left behind.
\<close>

theorem failed_insert_changes_nothing:
  assumes inv: "ob_inv b" and new: "oid_to_side_px b (order_oid o1) = None"
    and "rests (to_snapshot b) o1"
    and "oid_to_side_px b k \<noteq> Some (io_side o1, io_limit_px o1)"
  shows "add_order_before b o1 (Some k) = (False, b)"
proof -
  note fresh = absent_order [OF inv new]
  have "\<not> (\<exists>m \<in> set (queue_of (to_snapshot b) (io_side o1)). order_oid m = k \<and> io_limit_px m = io_limit_px o1)"
    using anchor_indexed [OF inv, of _ "io_side o1"] assms(4) by metis
  then have "spec_add (to_snapshot b) o1 (Some k) = (False, to_snapshot b)"
    using spec_add_rests [OF assms(3), of "Some k"] by simp
  then have c: "ob_inv (snd (add_order_before b o1 (Some k)))" "\<not> fst (add_order_before b o1 (Some k))"
    "to_snapshot (snd (add_order_before b o1 (Some k))) = to_snapshot b"
    using add_order_before_refines [OF inv fresh, of "Some k"] by (auto simp: prod_eq_iff)
  then show ?thesis using snapshot_determines_book [OF c(1) inv c(3)] by (simp add: prod_eq_iff)
qed

theorem failed_insert_changes_nothing_witness:
  "add_order_before sample_book (mk_order Ask 111 6 9) (Some (Oid 2)) = (False, sample_book)"
proof -
  let ?o = "mk_order Ask 111 6 9"
  have "oid_to_side_px sample_book (order_oid ?o) = None"
    "oid_to_side_px sample_book (Oid 2) \<noteq> Some (io_side ?o, io_limit_px ?o)"
    by code_simp+
  moreover have "rests (to_snapshot sample_book) ?o" unfolding sample_inv by code_simp
  ultimately show ?thesis by (intro failed_insert_changes_nothing [OF sample_inv(1)])
qed

end
