(* ===== verification/Multi_Book.thy ===== *)
theory Multi_Book
  imports Order_Book_Properties Subscriptions "HOL-Library.AList"
begin

text \<open>
  \<open>server/src/order_book/multi_book.rs\<close>: one order book per coin, the snapshot of all of them, and
  the snapshot loader, which skips the books of coins out of scope. The text-to-JSON step and
  the decoding of one raw order are serde's and the parameters of the model.
\<close>

section \<open>Snapshots and books\<close>

text \<open>\<open>Snapshots<O>\<close> is a \<open>HashMap\<close> that is iterated: an association list with distinct coins.\<close>

type_synonym 'o snapshots = "(coin \<times> 'o snapshot) list"

record order_books =
  order_books :: "(coin, order_book) btree_map"

definition from_snapshots :: "inner_l4_order snapshots \<Rightarrow> bool \<Rightarrow> order_books" where
  "from_snapshots snapshot ignore_triggers =
     \<lparr>order_books = foldl (\<lambda>m e. bt_insert (fst e) (from_snapshot (snd e) ignore_triggers) m) [] snapshot\<rparr>"

definition obs_add_order_before :: "order_books \<Rightarrow> inner_l4_order \<Rightarrow> oid option \<Rightarrow> bool \<times> order_books" where
  "obs_add_order_before bs order insert_before =
     (let coin = io_coin order;
          (ok, book) = add_order_before (bt_get_or ob_new (order_books bs) coin) order insert_before
      in (ok, bs\<lparr>order_books := bt_insert coin book (order_books bs)\<rparr>))"

definition obs_cancel_order :: "order_books \<Rightarrow> oid \<Rightarrow> coin \<Rightarrow> bool \<times> order_books" where
  "obs_cancel_order bs oid coin =
     (case map_of (order_books bs) coin of
        None \<Rightarrow> (False, bs)
      | Some book \<Rightarrow>
          let (ok, book') = cancel_order book oid
          in (ok, bs\<lparr>order_books := bt_insert coin book' (order_books bs)\<rparr>))"

definition obs_modify_sz :: "order_books \<Rightarrow> oid \<Rightarrow> coin \<Rightarrow> sz \<Rightarrow> bool \<times> order_books" where
  "obs_modify_sz bs oid coin s =
     (case map_of (order_books bs) coin of
        None \<Rightarrow> (False, bs)
      | Some book \<Rightarrow>
          let (ok, book') = modify_sz book oid s
          in (ok, bs\<lparr>order_books := bt_insert coin book' (order_books bs)\<rparr>))"

definition to_snapshots_par :: "order_books \<Rightarrow> inner_l4_order snapshots" where
  "to_snapshots_par bs = map (\<lambda>(c, book). (c, to_snapshot book)) (order_books bs)"

section \<open>Loading a snapshot\<close>

datatype json =
    JNull
  | JBool bool
  | JInt int
  | JFloat string
  | JStr string
  | JArr "json list"
  | JObj "(string \<times> json) list"

fun de_u64 :: "json \<Rightarrow> u64 result" where
  "de_u64 (JInt i) = (if 0 \<le> i \<and> i < 2 ^ 64 then Inr (of_int i) else Inl (JsonError ''u64''))"
| "de_u64 _ = Inl (JsonError ''u64'')"

fun de_string :: "json \<Rightarrow> string result" where
  "de_string (JStr s) = Inr s"
| "de_string _ = Inl (JsonError ''string'')"

text \<open>First error wins, as in \<open>collect::<Result<Vec<_>>>\<close>.\<close>

fun map_result :: "('a \<Rightarrow> 'b result) \<Rightarrow> 'a list \<Rightarrow> 'b list result" where
  "map_result f [] = Inr []"
| "map_result f (x # xs) =
     (case f x of
        Inl e \<Rightarrow> Inl e
      | Inr y \<Rightarrow> (case map_result f xs of Inl e \<Rightarrow> Inl e | Inr ys \<Rightarrow> Inr (y # ys)))"

fun de_vec :: "(json \<Rightarrow> 'r result) \<Rightarrow> json \<Rightarrow> 'r list result" where
  "de_vec de (JArr js) = map_result de js"
| "de_vec de _ = Inl (JsonError ''sequence'')"

fun de_sides :: "(json \<Rightarrow> 'r result) \<Rightarrow> json \<Rightarrow> ('r list \<times> 'r list) result" where
  "de_sides de (JArr [a, b]) =
     (case de_vec de a of
        Inl e \<Rightarrow> Inl e
      | Inr bs \<Rightarrow> (case de_vec de b of Inl e \<Rightarrow> Inl e | Inr as \<Rightarrow> Inr (bs, as)))"
| "de_sides de _ = Inl (JsonError ''an array of length 2'')"

type_synonym 'r raw_book = "string \<times> 'r list \<times> 'r list"

text \<open>\<open>BookSeed\<close>: one \<open>[coin, [bids, asks]]\<close>; out of scope, the second element is not looked at.\<close>

definition book_seed :: "coin_scope \<Rightarrow> (json \<Rightarrow> 'r result) \<Rightarrow> json \<Rightarrow> 'r raw_book option result" where
  "book_seed scope de js =
     (case js of
        JArr [] \<Rightarrow> Inl (InvalidLength 0)
      | JArr (c # rest) \<Rightarrow>
          (case de_string c of
             Inl e \<Rightarrow> Inl e
           | Inr coin \<Rightarrow>
               (case rest of
                  [] \<Rightarrow> Inl (InvalidLength 1)
                | s # others \<Rightarrow>
                    if scope_contains scope coin then
                      (case de_sides de s of
                         Inl e \<Rightarrow> Inl e
                       | Inr sides \<Rightarrow> if others \<noteq> [] then Inl (InvalidLength 3) else Inr (Some (coin, sides)))
                    else if others \<noteq> [] then Inl (InvalidLength 3) else Inr None))
      | _ \<Rightarrow> Inl (JsonError ''[coin, [bids, asks]]''))"

fun books_collect :: "coin_scope \<Rightarrow> (json \<Rightarrow> 'r result) \<Rightarrow> json list \<Rightarrow> 'r raw_book list result" where
  "books_collect scope de [] = Inr []"
| "books_collect scope de (j # js) =
     (case book_seed scope de j of
        Inl e \<Rightarrow> Inl e
      | Inr book \<Rightarrow>
          (case books_collect scope de js of
             Inl e \<Rightarrow> Inl e
           | Inr books \<Rightarrow> Inr ((case book of None \<Rightarrow> [] | Some b \<Rightarrow> [b]) @ books)))"

definition books_seed :: "coin_scope \<Rightarrow> (json \<Rightarrow> 'r result) \<Rightarrow> json \<Rightarrow> 'r raw_book list result" where
  "books_seed scope de js =
     (case js of JArr es \<Rightarrow> books_collect scope de es | _ \<Rightarrow> Inl (JsonError ''a list of [coin, [bids, asks]]''))"

definition snapshot_seed :: "coin_scope \<Rightarrow> (json \<Rightarrow> 'r result) \<Rightarrow> json \<Rightarrow> (u64 \<times> 'r raw_book list) result" where
  "snapshot_seed scope de js =
     (case js of
        JArr [] \<Rightarrow> Inl (InvalidLength 0)
      | JArr (h # rest) \<Rightarrow>
          (case de_u64 h of
             Inl e \<Rightarrow> Inl e
           | Inr height \<Rightarrow>
               (case rest of
                  [] \<Rightarrow> Inl (InvalidLength 1)
                | b # others \<Rightarrow>
                    (case books_seed scope de b of
                       Inl e \<Rightarrow> Inl e
                     | Inr books \<Rightarrow> if others \<noteq> [] then Inl (InvalidLength 3) else Inr (height, books))))
      | _ \<Rightarrow> Inl (JsonError ''[height, books]''))"

definition convert_book :: "('r \<Rightarrow> 'o result) \<Rightarrow> 'r raw_book \<Rightarrow> (coin \<times> 'o snapshot) result" where
  "convert_book conv b =
     (let (coin, raw_bids, raw_asks) = b
      in (case map_result conv raw_bids of
            Inl e \<Rightarrow> Inl e
          | Inr bs \<Rightarrow>
              (case map_result conv raw_asks of Inl e \<Rightarrow> Inl e | Inr as \<Rightarrow> Inr (Coin coin, Snapshot bs as))))"

definition load_snapshots_from_str ::
    "(string \<Rightarrow> json result) \<Rightarrow> (json \<Rightarrow> 'r result) \<Rightarrow> ('r \<Rightarrow> 'o result) \<Rightarrow> string \<Rightarrow> coin_scope
     \<Rightarrow> (u64 \<times> 'o snapshots) result" where
  "load_snapshots_from_str parse de conv str scope =
     (case parse str of
        Inl e \<Rightarrow> Inl e
      | Inr js \<Rightarrow>
          (case snapshot_seed scope de js of
             Inl e \<Rightarrow> Inl e
           | Inr (height, snapshot) \<Rightarrow>
               (case map_result (convert_book conv) snapshot of
                  Inl e \<Rightarrow> Inl e
                | Inr books \<Rightarrow> Inr (height, foldl (\<lambda>m e. AList.update (fst e) (snd e) m) [] books))))"

section \<open>Each coin has its own book\<close>

definition books_inv :: "order_books \<Rightarrow> bool" where
  "books_inv bs \<longleftrightarrow> bt_sorted (order_books bs) \<and>
     (\<forall>e \<in> set (order_books bs). ob_inv (snd e) \<and> (\<forall>o1 \<in> set (snap_orders (to_snapshot (snd e))). io_coin o1 = fst e))"

definition book_of :: "order_books \<Rightarrow> coin \<Rightarrow> order_book" where
  "book_of bs c = bt_get_or ob_new (order_books bs) c"

lemma book_of_insert [simp]:
  "book_of (bs\<lparr>order_books := bt_insert c b (order_books bs)\<rparr>) d = (if d = c then b else book_of bs d)"
  by (simp add: book_of_def bt_get_or_def)

lemma snap_orders_new [simp]: "snap_orders (to_snapshot ob_new) = []"
  by (simp add: snap_orders_def to_snapshot_def ob_new_def)

lemma books_inv_book:
  "books_inv bs \<Longrightarrow> ob_inv (book_of bs c) \<and> (\<forall>o1 \<in> set (snap_orders (to_snapshot (book_of bs c))). io_coin o1 = c)"
  by (cases "map_of (order_books bs) c")
    (auto simp: books_inv_def book_of_def bt_get_or_def ob_inv_new dest!: map_of_SomeD)

lemma books_inv_put:
  assumes "books_inv bs" and "ob_inv b" and "\<forall>o1 \<in> set (snap_orders (to_snapshot b)). io_coin o1 = c"
  shows "books_inv (bs\<lparr>order_books := bt_insert c b (order_books bs)\<rparr>)"
proof -
  have "e \<in> set (bt_insert c b m) \<Longrightarrow> e = (c, b) \<or> e \<in> set m" for e m
    by (induction m) (auto split: if_splits)
  then show ?thesis using assms by (fastforce simp: books_inv_def)
qed

text \<open>No operation invents an order of another coin.\<close>

lemma spec_add_coins:
  "o2 \<in> set (snap_orders (snd (spec_add q o1 before))) \<Longrightarrow>
    io_coin o2 = io_coin o1 \<or> io_coin o2 \<in> io_coin ` set (snap_orders q)"
proof -
  let ?s = "io_side o1"
  obtain n r f where mq: "match_queue o1 (queue_of q (opposite ?s)) = (n, r, f)" by (metis prod_cases3)
  let ?hit = "\<lambda>m. accepts ?s (io_limit_px o1) (io_limit_px m)"
  have r: "io_coin x \<in> io_coin ` set (queue_of q (opposite ?s))" if "x \<in> set r" for x
  proof -
    from mq have "x \<in> set (fst (snd (consume (qty (io_sz o1)) (takeWhile ?hit (queue_of q (opposite ?s)))))) \<or>
        x \<in> set (dropWhile ?hit (queue_of q (opposite ?s)))"
      using that by (auto simp: match_queue_def Let_def case_prod_beta)
    then show ?thesis
    proof
      assume "x \<in> set (fst (snd (consume (qty (io_sz o1)) (takeWhile ?hit (queue_of q (opposite ?s))))))"
      then obtain m i where "m \<in> set (takeWhile ?hit (queue_of q (opposite ?s)))" "x = resize m i" by (rule consume_kept)
      then show ?thesis by (auto dest: set_takeWhileD)
    qed (auto dest: set_dropWhileD)
  qed
  assume "o2 \<in> set (snap_orders (snd (spec_add q o1 before)))"
  then have "o2 \<in> set (queue_of (snd (spec_add q o1 before)) ?s) \<or> o2 \<in> set (queue_of (snd (spec_add q o1 before)) (opposite ?s))"
    unfolding snap_orders_sides [of _ ?s] by blast
  then have "o2 = resize o1 n \<or> o2 \<in> set (queue_of q ?s) \<or> o2 \<in> set r"
    by (auto simp: spec_add_def mq Let_def set_queue_back set_queue_before split: option.splits if_splits)
  then show ?thesis using r unfolding snap_orders_sides [of q ?s] by auto
qed

lemma cancel_modify_new [simp]: "cancel_order ob_new k = (False, ob_new)" "modify_sz ob_new k z = (False, ob_new)"
  by (simp_all add: cancel_order_def modify_sz_def ob_new_def)

lemma snap_orders_cancel: "set (snap_orders (snd (spec_cancel q k))) \<subseteq> set (snap_orders q)"
  by (auto simp: spec_cancel_def snap_orders_def map_queues_def)

lemma snap_orders_modify:
  "o2 \<in> set (snap_orders (snd (spec_modify q k z))) \<Longrightarrow> \<exists>o1 \<in> set (snap_orders q). io_coin o2 = io_coin o1"
  by (auto simp: spec_modify_def snap_orders_def map_queues_def)

lemma obs_add_inv:
  assumes "books_inv bs" and "oid_to_side_px (book_of bs (io_coin o1)) (order_oid o1) = None"
  shows "books_inv (snd (obs_add_order_before bs o1 before))"
proof -
  let ?b = "book_of bs (io_coin o1)"
  have inv: "ob_inv ?b" and coins: "\<forall>o2 \<in> set (snap_orders (to_snapshot ?b)). io_coin o2 = io_coin o1"
    using books_inv_book [OF assms(1)] by auto
  note ref = add_order_before_refines [OF inv absent_order [OF inv assms(2)], of before]
  have snap: "to_snapshot (snd (add_order_before ?b o1 before)) = snd (spec_add (to_snapshot ?b) o1 before)"
    using ref by (auto simp: prod_eq_iff)
  have "\<forall>o2 \<in> set (snap_orders (to_snapshot (snd (add_order_before ?b o1 before)))). io_coin o2 = io_coin o1"
    unfolding snap using spec_add_coins [of _ "to_snapshot ?b" o1 before] coins by auto
  from books_inv_put [OF assms(1) conjunct1 [OF ref] this] show ?thesis
    by (simp add: obs_add_order_before_def book_of_def Let_def case_prod_beta)
qed

lemma obs_cancel_inv:
  assumes "books_inv bs"
  shows "books_inv (snd (obs_cancel_order bs k c))"
proof (cases "map_of (order_books bs) c")
  case (Some b)
  then have b: "book_of bs c = b" by (simp add: book_of_def bt_get_or_def)
  have inv: "ob_inv b" and coins: "\<forall>o2 \<in> set (snap_orders (to_snapshot b)). io_coin o2 = c"
    using books_inv_book [OF assms, of c] b by auto
  note ref = cancel_order_refines [OF inv, of k]
  have snap: "to_snapshot (snd (cancel_order b k)) = snd (spec_cancel (to_snapshot b) k)"
    using ref by (auto simp: prod_eq_iff)
  have "\<forall>o2 \<in> set (snap_orders (to_snapshot (snd (cancel_order b k)))). io_coin o2 = c"
    unfolding snap using snap_orders_cancel coins by blast
  from books_inv_put [OF assms conjunct1 [OF ref] this] show ?thesis
    using Some by (simp add: obs_cancel_order_def Let_def case_prod_beta)
qed (use assms in \<open>simp add: obs_cancel_order_def\<close>)

lemma obs_modify_inv:
  assumes "books_inv bs"
  shows "books_inv (snd (obs_modify_sz bs k c z))"
proof (cases "map_of (order_books bs) c")
  case (Some b)
  then have b: "book_of bs c = b" by (simp add: book_of_def bt_get_or_def)
  have inv: "ob_inv b" and coins: "\<forall>o2 \<in> set (snap_orders (to_snapshot b)). io_coin o2 = c"
    using books_inv_book [OF assms, of c] b by auto
  note ref = modify_sz_refines [OF inv, of k z]
  have snap: "to_snapshot (snd (modify_sz b k z)) = snd (spec_modify (to_snapshot b) k z)"
    using ref by (auto simp: prod_eq_iff)
  have "\<forall>o2 \<in> set (snap_orders (to_snapshot (snd (modify_sz b k z)))). io_coin o2 = c"
    unfolding snap using snap_orders_modify coins by metis
  from books_inv_put [OF assms conjunct1 [OF ref] this] show ?thesis
    using Some by (simp add: obs_modify_sz_def Let_def case_prod_beta)
qed (use assms in \<open>simp add: obs_modify_sz_def\<close>)

lemmas obs_inv [inv_intros] = obs_add_inv obs_cancel_inv obs_modify_inv

text \<open>What each operation does to each coin's book.\<close>

lemma book_of_add:
  "fst (obs_add_order_before bs o1 before) = fst (add_order_before (book_of bs (io_coin o1)) o1 before)"
  "book_of (snd (obs_add_order_before bs o1 before)) c =
     (if c = io_coin o1 then snd (add_order_before (book_of bs c) o1 before) else book_of bs c)"
  by (auto simp: obs_add_order_before_def Let_def case_prod_beta book_of_def bt_get_or_def)

lemma book_of_cancel:
  "fst (obs_cancel_order bs k d) = fst (cancel_order (book_of bs d) k)"
  "book_of (snd (obs_cancel_order bs k d)) c = (if c = d then snd (cancel_order (book_of bs c) k) else book_of bs c)"
  by (auto simp: obs_cancel_order_def Let_def case_prod_beta book_of_def bt_get_or_def split: option.splits)

lemma book_of_modify:
  "fst (obs_modify_sz bs k d z) = fst (modify_sz (book_of bs d) k z)"
  "book_of (snd (obs_modify_sz bs k d z)) c = (if c = d then snd (modify_sz (book_of bs c) k z) else book_of bs c)"
  by (auto simp: obs_modify_sz_def Let_def case_prod_beta book_of_def bt_get_or_def split: option.splits)

section \<open>Runs over the collection\<close>

definition ops_of_coin :: "coin \<Rightarrow> (coin \<times> book_op) list \<Rightarrow> book_op list" where
  "ops_of_coin c ops = map snd (filter (\<lambda>(d, _). d = c) ops)"

lemma ops_of_coin_simps [simp]:
  "ops_of_coin c [] = []" "ops_of_coin c ((d, op) # ops) = (if d = c then op # ops_of_coin c ops else ops_of_coin c ops)"
  "ops_of_coin c (ops @ ops') = ops_of_coin c ops @ ops_of_coin c ops'"
  by (auto simp: ops_of_coin_def)

lemma ops_of_coin_set: "op \<in> set (ops_of_coin c ops) \<longleftrightarrow> (c, op) \<in> set ops"
  by (force simp: ops_of_coin_def)

text \<open>An operation on the collection names its coin; an added order carries it.\<close>

fun obs_step :: "order_books \<Rightarrow> coin \<times> book_op \<Rightarrow> bool \<times> order_books" where
  "obs_step bs (c, AddOrder o1 before) = obs_add_order_before bs o1 before"
| "obs_step bs (c, CancelOrder k) = obs_cancel_order bs k c"
| "obs_step bs (c, ModifySz k z) = obs_modify_sz bs k c z"

fun own_coin :: "coin \<times> book_op \<Rightarrow> bool" where
  "own_coin (c, AddOrder o1 before) = (io_coin o1 = c)"
| "own_coin (c, CancelOrder k) = True"
| "own_coin (c, ModifySz k z) = True"

fun run_books :: "order_books \<Rightarrow> (coin \<times> book_op) list \<Rightarrow> bool list \<times> order_books" where
  "run_books bs [] = ([], bs)"
| "run_books bs (x # xs) = (let (r, bs') = obs_step bs x; (rs, bs'') = run_books bs' xs in (r # rs, bs''))"

text \<open>The answers to the operations of one coin, in order.\<close>

fun answers_of_coin :: "coin \<Rightarrow> (coin \<times> book_op) list \<Rightarrow> bool list \<Rightarrow> bool list" where
  "answers_of_coin c ((d, op) # xs) (r # rs) = (if d = c then r # answers_of_coin c xs rs else answers_of_coin c xs rs)"
| "answers_of_coin c _ _ = []"

lemma obs_step_coin:
  "own_coin (d, op) \<Longrightarrow> fst (obs_step bs (d, op)) = fst (ob_step (book_of bs d) op)"
  "own_coin (d, op) \<Longrightarrow>
    book_of (snd (obs_step bs (d, op))) c = (if c = d then snd (ob_step (book_of bs c) op) else book_of bs c)"
  by (cases op; auto simp: book_of_add book_of_cancel book_of_modify)+

lemma absent_index:
  "ob_inv b \<Longrightarrow> k \<notin> order_oid ` set (snap_orders (to_snapshot b)) \<Longrightarrow> oid_to_side_px b k = None"
  by (simp add: ob_inv_def map_of_eq_None_iff image_image)

lemma obs_step_inv:
  assumes "books_inv bs" and "own_coin (d, op)" and "op_allowed (to_snapshot (book_of bs d)) op"
  shows "books_inv (snd (obs_step bs (d, op)))"
proof (cases op)
  case (AddOrder o1 before)
  have "ob_inv (book_of bs d)" using books_inv_book [OF assms(1)] by blast
  then have "oid_to_side_px (book_of bs d) (order_oid o1) = None"
    using assms(2,3) AddOrder by (simp add: absent_index)
  then show ?thesis using assms(1,2) AddOrder by (auto intro: obs_add_inv)
qed (use assms(1) in \<open>auto intro: obs_inv\<close>)

lemma obs_step_keys:
  "own_coin (d, op) \<Longrightarrow> fst ` set (order_books (snd (obs_step bs (d, op)))) =
    fst ` set (order_books bs) \<union> (if \<exists>o1 before. op = AddOrder o1 before then {d} else {})"
proof (cases op)
  case (CancelOrder k)
  then show ?thesis using map_of_SomeD [of "order_books bs" d]
    by (force simp: obs_cancel_order_def Let_def case_prod_beta split: option.splits)
next
  case (ModifySz k z)
  then show ?thesis using map_of_SomeD [of "order_books bs" d]
    by (force simp: obs_modify_sz_def Let_def case_prod_beta split: option.splits)
qed (auto simp: obs_add_order_before_def Let_def case_prod_beta)

text \<open>A run over the collection is one run per coin.\<close>

lemma run_books_coin:
  "\<forall>x \<in> set ops. own_coin x \<Longrightarrow> run_books bs ops = (rs, bs') \<Longrightarrow>
    run_book ob_step (book_of bs c) (ops_of_coin c ops) = (answers_of_coin c ops rs, book_of bs' c)"
proof (induction ops arbitrary: bs rs)
  case (Cons x ops)
  obtain d op where x: "x = (d, op)" by (cases x)
  obtain r bs1 rs1 where s: "obs_step bs (d, op) = (r, bs1)" "run_books bs1 ops = (rs1, bs')" "rs = r # rs1"
    using Cons.prems(2) by (auto simp: x Let_def split: prod.splits)
  have own: "own_coin (d, op)" using Cons.prems(1) by (simp add: x)
  note one = obs_step_coin [OF own, of bs, unfolded s(1) fst_conv snd_conv]
  have "ob_step (book_of bs d) op = (r, book_of bs1 d)" using one by (simp add: prod_eq_iff)
  moreover have "run_book ob_step (book_of bs1 c) (ops_of_coin c ops) = (answers_of_coin c ops rs1, book_of bs' c)"
    using Cons.prems(1) by (intro Cons.IH s(2)) simp
  ultimately show ?case using one(2) [of c] by (cases "c = d") (simp_all add: x s(3))
qed simp

lemma run_books_inv:
  "books_inv bs \<Longrightarrow> \<forall>x \<in> set ops. own_coin x \<Longrightarrow>
    \<forall>c. ops_allowed (to_snapshot (book_of bs c)) (ops_of_coin c ops) \<Longrightarrow> books_inv (snd (run_books bs ops))"
proof (induction ops arbitrary: bs)
  case (Cons x ops)
  obtain d op where x: "x = (d, op)" by (cases x)
  have own: "own_coin (d, op)" using Cons.prems(2) by (simp add: x)
  have ok: "op_allowed (to_snapshot (book_of bs d)) op"
    using Cons.prems(3) [rule_format, of d] by (simp add: x)
  let ?bs = "snd (obs_step bs (d, op))"
  have view: "to_snapshot (book_of ?bs d) = snd (spec_step (to_snapshot (book_of bs d)) op)"
    using ob.view_step [OF conjunct1 [OF books_inv_book [OF Cons.prems(1)]] ok] obs_step_coin(2) [OF own, of bs d]
    by (auto simp: prod_eq_iff)
  have "\<forall>c. ops_allowed (to_snapshot (book_of ?bs c)) (ops_of_coin c ops)"
  proof
    fix c
    from Cons.prems(3) [rule_format, of c] show "ops_allowed (to_snapshot (book_of ?bs c)) (ops_of_coin c ops)"
      using view obs_step_coin(2) [OF own, of bs c] by (cases "c = d") (simp_all add: x)
  qed
  then have "books_inv (snd (run_books ?bs ops))"
    using Cons.prems(2) by (intro Cons.IH obs_step_inv [OF Cons.prems(1) own ok]) auto
  then show ?case by (simp add: x Let_def case_prod_beta)
qed simp

lemma run_books_keys:
  "\<forall>x \<in> set ops. own_coin x \<Longrightarrow> fst ` set (order_books (snd (run_books bs ops))) =
    fst ` set (order_books bs) \<union> {c. \<exists>o1 before. (c, AddOrder o1 before) \<in> set ops}"
proof (induction ops arbitrary: bs)
  case (Cons x ops)
  obtain d op where x: "x = (d, op)" by (cases x)
  have own: "own_coin (d, op)" using Cons.prems by (simp add: x)
  from Cons obs_step_keys [OF own, of bs] show ?case by (auto simp: x Let_def case_prod_beta split: if_splits)
qed simp

text \<open>A well-formed collection is determined by its coins and their books.\<close>

lemma books_eqI:
  assumes "books_inv bs" and "books_inv bs'" and "fst ` set (order_books bs) = fst ` set (order_books bs')"
    and "book_of bs = book_of bs'"
  shows "bs = bs'"
proof -
  have sorted: "bt_sorted (order_books bs)" "bt_sorted (order_books bs')" using assms by (simp_all add: books_inv_def)
  have "map_of (order_books bs) c = map_of (order_books bs') c" for c
  proof (cases "c \<in> fst ` set (order_books bs)")
    case True
    with assms(3) obtain b b' where "map_of (order_books bs) c = Some b" "map_of (order_books bs') c = Some b'"
      by (metis map_of_eq_None_iff not_Some_eq)
    with fun_cong [OF assms(4), of c] show ?thesis by (simp add: book_of_def bt_get_or_def)
  next
    case False
    with assms(3) show ?thesis by (metis map_of_eq_None_iff)
  qed
  then have "(c, b) \<in> set (order_books bs) \<longleftrightarrow> (c, b) \<in> set (order_books bs')" for c b
    using map_of_eq_Some_iff [OF bt_sorted_distinct [OF sorted(1)], of c b]
      map_of_eq_Some_iff [OF bt_sorted_distinct [OF sorted(2)], of c b] by simp
  then have "set (order_books bs) = set (order_books bs')" by (intro set_eqI) (simp add: split_paired_all)
  moreover have "sorted (map fst (order_books bs))" "sorted (map fst (order_books bs'))"
    using sorted strict_sorted_iff by auto
  ultimately have "order_books bs = order_books bs'"
    using bt_sorted_distinct [OF sorted(1)] bt_sorted_distinct [OF sorted(2)]
    by (intro map_sorted_distinct_set_unique [of fst]) (simp_all add: distinct_map)
  then show ?thesis by simp
qed

text \<open>
  C15. Coins do not interfere. In any run of adds, cancels and resizes over the collection that adds no id already
  resting on its coin's book, each coin's answers and its book are those of its own operations run alone on its own
  price-time queues, whatever is done to other coins in between (order ids of different coins may coincide). So the
  interleaving is irrelevant: any other run with the same operations per coin, in the same order per coin, ends in
  the same collection and answers each coin alike.
\<close>

theorem coins_do_not_interfere:
  assumes "books_inv bs" and "\<forall>x \<in> set ops. own_coin x"
    and "\<forall>c. ops_allowed (to_snapshot (book_of bs c)) (ops_of_coin c ops)"
    and "run_books bs ops = (answers, bs')"
  shows "books_inv bs' \<and>
    (\<forall>c. run_book spec_step (to_snapshot (book_of bs c)) (ops_of_coin c ops) =
      (answers_of_coin c ops answers, to_snapshot (book_of bs' c))) \<and>
    (\<forall>ops'. (\<forall>c. ops_of_coin c ops' = ops_of_coin c ops) \<longrightarrow>
      (\<exists>answers'. run_books bs ops' = (answers', bs') \<and>
        (\<forall>c. answers_of_coin c ops' answers' = answers_of_coin c ops answers)))"
proof (intro conjI allI impI)
  show inv: "books_inv bs'" using run_books_inv [OF assms(1-3)] assms(4) by simp
  note run = run_books_coin [OF assms(2,4)]
  show "run_book spec_step (to_snapshot (book_of bs c)) (ops_of_coin c ops) =
      (answers_of_coin c ops answers, to_snapshot (book_of bs' c))" for c
    using ob.run_view [OF conjunct1 [OF books_inv_book [OF assms(1)]] assms(3) [rule_format, of c]]
    by (simp add: run)
  fix ops' assume same: "\<forall>c. ops_of_coin c ops' = ops_of_coin c ops"
  then have set: "set ops' = set ops" by (metis ops_of_coin_set surj_pair subsetI subset_antisym)
  obtain answers' bs2 where run': "run_books bs ops' = (answers', bs2)" by fastforce
  have own: "\<forall>x \<in> set ops'. own_coin x" using assms(2) set by simp
  note coin' = run_books_coin [OF own run', unfolded same [rule_format]]
  have "bs2 = bs'"
  proof (rule books_eqI)
    show "books_inv bs2" using run_books_inv [OF assms(1) own] assms(3) run' same by simp
    show "fst ` set (order_books bs2) = fst ` set (order_books bs')"
      using run_books_keys [OF own, of bs] run_books_keys [OF assms(2), of bs] run' assms(4) set by simp
    show "book_of bs2 = book_of bs'" using run coin' by (auto simp: fun_eq_iff)
  qed (rule inv)
  then show "\<exists>answers'. run_books bs ops' = (answers', bs') \<and>
      (\<forall>c. answers_of_coin c ops' answers' = answers_of_coin c ops answers)"
    using run run' coin' by auto
qed

text \<open>Two coins share the order id 1; one interleaving and the block order of the same operations.\<close>

definition two_coin_ops :: "(coin \<times> book_op) list" where
  "two_coin_ops =
     [(Coin ''BTC'', AddOrder (mk_order Bid 100 5 1) None),
      (Coin ''ETH'', AddOrder ((mk_order Ask 90 3 1)\<lparr>io_coin := Coin ''ETH''\<rparr>) None),
      (Coin ''BTC'', CancelOrder (Oid 1)),
      (Coin ''ETH'', ModifySz (Oid 1) (Sz 2)),
      (Coin ''BTC'', ModifySz (Oid 1) (Sz 4))]"

theorem coins_do_not_interfere_witness:
  "let bs = \<lparr>order_books = []\<rparr>; ops' = filter (\<lambda>x. fst x = Coin ''ETH'') two_coin_ops @ filter (\<lambda>x. fst x = Coin ''BTC'') two_coin_ops
   in case run_books bs two_coin_ops of (answers, bs') \<Rightarrow>
     answers = [True, True, True, True, False] \<and>
     to_snapshot (book_of bs' (Coin ''ETH'')) = Snapshot [] [(mk_order Ask 90 2 1)\<lparr>io_coin := Coin ''ETH''\<rparr>] \<and>
     run_books bs ops' = ([True, True, True, True, False], bs')"
proof -
  let ?bs = "\<lparr>order_books = []\<rparr>"
  let ?ops = "filter (\<lambda>x. fst x = Coin ''ETH'') two_coin_ops @ filter (\<lambda>x. fst x = Coin ''BTC'') two_coin_ops"
  obtain answers bs' where run: "run_books ?bs two_coin_ops = (answers, bs')" by fastforce
  have inv: "books_inv ?bs" by (simp add: books_inv_def)
  have own: "\<forall>x \<in> set two_coin_ops. own_coin x" by (simp add: two_coin_ops_def mk_order_def)
  have empty: "to_snapshot (book_of ?bs c) = Snapshot [] []" for c by (simp add: book_of_def bt_get_or_def ob.view_empty)
  have btc: "ops_allowed (Snapshot [] []) (ops_of_coin (Coin ''BTC'') two_coin_ops)" by code_simp
  have eth: "ops_allowed (Snapshot [] []) (ops_of_coin (Coin ''ETH'') two_coin_ops)" by code_simp
  have "ops_of_coin c two_coin_ops = []" if "c \<noteq> Coin ''BTC''" "c \<noteq> Coin ''ETH''" for c
    using that by (simp add: two_coin_ops_def)
  then have ok: "\<forall>c. ops_allowed (to_snapshot (book_of ?bs c)) (ops_of_coin c two_coin_ops)"
    unfolding empty using btc eth by (metis ops_allowed.simps(1))
  have same: "\<forall>c. ops_of_coin c ?ops = ops_of_coin c two_coin_ops" by (simp add: two_coin_ops_def)
  have a: "answers = [True, True, True, True, False]"
  proof -
    have "fst (run_books ?bs two_coin_ops) = [True, True, True, True, False]" by code_simp
    with run show ?thesis by simp
  qed
  note all = coins_do_not_interfere [OF inv own ok run]
  from all have "run_book spec_step (Snapshot [] []) (ops_of_coin (Coin ''ETH'') two_coin_ops) =
      (answers_of_coin (Coin ''ETH'') two_coin_ops answers, to_snapshot (book_of bs' (Coin ''ETH'')))"
    unfolding empty by blast
  moreover have "snd (run_book spec_step (Snapshot [] []) (ops_of_coin (Coin ''ETH'') two_coin_ops)) =
      Snapshot [] [(mk_order Ask 90 2 1)\<lparr>io_coin := Coin ''ETH''\<rparr>]" by code_simp
  ultimately have e: "to_snapshot (book_of bs' (Coin ''ETH'')) = Snapshot [] [(mk_order Ask 90 2 1)\<lparr>io_coin := Coin ''ETH''\<rparr>]"
    by simp
  from all same obtain answers' where r': "run_books ?bs ?ops = (answers', bs')" by blast
  have "fst (run_books ?bs ?ops) = [True, True, True, True, False]" by code_simp
  with r' have "answers' = [True, True, True, True, False]" by simp
  with r' run a e show ?thesis by (simp add: Let_def)
qed

section \<open>Snapshot of all books\<close>

lemma from_to_snapshots:
  assumes inv: "books_inv bs"
    and "\<forall>e \<in> set (order_books bs). uncrossed (to_snapshot (snd e)) \<and> (\<forall>x \<in> set (snap_orders (to_snapshot (snd e))). live x)"
  shows "from_snapshots (to_snapshots_par bs) False = bs"
proof -
  let ?m = "order_books bs"
  have "from_snapshot (to_snapshot (snd e)) False = snd e" if "e \<in> set ?m" for e
    using that assms by (intro from_to_snapshot) (auto simp: books_inv_def)
  then have same: "map (\<lambda>e. (fst e, from_snapshot (to_snapshot (snd e)) False)) ?m = ?m"
    by (simp add: map_idI)
  have "foldl (\<lambda>m e. bt_insert (fst e) (from_snapshot (snd e) False) m) [] (to_snapshots_par bs) =
      foldl (\<lambda>m e. bt_insert (fst e) (snd e) m) [] (map (\<lambda>e. (fst e, from_snapshot (to_snapshot (snd e)) False)) ?m)"
    by (simp add: to_snapshots_par_def foldl_map case_prod_beta)
  also have "\<dots> = [] @ ?m" unfolding same by (rule bt_collect_sorted) (use inv in \<open>simp add: books_inv_def\<close>)
  finally show ?thesis by (simp add: from_snapshots_def)
qed

text \<open>
  C16. Taking the snapshot of every coin and rebuilding from it gives back the same collection of
  books, for well-formed uncrossed books with positive resting sizes.
\<close>

theorem all_books_round_trip:
  assumes "books_inv bs"
    and "\<forall>e \<in> set (order_books bs). uncrossed (to_snapshot (snd e)) \<and>
      (\<forall>x \<in> set (snap_orders (to_snapshot (snd e))). sz_is_positive (io_sz x))"
  shows "from_snapshots (to_snapshots_par bs) False = bs"
  using from_to_snapshots [OF assms(1)] assms(2) by (simp add: live_def)

theorem all_books_round_trip_witness:
  "let bs = \<lparr>order_books = [(Coin ''BTC'', sample_book)]\<rparr>
   in books_inv bs \<and> from_snapshots (to_snapshots_par bs) False = bs"
proof -
  let ?bs = "\<lparr>order_books = [(Coin ''BTC'', sample_book)]\<rparr>"
  have "books_inv ?bs" using sample_inv by (simp add: books_inv_def snap_orders_def mk_order_def)
  moreover from this have "from_snapshots (to_snapshots_par ?bs) False = ?bs"
    by (rule all_books_round_trip)
      (simp add: sample_inv uncrossed_def mk_order_def less_px_def snap_orders_def sz_is_positive_def)
  ultimately show ?thesis by (simp add: Let_def)
qed

section \<open>Loading in scope\<close>

definition in_scope_book :: "coin_scope \<Rightarrow> 'r raw_book \<Rightarrow> bool" where
  "in_scope_book scope b = scope_contains scope (fst b)"

lemma scope_all_contains [simp]: "scope_contains scope_all c"
  by (simp add: scope_contains_def scope_all_def)

lemma book_seed_scope:
  assumes "book_seed scope_all de j = Inr r"
  obtains b where "r = Some b" and "book_seed scope de j = Inr (if in_scope_book scope b then Some b else None)"
  using assms by (auto simp: book_seed_def in_scope_book_def split: json.splits list.splits sum.splits if_splits)

lemma books_collect_scope:
  "books_collect scope_all de js = Inr bs \<Longrightarrow> books_collect scope de js = Inr (filter (in_scope_book scope) bs)"
proof (induction js arbitrary: bs)
  case (Cons j js)
  then obtain r bs' where r: "book_seed scope_all de j = Inr r" "books_collect scope_all de js = Inr bs'"
    and bs: "bs = (case r of None \<Rightarrow> [] | Some b \<Rightarrow> [b]) @ bs'"
    by (auto split: sum.splits)
  obtain b where "r = Some b" "book_seed scope de j = Inr (if in_scope_book scope b then Some b else None)"
    by (rule book_seed_scope [OF r(1)])
  with Cons.IH [OF r(2)] bs show ?case by simp
qed simp

lemma map_result_filter:
  assumes "map_result f xs = Inr ys" and "\<And>x y. f x = Inr y \<Longrightarrow> P x = Q y"
  shows "map_result f (filter P xs) = Inr (filter Q ys)"
  using assms(1)
proof (induction xs arbitrary: ys)
  case (Cons x xs)
  then show ?case using assms(2) by (auto split: sum.splits)
qed simp

lemma filter_update:
  "filter (\<lambda>e. P (fst e)) (AList.update k v m) =
     (if P k then AList.update k v (filter (\<lambda>e. P (fst e)) m) else filter (\<lambda>e. P (fst e)) m)"
  by (induction m) (auto split: if_splits)

lemma filter_collect:
  "filter (\<lambda>e. P (fst e)) (foldl (\<lambda>m e. AList.update (fst e) (snd e) m) m es) =
     foldl (\<lambda>m e. AList.update (fst e) (snd e) m) (filter (\<lambda>e. P (fst e)) m) (filter (\<lambda>e. P (fst e)) es)"
  by (induction es arbitrary: m) (auto simp: filter_update)

text \<open>
  C17. Loading a snapshot under a scope gives the same height and exactly the in-scope books of
  the full snapshot: whatever text loads with every market in scope loads under any scope, and
  the result is the restriction to the coins in scope.
\<close>

theorem scoped_load_is_restriction:
  assumes "load_snapshots_from_str parse de conv str scope_all = Inr (height, books)"
  shows "load_snapshots_from_str parse de conv str scope =
    Inr (height, filter (\<lambda>e. scope_contains scope (coin_value (fst e))) books)"
proof -
  from assms obtain js raws conved where js: "parse str = Inr js"
    and seed: "snapshot_seed scope_all de js = Inr (height, raws)"
    and conved: "map_result (convert_book conv) raws = Inr conved"
    and books: "books = foldl (\<lambda>m e. AList.update (fst e) (snd e) m) [] conved"
    by (auto simp: load_snapshots_from_str_def split: sum.splits prod.splits)
  from seed obtain h es where h: "js = JArr [h, JArr es]" "de_u64 h = Inr height"
    "books_collect scope_all de es = Inr raws"
    by (auto simp: snapshot_seed_def books_seed_def split: json.splits list.splits sum.splits if_splits)
  have "snapshot_seed scope de js = Inr (height, filter (in_scope_book scope) raws)"
    using h books_collect_scope [OF h(3), of scope] by (simp add: snapshot_seed_def books_seed_def)
  moreover have "map_result (convert_book conv) (filter (in_scope_book scope) raws) =
      Inr (filter (\<lambda>e. scope_contains scope (coin_value (fst e))) conved)"
    by (rule map_result_filter [OF conved])
      (auto simp: convert_book_def in_scope_book_def split: sum.splits prod.splits)
  ultimately show ?thesis
    using js filter_collect [of "\<lambda>c. scope_contains scope (coin_value c)" "[]" conved]
    by (simp add: load_snapshots_from_str_def books)
qed

theorem scoped_load_is_restriction_witness:
  "let parse = (\<lambda>s. Inr (JArr [JInt 7, JArr [JArr [JStr ''BTC'', JArr [JArr [JInt 1], JArr []]],
         JArr [JStr ''#12'', JArr [JArr [], JArr [JInt 2]]]]]))
   in load_snapshots_from_str parse de_u64 Inr ''text'' scope_all =
        Inr (7, [(Coin ''BTC'', Snapshot [1] []), (Coin ''#12'', Snapshot [] [2])]) \<and>
      load_snapshots_from_str parse de_u64 Inr ''text'' scope_default = Inr (7, [(Coin ''#12'', Snapshot [] [2])])"
proof -
  let ?parse = "\<lambda>s :: string. Inr (JArr [JInt 7, JArr [JArr [JStr ''BTC'', JArr [JArr [JInt 1], JArr []]],
         JArr [JStr ''#12'', JArr [JArr [], JArr [JInt 2]]]]])"
  have all: "load_snapshots_from_str ?parse de_u64 Inr ''text'' scope_all =
      Inr (7, [(Coin ''BTC'', Snapshot [1] []), (Coin ''#12'', Snapshot [] [2])])"
    by (simp add: load_snapshots_from_str_def snapshot_seed_def books_seed_def book_seed_def convert_book_def)
  from scoped_load_is_restriction [OF this, of scope_default] show ?thesis
    using all by (simp add: Let_def scope_contains_def scope_default_def is_hip4_coin_def is_digit_def)
qed

end
