(* ===== verification/Snapshot_Audit.thy ===== *)
theory Snapshot_Audit
  imports Multi_Book
begin

text \<open>
  \<open>validate_snapshot_consistency\<close> (\<open>server/src/listeners/order_book/utils.rs\<close>): the comparison of the live books with
  a snapshot of the node at the same height. A \<open>HashMap\<close> of books is an association list with distinct coins.
\<close>

datatype snapshot_consistency = Equal | EmptyBooksAdded

text \<open>Two sides are compared order by order; \<open>zip\<close> stops at the shorter one, after the lengths agreed.\<close>

definition same_orders :: "'o list \<Rightarrow> 'o list \<Rightarrow> bool" where
  "same_orders os os' = list_all (\<lambda>(o1, o2). o1 = o2) (zip os os')"

text \<open>The loop over the books of the snapshot; the second argument is \<open>snapshot_map\<close>.\<close>

fun audit_books :: "bool \<Rightarrow> 'o snapshots \<Rightarrow> 'o snapshots \<Rightarrow> 'o snapshots result" where
  "audit_books ignore_spot expected_map [] = Inr expected_map"
| "audit_books ignore_spot expected_map ((coin, book1) # rest) =
     (if ignore_spot \<and> is_spot coin then audit_books ignore_spot expected_map rest
      else
        case map_of expected_map coin of
          Some book2 \<Rightarrow>
            if length (snap_bids book1) \<noteq> length (snap_bids book2) \<or> length (snap_asks book1) \<noteq> length (snap_asks book2)
            then Inl (OrderCountsDiffer (coin_value coin))
            else if \<not> same_orders (snap_bids book1) (snap_bids book2) \<or> \<not> same_orders (snap_asks book1) (snap_asks book2)
            then Inl OrdersDiffer
            else audit_books ignore_spot (AList.delete coin expected_map) rest
        | None \<Rightarrow>
            if snap_bids book1 \<noteq> [] \<or> snap_asks book1 \<noteq> [] then Inl (MissingBook (coin_value coin))
            else audit_books ignore_spot expected_map rest)"

definition validate_snapshot_consistency ::
    "'o snapshots \<Rightarrow> 'o snapshots \<Rightarrow> bool \<Rightarrow> snapshot_consistency result" where
  "validate_snapshot_consistency snapshot expected ignore_spot =
     and_then (audit_books ignore_spot (filter (\<lambda>(c, _). \<not> is_spot c \<or> \<not> ignore_spot) expected) snapshot)
       (\<lambda>left. if \<exists>(c, book) \<in> set left. snap_bids book \<noteq> [] \<or> snap_asks book \<noteq> [] then Inl ExtraOrderBooks
               else Inr (if left = [] then Equal else EmptyBooksAdded))"

section \<open>What the audit decides\<close>

definition no_orders :: "'o snapshot" where
  "no_orders = Snapshot [] []"

text \<open>The orders a snapshot holds for a coin; no book and an empty book hold the same.\<close>

definition orders_for :: "'o snapshots \<Rightarrow> coin \<Rightarrow> 'o snapshot" where
  "orders_for ss c = (case map_of ss c of Some b \<Rightarrow> b | None \<Rightarrow> no_orders)"

lemma same_orders_eq: "length xs = length ys \<Longrightarrow> same_orders xs ys \<longleftrightarrow> xs = ys"
  by (induction xs ys rule: list_induct2) (auto simp: same_orders_def)

lemma snapshot_eq_iff: "a = b \<longleftrightarrow> snap_bids a = snap_bids b \<and> snap_asks a = snap_asks b"
  by (cases a; cases b) auto

lemma orders_for_simps [simp]:
  "orders_for [] c = no_orders"
  "orders_for ((d, b) # ss) c = (if c = d then b else orders_for ss c)"
  "orders_for (AList.delete d ss) c = (if c = d then no_orders else orders_for ss c)"
  by (auto simp: orders_for_def delete_conv')

lemma no_orders_sides [simp]: "snap_bids no_orders = []" "snap_asks no_orders = []"
  by (simp_all add: no_orders_def)

lemma delete_absent: "map_of e c = None \<Longrightarrow> AList.delete c e = e"
  by (simp add: map_of_eq_None_iff delete_id)

lemma audit_step:
  "audit_books ig e ((coin, book) # rest) =
    (if ig \<and> is_spot coin then audit_books ig e rest
     else if book = orders_for e coin then audit_books ig (AList.delete coin e) rest
     else Inl (case map_of e coin of
        None \<Rightarrow> MissingBook (coin_value coin)
      | Some b \<Rightarrow> if length (snap_bids book) \<noteq> length (snap_bids b) \<or> length (snap_asks book) \<noteq> length (snap_asks b)
                  then OrderCountsDiffer (coin_value coin) else OrdersDiffer))"
  by (auto simp: orders_for_def same_orders_eq snapshot_eq_iff no_orders_def delete_absent split: option.splits)

definition considered :: "bool \<Rightarrow> coin \<Rightarrow> bool" where
  "considered ignore_spot c \<longleftrightarrow> \<not> (ignore_spot \<and> is_spot c)"

lemma audit_books_Inr:
  assumes "distinct (map fst ss)"
  shows "audit_books ig e ss = Inr left \<longleftrightarrow>
    (\<forall>(c, b) \<in> set ss. considered ig c \<longrightarrow> b = orders_for e c) \<and>
    left = filter (\<lambda>(c, _). \<not> (considered ig c \<and> c \<in> fst ` set ss)) e"
  using assms
proof (induction ss arbitrary: e)
  case Nil
  then show ?case by auto
next
  case (Cons x ss)
  obtain c b where x: "x = (c, b)" by (cases x)
  have del: "AList.delete c e = filter (\<lambda>(k, _). k \<noteq> c) e" by (induction e) auto
  have others: "orders_for (AList.delete c e) d = orders_for e d" if "d \<in> fst ` set ss" for d
    using that Cons.prems x by auto
  show ?case
  proof (cases "considered ig c")
    case True
    have "filter (\<lambda>(k, _). \<not> (considered ig k \<and> k \<in> fst ` set ss)) (AList.delete c e) =
        filter (\<lambda>(k, _). \<not> (considered ig k \<and> k \<in> fst ` set (x # ss))) e"
      using True unfolding del filter_filter by (intro filter_cong) (auto simp: x)
    moreover have "(\<forall>(d, b) \<in> set ss. considered ig d \<longrightarrow> b = orders_for (AList.delete c e) d) =
        (\<forall>(d, b) \<in> set ss. considered ig d \<longrightarrow> b = orders_for e d)"
      using others by (intro ball_cong refl) force
    moreover have "audit_books ig e (x # ss) = Inr left \<longleftrightarrow>
        b = orders_for e c \<and> audit_books ig (AList.delete c e) ss = Inr left"
      using True unfolding x audit_step considered_def by auto
    moreover have "(\<forall>(d, b) \<in> set (x # ss). considered ig d \<longrightarrow> b = orders_for e d) \<longleftrightarrow>
        b = orders_for e c \<and> (\<forall>(d, b) \<in> set ss. considered ig d \<longrightarrow> b = orders_for e d)"
      using True by (simp add: x)
    ultimately show ?thesis using Cons.IH [of "AList.delete c e"] Cons.prems by (simp only: distinct.simps list.map conj_assoc)
  next
    case False
    have "filter (\<lambda>(k, _). \<not> (considered ig k \<and> k \<in> fst ` set ss)) e =
        filter (\<lambda>(k, _). \<not> (considered ig k \<and> k \<in> fst ` set (x # ss))) e"
      using False by (intro filter_cong) (auto simp: x)
    with False Cons show ?thesis by (simp add: x audit_step considered_def)
  qed
qed

lemma orders_for_mem: "distinct (map fst ss) \<Longrightarrow> (c, b) \<in> set ss \<Longrightarrow> orders_for ss c = b"
  by (simp add: orders_for_def)

lemma orders_for_absent: "c \<notin> fst ` set ss \<Longrightarrow> orders_for ss c = no_orders"
  by (simp add: orders_for_def map_of_eq_None_iff [symmetric])

lemma orders_for_filter: "P c \<Longrightarrow> orders_for (filter (\<lambda>(c, _). P c) ss) c = orders_for ss c"
  by (induction ss) auto

text \<open>
  C25. The audit compares the right things: it accepts exactly when every audited coin holds the same orders,
  in the same queue order, in the local state and in the node's snapshot, an absent book counting as an
  empty one, and it reports \<open>Equal\<close> exactly when the node has no audited book the local state lacks.
\<close>

theorem snapshot_audit_exact:
  assumes "distinct (map fst snapshot)" and "distinct (map fst expected)"
  shows "validate_snapshot_consistency snapshot expected ignore_spot = Inr r \<longleftrightarrow>
    (\<forall>c. \<not> (ignore_spot \<and> is_spot c) \<longrightarrow> orders_for snapshot c = orders_for expected c) \<and>
    r = (if \<forall>c \<in> fst ` set expected. \<not> (ignore_spot \<and> is_spot c) \<longrightarrow> c \<in> fst ` set snapshot
         then Equal else EmptyBooksAdded)"
proof -
  let ?c = "considered ignore_spot"
  let ?e = "filter (\<lambda>(c, _). ?c c) expected"
  let ?left = "filter (\<lambda>(c, _). ?c c \<and> c \<notin> fst ` set snapshot) expected"
  have e: "filter (\<lambda>(c, _). \<not> is_spot c \<or> \<not> ignore_spot) expected = ?e"
    by (intro filter_cong) (auto simp: considered_def)
  have left: "filter (\<lambda>(c, _). \<not> (?c c \<and> c \<in> fst ` set snapshot)) ?e = ?left"
    unfolding filter_filter by (intro filter_cong) auto
  have here: "(\<forall>(c, b) \<in> set snapshot. ?c c \<longrightarrow> b = orders_for ?e c) \<longleftrightarrow>
      (\<forall>c \<in> fst ` set snapshot. ?c c \<longrightarrow> orders_for snapshot c = orders_for expected c)"
    using orders_for_mem [OF assms(1)] orders_for_filter [of ?c] by (force split: prod.splits)
  have rest: "(\<forall>(c, b) \<in> set ?left. b = no_orders) \<longleftrightarrow>
      (\<forall>c. c \<notin> fst ` set snapshot \<longrightarrow> ?c c \<longrightarrow> orders_for snapshot c = orders_for expected c)"
  proof -
    have "orders_for expected c = no_orders" if "c \<notin> fst ` set expected" for c using that by (rule orders_for_absent)
    then show ?thesis
      using orders_for_mem [OF assms(2)] orders_for_absent [of _ snapshot] by (fastforce split: prod.splits)
  qed
  have "left \<noteq> [] \<longleftrightarrow> (\<exists>x. x \<in> set left)" for left :: "'a snapshots" by (cases left) auto
  then have empty: "?left = [] \<longleftrightarrow> (\<forall>c \<in> fst ` set expected. ?c c \<longrightarrow> c \<in> fst ` set snapshot)"
    by (force simp: filter_empty_conv)
  have "validate_snapshot_consistency snapshot expected ignore_spot = Inr r \<longleftrightarrow>
      (\<forall>(c, b) \<in> set snapshot. ?c c \<longrightarrow> b = orders_for ?e c) \<and> (\<forall>(c, b) \<in> set ?left. b = no_orders) \<and>
      r = (if ?left = [] then Equal else EmptyBooksAdded)"
    unfolding validate_snapshot_consistency_def e and_then_Inr audit_books_Inr [OF assms(1)] left
    by (auto simp: snapshot_eq_iff [of _ no_orders])
  then show ?thesis unfolding here rest empty unfolding considered_def by blast
qed

theorem snapshot_audit_exact_witness:
  "let local = [(Coin ''BTC'', Snapshot [1::nat] [2, 3])];
       node = [(Coin ''ETH'', Snapshot [] []), (Coin ''BTC'', Snapshot [1] [2, 3])]
   in validate_snapshot_consistency local node False = Inr EmptyBooksAdded"
  using snapshot_audit_exact [of "[(Coin ''BTC'', Snapshot [1::nat] [2, 3])]"
      "[(Coin ''ETH'', Snapshot [] []), (Coin ''BTC'', Snapshot [1] [2, 3])]" False EmptyBooksAdded]
  by (simp add: Let_def no_orders_def)

end
