(* ===== verification/L2_Levels.thy ===== *)
theory L2_Levels
  imports Order_Book
begin

text \<open>
  The aggregated view of a book, \<open>server/src/order_book/levels.rs\<close>: bucketing of prices to
  significant figures, the one-pass aggregation of price levels into buckets, and its reference
  definition, which groups the levels by bucket. \<open>f64::log10\<close> has no specified precision, so
  \<open>floor(log10(px))\<close> is the parameter \<open>lg\<close> of the model. \<open>None\<close> is a panic (division by zero).
\<close>

section \<open>Bucketing\<close>

text \<open>\<open>Px::num_digits\<close>, with \<open>lg v\<close> for \<open>(v as f64).log10().floor() as u32\<close>.\<close>

definition num_digits :: "(u64 \<Rightarrow> u32) \<Rightarrow> px \<Rightarrow> u32" where
  "num_digits lg p = (if px_value p = 0 then 1 else lg (px_value p) + 1)"

definition u64_div_ceil :: "u64 \<Rightarrow> u64 \<Rightarrow> u64" where
  "u64_div_ceil a b = (let d = a div b; r = a mod b in if r > 0 then d + 1 else d)"

definition bucket :: "(u64 \<Rightarrow> u32) \<Rightarrow> px \<Rightarrow> side \<Rightarrow> u32 option \<Rightarrow> u64 option \<Rightarrow> px option" where
  "bucket lg p s n_sig_figs mantissa =
     (let m = (case mantissa of None \<Rightarrow> 1 | Some m \<Rightarrow> m)
      in (case n_sig_figs of
            None \<Rightarrow> Some p
          | Some n \<Rightarrow>
              let digs = num_digits lg p; e = digs - n; inc = m * 10 ^ e
              in if inc = 0 then None
                 else (case s of
                         Ask \<Rightarrow> Some (Px (u64_div_ceil (px_value p) inc * inc))
                       | Bid \<Rightarrow> Some (Px (px_value p div inc * inc)))))"

section \<open>One pass over the levels\<close>

text \<open>
  \<open>build_l2_level\<close>: the new \<open>cur_level\<close> and \<open>levels\<close>, and whether the caller should stop.
\<close>

definition build_l2_level ::
    "(u64 \<Rightarrow> u32) \<Rightarrow> inner_level option \<Rightarrow> inner_level list \<Rightarrow> usize option \<Rightarrow> u32 option \<Rightarrow> u64 option
     \<Rightarrow> side \<Rightarrow> inner_level \<Rightarrow> (bool \<times> inner_level option \<times> inner_level list) option" where
  "build_l2_level lg cur_level levels n_levels n_sig_figs mantissa s level =
     (let new_bucket =
            (case cur_level of
               None \<Rightarrow> True
             | Some c \<Rightarrow>
                 (case s of
                    Ask \<Rightarrow> px_value (il_px level) > px_value (il_px c)
                  | Bid \<Rightarrow> px_value (il_px level) < px_value (il_px c)))
      in if new_bucket then
           do {
             b \<leftarrow> bucket lg (il_px level) s n_sig_figs mantissa;
             let levels' = (case cur_level of None \<Rightarrow> levels | Some c \<Rightarrow> levels @ [c]);
             if n_levels = Some (length levels') then Some (True, None, levels')
             else Some (False, Some \<lparr>il_px = b, il_sz = il_sz level, il_n = il_n level\<rparr>, levels')
           }
         else
           (case cur_level of
              Some c \<Rightarrow>
                Some (False, Some (c\<lparr>il_sz := sz_add (il_sz level) (il_sz c), il_n := il_n c + il_n level\<rparr>), levels)
            | None \<Rightarrow> Some (False, cur_level, levels)))"

text \<open>The \<open>for\<close> loop the two callers share, with its \<open>break\<close>, and the final \<open>extend\<close>.\<close>

fun build_l2_levels ::
    "(u64 \<Rightarrow> u32) \<Rightarrow> inner_level option \<Rightarrow> inner_level list \<Rightarrow> usize option \<Rightarrow> u32 option \<Rightarrow> u64 option
     \<Rightarrow> side \<Rightarrow> inner_level list \<Rightarrow> inner_level list option" where
  "build_l2_levels lg cur_level levels n_levels n_sig_figs mantissa s [] =
     Some (case cur_level of None \<Rightarrow> levels | Some c \<Rightarrow> levels @ [c])"
| "build_l2_levels lg cur_level levels n_levels n_sig_figs mantissa s (level # rest) =
     do {
       (stop, cur', levels') \<leftarrow> build_l2_level lg cur_level levels n_levels n_sig_figs mantissa s level;
       if stop then Some (case cur' of None \<Rightarrow> levels' | Some c \<Rightarrow> levels' @ [c])
       else build_l2_levels lg cur' levels' n_levels n_sig_figs mantissa s rest
     }"

definition l2_levels_to_l2_levels ::
    "(u64 \<Rightarrow> u32) \<Rightarrow> inner_level list \<Rightarrow> side \<Rightarrow> usize option \<Rightarrow> u32 option \<Rightarrow> u64 option
     \<Rightarrow> inner_level list option" where
  "l2_levels_to_l2_levels lg levels s n_levels n_sig_figs mantissa =
     (if n_levels = Some 0 then Some []
      else build_l2_levels lg None [] n_levels n_sig_figs mantissa s levels)"

text \<open>What the loop of \<open>map_to_l2_levels\<close> hands to \<open>build_l2_level\<close> for one price.\<close>

definition price_level :: "px \<times> level \<Rightarrow> inner_level" where
  "price_level e =
     \<lparr>il_px = fst e, il_sz = kl_fold (snd e) (\<lambda>z order. sz_add z (io_sz order)) (Sz 0),
      il_n = kl_fold (snd e) (\<lambda>n _. n + 1) 0\<rparr>"

definition map_to_l2_levels ::
    "(u64 \<Rightarrow> u32) \<Rightarrow> levels \<Rightarrow> side \<Rightarrow> usize option \<Rightarrow> u32 option \<Rightarrow> u64 option \<Rightarrow> inner_level list option" where
  "map_to_l2_levels lg orders s n_levels n_sig_figs mantissa =
     (if n_levels = Some 0 then Some []
      else
        let order_iter = (case s of Ask \<Rightarrow> orders | Bid \<Rightarrow> rev orders)
        in build_l2_levels lg None [] n_levels n_sig_figs mantissa s (map price_level order_iter))"

definition book_to_l2_snapshot ::
    "(u64 \<Rightarrow> u32) \<Rightarrow> order_book \<Rightarrow> usize option \<Rightarrow> u32 option \<Rightarrow> u64 option \<Rightarrow> inner_level snapshot option" where
  "book_to_l2_snapshot lg b n_levels n_sig_figs mantissa =
     do {
       bs \<leftarrow> map_to_l2_levels lg (bids b) Bid n_levels n_sig_figs mantissa;
       as \<leftarrow> map_to_l2_levels lg (asks b) Ask n_levels n_sig_figs mantissa;
       Some (Snapshot bs as)
     }"

definition snapshot_to_l2_snapshot ::
    "(u64 \<Rightarrow> u32) \<Rightarrow> inner_level snapshot \<Rightarrow> usize option \<Rightarrow> u32 option \<Rightarrow> u64 option
     \<Rightarrow> inner_level snapshot option" where
  "snapshot_to_l2_snapshot lg q n_levels n_sig_figs mantissa =
     do {
       bs \<leftarrow> l2_levels_to_l2_levels lg (snap_bids q) Bid n_levels n_sig_figs mantissa;
       as \<leftarrow> l2_levels_to_l2_levels lg (snap_asks q) Ask n_levels n_sig_figs mantissa;
       Some (Snapshot bs as)
     }"

section \<open>Reference: group the levels by bucket\<close>

definition total_sz :: "inner_level list \<Rightarrow> u64" where
  "total_sz ls = sum_list (map (\<lambda>l. sz_value (il_sz l)) ls)"

definition total_n :: "inner_level list \<Rightarrow> nat" where
  "total_n ls = sum_list (map il_n ls)"

function aggregate :: "(px \<Rightarrow> px) \<Rightarrow> inner_level list \<Rightarrow> inner_level list" where
  "aggregate bk [] = []"
| "aggregate bk (l # ls) =
     (let group = l # filter (\<lambda>x. bk (il_px x) = bk (il_px l)) ls
      in \<lparr>il_px = bk (il_px l), il_sz = Sz (total_sz group), il_n = total_n group\<rparr>
           # aggregate bk (filter (\<lambda>x. bk (il_px x) \<noteq> bk (il_px l)) ls))"
  by pat_completeness auto
termination
  by (relation "measure (length \<circ> snd)") (auto simp: less_Suc_eq_le)

definition limited :: "usize option \<Rightarrow> 'a list \<Rightarrow> 'a list" where
  "limited n xs = (case n of None \<Rightarrow> xs | Some k \<Rightarrow> take k xs)"

text \<open>\<open>past s p q\<close>: price \<open>p\<close> is beyond the bucket price \<open>q\<close> on side \<open>s\<close>.\<close>

definition past :: "side \<Rightarrow> px \<Rightarrow> px \<Rightarrow> bool" where
  "past s p q = (case s of Ask \<Rightarrow> q < p | Bid \<Rightarrow> p < q)"

definition in_order :: "side \<Rightarrow> inner_level list \<Rightarrow> bool" where
  "in_order s ls = sorted_wrt (\<lambda>x y. past s (il_px y) (il_px x)) ls"

text \<open>
  What makes one pass enough: a later price starts a new bucket exactly when it is beyond the
  current bucket's price.
\<close>

definition separates :: "side \<Rightarrow> (px \<Rightarrow> px) \<Rightarrow> inner_level list \<Rightarrow> bool" where
  "separates s bk ls =
     sorted_wrt (\<lambda>x y. past s (il_px y) (bk (il_px x)) \<longleftrightarrow> bk (il_px y) \<noteq> bk (il_px x)) ls"

lemma past_trans: "past s q p \<Longrightarrow> past s r q \<Longrightarrow> past s r p"
  by (cases s) (auto simp: past_def)

lemma total_sz_simps [simp]: "total_sz [] = 0" "total_sz (l # ls) = sz_value (il_sz l) + total_sz ls"
  by (simp_all add: total_sz_def)

lemma total_n_simps [simp]: "total_n [] = 0" "total_n (l # ls) = il_n l + total_n ls"
  by (simp_all add: total_n_def)

text \<open>The loop from a state with a current bucket.\<close>

lemma build_levels_aggregate:
  assumes "in_order s ls" and "separates s bk ls"
    and "\<forall>y \<in> set ls. bucket lg (il_px y) s nf mt = Some (bk (il_px y))"
    and "\<forall>y \<in> set ls. past s (il_px y) (il_px c) \<longleftrightarrow> bk (il_px y) \<noteq> il_px c"
    and "\<forall>k. n = Some k \<longrightarrow> length lv < k"
  shows "build_l2_levels lg (Some c) lv n nf mt s ls =
    Some (lv @ limited (map_option (\<lambda>k. k - length lv) n)
      (\<lparr>il_px = il_px c, il_sz = Sz (sz_value (il_sz c) + total_sz (filter (\<lambda>x. bk (il_px x) = il_px c) ls)),
        il_n = il_n c + total_n (filter (\<lambda>x. bk (il_px x) = il_px c) ls)\<rparr>
       # aggregate bk (filter (\<lambda>x. bk (il_px x) \<noteq> il_px c) ls)))"
  using assms
proof (induction ls arbitrary: c lv)
  case Nil
  then show ?case by (cases n) (auto simp: limited_def take_Cons')
next
  case (Cons l ls)
  have tail: "in_order s ls" "separates s bk ls" "\<forall>y \<in> set ls. bucket lg (il_px y) s nf mt = Some (bk (il_px y))"
    using Cons.prems by (auto simp: in_order_def separates_def)
  have pst: "(case s of Ask \<Rightarrow> px_value (il_px l) > px_value (il_px c) | Bid \<Rightarrow> px_value (il_px l) < px_value (il_px c))
      \<longleftrightarrow> past s (il_px l) (il_px c)"
    by (cases s) (auto simp: past_def less_px_def)
  show ?case
  proof (cases "past s (il_px l) (il_px c)")
    case False
    let ?c = "c\<lparr>il_sz := sz_add (il_sz l) (il_sz c), il_n := il_n c + il_n l\<rparr>"
    have "bk (il_px l) = il_px c" using False Cons.prems(4) by simp
    moreover have "build_l2_levels lg (Some ?c) lv n nf mt s ls =
      Some (lv @ limited (map_option (\<lambda>k. k - length lv) n)
        (\<lparr>il_px = il_px c, il_sz = Sz (sz_value (il_sz ?c) + total_sz (filter (\<lambda>x. bk (il_px x) = il_px c) ls)),
          il_n = il_n ?c + total_n (filter (\<lambda>x. bk (il_px x) = il_px c) ls)\<rparr>
         # aggregate bk (filter (\<lambda>x. bk (il_px x) \<noteq> il_px c) ls)))"
      using Cons.IH [OF tail, of ?c lv] Cons.prems(4,5) by simp
    ultimately show ?thesis
      using False by (simp add: build_l2_level_def pst sz_add_def ac_simps)
  next
    case True
    let ?c = "\<lparr>il_px = bk (il_px l), il_sz = il_sz l, il_n = il_n l\<rparr>"
    have b: "bucket lg (il_px l) s nf mt = Some (bk (il_px l))" "bk (il_px l) \<noteq> il_px c"
      using Cons.prems(3,4) True by auto
    have "past s (il_px y) (il_px c)" if "y \<in> set ls" for y
      using that True Cons.prems(1) by (auto simp: in_order_def intro: past_trans)
    with Cons.prems(4) have none: "filter (\<lambda>x. bk (il_px x) = il_px c) ls = []"
      "filter (\<lambda>x. bk (il_px x) \<noteq> il_px c) ls = ls"
      by (auto simp: filter_empty_conv filter_id_conv)
    have step: "build_l2_levels lg (Some c) lv n nf mt s (l # ls) =
        (if n = Some (Suc (length lv)) then Some (lv @ [c])
         else build_l2_levels lg (Some ?c) (lv @ [c]) n nf mt s ls)"
      using True b by (simp add: build_l2_level_def pst)
    show ?thesis
    proof (cases "n = Some (Suc (length lv))")
      case True
      then show ?thesis unfolding step using none b by (simp add: limited_def)
    next
      case False
      have "\<forall>k. n = Some k \<longrightarrow> length (lv @ [c]) < k"
        using Cons.prems(5) False by (metis Suc_lessI length_append_singleton)
      moreover have "\<forall>y \<in> set ls. past s (il_px y) (il_px ?c) \<longleftrightarrow> bk (il_px y) \<noteq> il_px ?c"
        using Cons.prems(2) by (simp add: separates_def)
      moreover have "limited (map_option (\<lambda>k. k - length lv) n) (x # y # zs) =
          x # limited (map_option (\<lambda>k. k - length (lv @ [c])) n) (y # zs)" for x y :: inner_level and zs
        using Cons.prems(5) by (cases n) (auto simp: limited_def take_Cons')
      ultimately show ?thesis unfolding step
        using Cons.IH [OF tail, of ?c "lv @ [c]"] none b False by (simp add: Let_def)
    qed
  qed
qed

lemma l2_levels_aggregate:
  assumes "in_order s ls" and "separates s bk ls"
    and "\<forall>y \<in> set ls. bucket lg (il_px y) s nf mt = Some (bk (il_px y))"
  shows "l2_levels_to_l2_levels lg ls s n nf mt = Some (limited n (aggregate bk ls))"
proof (cases "n = Some 0 \<or> ls = []")
  case True
  then show ?thesis by (cases n) (auto simp: l2_levels_to_l2_levels_def limited_def)
next
  case False
  then obtain l ls' where ls: "ls = l # ls'" and n: "n \<noteq> Some 0" by (cases ls) auto
  let ?c = "\<lparr>il_px = bk (il_px l), il_sz = il_sz l, il_n = il_n l\<rparr>"
  have "\<forall>k. n = Some k \<longrightarrow> 0 < k" "map_option (\<lambda>k. k) n = n" using n by (cases n; auto)+
  have "build_l2_levels lg None [] n nf mt s ls = build_l2_levels lg (Some ?c) [] n nf mt s ls'"
    using assms(3) n by (simp add: ls build_l2_level_def)
  also have "\<dots> = Some (limited n (aggregate bk ls))"
    using build_levels_aggregate [of s ls' bk lg nf mt ?c n "[]"] assms
      \<open>\<forall>k. n = Some k \<longrightarrow> 0 < k\<close> \<open>map_option (\<lambda>k. k) n = n\<close>
    by (simp add: ls in_order_def separates_def Let_def)
  finally show ?thesis using n by (simp add: l2_levels_to_l2_levels_def)
qed


section \<open>What aggregation keeps\<close>

lemma total_partition:
  "total_sz (filter P ls) + total_sz (filter (\<lambda>x. \<not> P x) ls) = total_sz ls"
  "total_n (filter P ls) + total_n (filter (\<lambda>x. \<not> P x) ls) = total_n ls"
  by (induction ls) (auto simp: ac_simps)

lemma aggregate_totals:
  "total_sz (aggregate bk ls) = total_sz ls \<and> total_n (aggregate bk ls) = total_n ls"
proof (induction bk ls rule: aggregate.induct)
  case (2 bk l ls)
  then show ?case
    using total_partition [of "\<lambda>x. bk (il_px x) = bk (il_px l)" ls] by (simp add: Let_def add.assoc)
qed simp

lemma aggregate_prices: "il_px ` set (aggregate bk ls) = (bk \<circ> il_px) ` set ls"
proof (induction bk ls rule: aggregate.induct)
  case (2 bk l ls)
  then show ?case by (auto simp: Let_def)
qed simp

text \<open>Every bucket's level is the sum of the levels whose price falls into it.\<close>

lemma aggregate_level:
  assumes "c \<in> set (aggregate bk ls)"
  shows "il_sz c = Sz (total_sz (filter (\<lambda>x. bk (il_px x) = il_px c) ls)) \<and>
    il_n c = total_n (filter (\<lambda>x. bk (il_px x) = il_px c) ls)"
  using assms
proof (induction bk ls rule: aggregate.induct)
  case (2 bk l ls)
  show ?case
  proof (cases "c \<in> set (aggregate bk (filter (\<lambda>x. bk (il_px x) \<noteq> bk (il_px l)) ls))")
    case True
    then have "il_px c \<in> il_px ` set (aggregate bk (filter (\<lambda>x. bk (il_px x) \<noteq> bk (il_px l)) ls))" by blast
    then have ne: "il_px c \<noteq> bk (il_px l)" unfolding aggregate_prices by auto
    then have "filter (\<lambda>x. bk (il_px x) = il_px c) (filter (\<lambda>x. bk (il_px x) \<noteq> bk (il_px l)) ls)
        = filter (\<lambda>x. bk (il_px x) = il_px c) ls"
      by (simp add: conj_commute) (rule filter_cong, auto)
    with "2.IH" [OF refl True] ne show ?thesis by auto
  next
    case False
    with "2.prems" show ?thesis by (auto simp: Let_def)
  qed
qed simp

lemma aggregate_in_order:
  assumes "in_order s ls" and "separates s bk ls"
    and "\<forall>x \<in> set ls. \<not> past s (il_px x) (bk (il_px x))"
  shows "in_order s (aggregate bk ls)"
  using assms
proof (induction bk ls rule: aggregate.induct)
  case (2 bk l ls)
  let ?r = "filter (\<lambda>x. bk (il_px x) \<noteq> bk (il_px l)) ls"
  have "in_order s (aggregate bk ?r)"
    using "2.prems" by (intro "2.IH" [OF refl]) (auto simp: in_order_def separates_def sorted_wrt_filter)
  moreover have "past s (il_px c) (bk (il_px l))" if "c \<in> set (aggregate bk ?r)" for c
  proof -
    have "il_px c \<in> (bk \<circ> il_px) ` set ?r" unfolding aggregate_prices [symmetric] using that by blast
    then obtain x where x: "x \<in> set ls" "bk (il_px x) \<noteq> bk (il_px l)" "il_px c = bk (il_px x)" by auto
    with "2.prems"(2,3) have "past s (il_px x) (bk (il_px l))" "\<not> past s (il_px x) (bk (il_px x))"
      by (auto simp: separates_def)
    with x(3) show ?thesis by (cases s) (auto simp: past_def)
  qed
  ultimately show ?case by (simp add: in_order_def Let_def)
qed (simp add: in_order_def)

end
