(* ===== verification/Bucketing.thy ===== *)
theory Bucketing
  imports L2_Levels
begin

text \<open>
  The arithmetic of \<open>bucket\<close>: rounding to a multiple of \<open>m * 10 ^ p\<close>, outwards for asks and
  inwards for bids, stays on the right side of the price, does not overflow, and separates
  prices the way the one-pass aggregation relies on.
\<close>

section \<open>Rounding to multiples\<close>

definition round_down :: "nat \<Rightarrow> nat \<Rightarrow> nat" where
  "round_down inc v = v div inc * inc"

definition round_up :: "nat \<Rightarrow> nat \<Rightarrow> nat" where
  "round_up inc v = (v div inc + (if v mod inc > 0 then 1 else 0)) * inc"

lemma round_down_bounds:
  assumes "0 < inc"
  shows "round_down inc v \<le> v \<and> v < round_down inc v + inc \<and> inc dvd round_down inc v"
proof -
  have "v div inc * inc + v mod inc = v" "v mod inc < inc" using assms by simp_all
  then have "v div inc * inc \<le> v" "v < v div inc * inc + inc" by linarith+
  then show ?thesis by (simp add: round_down_def)
qed

lemma round_up_bounds:
  assumes "0 < inc"
  shows "v \<le> round_up inc v \<and> round_up inc v < v + inc \<and> inc dvd round_up inc v"
proof -
  have "v div inc * inc + v mod inc = v" "v mod inc < inc" using assms by simp_all
  moreover have "round_up inc v = v div inc * inc + inc \<and> v mod inc > 0 \<or> round_up inc v = v div inc * inc \<and> v mod inc = 0"
    by (auto simp: round_up_def)
  ultimately have "v \<le> round_up inc v" "round_up inc v < v + inc" using assms by linarith+
  then show ?thesis by (simp add: round_up_def)
qed

lemma round_down_greatest: "inc dvd w \<Longrightarrow> w \<le> v \<Longrightarrow> w \<le> round_down inc v"
proof -
  assume "inc dvd w" "w \<le> v"
  then obtain k where "w = inc * k" by blast
  with \<open>w \<le> v\<close> have "k \<le> v div inc" if "0 < inc" using that by (simp add: less_eq_div_iff_mult_less_eq mult.commute)
  with \<open>w = inc * k\<close> show ?thesis by (cases "inc = 0") (auto simp: round_down_def mult.commute)
qed

lemma round_up_least: "0 < inc \<Longrightarrow> inc dvd w \<Longrightarrow> v \<le> w \<Longrightarrow> round_up inc v \<le> w"
proof (rule ccontr)
  assume a: "0 < inc" "inc dvd w" "v \<le> w" "\<not> round_up inc v \<le> w"
  then have lt: "w < round_up inc v" "round_up inc v < w + inc" "inc dvd round_up inc v"
    using round_up_bounds [of inc v] by auto
  from lt(3) a(2) have "inc dvd round_up inc v - w" by (rule dvd_diff_nat)
  with lt(1) have "inc \<le> round_up inc v - w" by (simp add: dvd_imp_le)
  with lt show False by linarith
qed

section \<open>Digits and increments\<close>

text \<open>\<open>d\<close> is the number of decimal digits of \<open>v\<close> (one for zero).\<close>

definition has_digits :: "nat \<Rightarrow> nat \<Rightarrow> bool" where
  "has_digits d v \<longleftrightarrow> 1 \<le> d \<and> v < 10 ^ d \<and> (d = 1 \<or> 10 ^ (d - 1) \<le> v)"

text \<open>The precision of \<open>log10\<close> the code relies on, at one value.\<close>

definition exact_log10 :: "(u64 \<Rightarrow> u32) \<Rightarrow> u64 \<Rightarrow> bool" where
  "exact_log10 lg v \<longleftrightarrow> v = 0 \<or> 10 ^ lg v \<le> unat v \<and> unat v < 10 ^ (lg v + 1)"

lemma num_digits_exact: "exact_log10 lg (px_value p) \<Longrightarrow> has_digits (num_digits lg p) (unat (px_value p))"
  by (cases "lg (px_value p)") (auto simp: exact_log10_def num_digits_def has_digits_def)

lemma has_digits_mono: "has_digits d v \<Longrightarrow> has_digits e w \<Longrightarrow> v \<le> w \<Longrightarrow> d \<le> e"
proof (rule ccontr)
  assume a: "has_digits d v" "has_digits e w" "v \<le> w" "\<not> d \<le> e"
  then have "10 ^ (d - 1) \<le> v" "w < 10 ^ e" "e \<le> d - 1" by (auto simp: has_digits_def)
  moreover from this have "(10::nat) ^ e \<le> 10 ^ (d - 1)" by (simp add: power_increasing)
  ultimately show False using a(3) by linarith
qed

text \<open>The increments the server asks for: two to five significant figures, mantissa 1, 2 or 5.\<close>

definition valid_view :: "u32 \<Rightarrow> nat \<Rightarrow> bool" where
  "valid_view n m \<longleftrightarrow> 2 \<le> n \<and> m \<in> {1, 2, 5}"

definition increment :: "u32 \<Rightarrow> nat \<Rightarrow> nat \<Rightarrow> nat" where
  "increment n m d = m * 10 ^ (d - n)"

lemma mantissa_dvd: "m \<in> {1, 2, 5} \<Longrightarrow> 1 \<le> k \<Longrightarrow> m dvd (10::nat) ^ k"
proof -
  assume m: "m \<in> {1, 2, 5}" and "1 \<le> k"
  then have "(10::nat) dvd 10 ^ k" by (simp add: dvd_power)
  moreover have "m dvd 10" using m by auto
  ultimately show ?thesis by (rule dvd_trans [rotated])
qed

lemma increment_dvd:
  assumes "valid_view n m" and "1 \<le> d"
  shows "increment n m d dvd 10 ^ d" and "2 \<le> d \<Longrightarrow> increment n m d dvd 10 ^ (d - 1)"
proof -
  have m: "m \<in> {1, 2, 5}" "2 \<le> n" using assms by (auto simp: valid_view_def)
  have "10 ^ d = 10 ^ min d n * (10::nat) ^ (d - n)" by (simp add: power_add [symmetric])
  moreover have "m dvd 10 ^ min d n" using m assms(2) by (intro mantissa_dvd) auto
  ultimately show "increment n m d dvd 10 ^ d" by (simp add: increment_def mult_dvd_mono)
  assume d: "2 \<le> d"
  have "d - 1 = min (d - 1) (n - 1) + (d - n)" using m d by auto
  then have "10 ^ (d - 1) = 10 ^ min (d - 1) (n - 1) * (10::nat) ^ (d - n)" by (metis power_add)
  moreover have "m dvd 10 ^ min (d - 1) (n - 1)" using m d by (intro mantissa_dvd) auto
  ultimately show "increment n m d dvd 10 ^ (d - 1)" by (simp add: increment_def mult_dvd_mono)
qed

lemma increment_pos: "valid_view n m \<Longrightarrow> 0 < increment n m d"
  by (auto simp: increment_def valid_view_def)

section \<open>Bucketing separates prices\<close>

lemma round_up_separates:
  assumes v: "valid_view n m" and d: "has_digits d x" "has_digits e y" and "x \<le> y"
  shows "round_up (increment n m d) x < y \<longleftrightarrow> round_up (increment n m e) y \<noteq> round_up (increment n m d) x"
proof -
  note pos = increment_pos [OF v]
  let ?X = "round_up (increment n m d) x" and ?Y = "round_up (increment n m e) y"
  have "?Y = ?X" if "y \<le> ?X"
  proof (cases "d = e")
    case True
    have "?Y \<le> ?X" using round_up_least [OF pos _ that] round_up_bounds [OF pos] True by blast
    moreover have "?X \<le> ?Y" using round_up_least [OF pos] round_up_bounds [OF pos] True assms(4)
      by (metis le_trans)
    ultimately show ?thesis by simp
  next
    case False
    with has_digits_mono [OF d assms(4)] have "d \<le> e - 1" "2 \<le> e" using d by (auto simp: has_digits_def)
    then have "(10::nat) ^ d \<le> 10 ^ (e - 1)" "10 ^ (e - 1) \<le> y" using d by (auto simp: power_increasing has_digits_def)
    moreover have "?X \<le> 10 ^ d"
      using d by (intro round_up_least pos increment_dvd(1) [OF v]) (auto simp: has_digits_def)
    ultimately have y: "y = 10 ^ (e - 1)" "?X = y" using that by linarith+
    have "increment n m e dvd y" unfolding y(1) using increment_dvd(2) [OF v _ \<open>2 \<le> e\<close>] \<open>2 \<le> e\<close> by simp
    then have "?Y \<le> y" by (rule round_up_least [OF pos]) simp
    with round_up_bounds [OF pos] y(2) show ?thesis by (metis le_antisym)
  qed
  moreover have "y \<le> ?Y" using round_up_bounds [OF pos] by blast
  ultimately show ?thesis by (metis leD leI)
qed

lemma round_down_separates:
  assumes v: "valid_view n m" and d: "has_digits d x" "has_digits e y" and "y \<le> x"
  shows "y < round_down (increment n m d) x \<longleftrightarrow> round_down (increment n m e) y \<noteq> round_down (increment n m d) x"
proof -
  note pos = increment_pos [OF v]
  let ?X = "round_down (increment n m d) x" and ?Y = "round_down (increment n m e) y"
  have "?Y = ?X" if "?X \<le> y"
  proof (cases "e = d")
    case True
    have "?X \<le> ?Y" using round_down_greatest [OF _ that] round_down_bounds [OF pos] True by blast
    moreover have "?Y \<le> ?X" using round_down_greatest round_down_bounds [OF pos] True assms(4)
      by (metis le_trans)
    ultimately show ?thesis by simp
  next
    case False
    with has_digits_mono [OF d(2,1) assms(4)] have e: "e \<le> d - 1" "2 \<le> d" using d by (auto simp: has_digits_def)
    then have "increment n m d dvd 10 ^ (d - 1)" by (intro increment_dvd(2) [OF v]) auto
    then have "10 ^ (d - 1) \<le> ?X" by (rule round_down_greatest) (use d e in \<open>auto simp: has_digits_def\<close>)
    moreover have "y < 10 ^ e" "(10::nat) ^ e \<le> 10 ^ (d - 1)" using d e by (auto simp: has_digits_def power_increasing)
    ultimately show ?thesis using that by linarith
  qed
  moreover have "?Y \<le> y" using round_down_bounds [OF pos] by blast
  ultimately show ?thesis by (metis leD leI)
qed


section \<open>The code's bucket\<close>

definition mant :: "u64 option \<Rightarrow> nat" where
  "mant mantissa = (case mantissa of None \<Rightarrow> 1 | Some m \<Rightarrow> unat m)"

text \<open>
  The prices on which the digit count is right and outward rounding cannot leave 64 bits.
\<close>

definition priced :: "(u64 \<Rightarrow> u32) \<Rightarrow> px \<Rightarrow> bool" where
  "priced lg p \<longleftrightarrow> exact_log10 lg (px_value p) \<and> unat (px_value p) < 10 ^ 19"

definition rounded :: "(u64 \<Rightarrow> u32) \<Rightarrow> side \<Rightarrow> u32 \<Rightarrow> nat \<Rightarrow> px \<Rightarrow> nat" where
  "rounded lg s n m p =
     (case s of
        Ask \<Rightarrow> round_up (increment n m (num_digits lg p)) (unat (px_value p))
      | Bid \<Rightarrow> round_down (increment n m (num_digits lg p)) (unat (px_value p)))"

lemma unat_mult_small: "unat a * unat b < 2 ^ 64 \<Longrightarrow> unat (a * b :: u64) = unat a * unat b"
  by (simp add: unat_word_ariths)

lemma unat_power10: "e \<le> 19 \<Longrightarrow> unat ((10::u64) ^ e) = 10 ^ e"
proof (induction e)
  case (Suc e)
  have "(10::nat) * 10 ^ e \<le> 10 ^ 19" using power_increasing [OF Suc.prems, of "10::nat"] by simp
  then have "unat (10::u64) * unat ((10::u64) ^ e) < 2 ^ 64" using Suc by simp
  then show ?case using Suc by (simp add: unat_mult_small)
qed simp

lemma priced_digits:
  assumes "priced lg p"
  shows "has_digits (num_digits lg p) (unat (px_value p))" "num_digits lg p \<le> 19"
proof -
  show hd: "has_digits (num_digits lg p) (unat (px_value p))"
    using assms by (simp add: priced_def num_digits_exact)
  show "num_digits lg p \<le> 19"
  proof (rule ccontr)
    assume "\<not> num_digits lg p \<le> 19"
    then have "19 \<le> num_digits lg p - 1" by simp
    then have "(10::nat) ^ 19 \<le> 10 ^ (num_digits lg p - 1)" by (rule power_increasing) simp
    with hd \<open>\<not> num_digits lg p \<le> 19\<close> assms show False by (auto simp: has_digits_def priced_def)
  qed
qed

lemma unat_increment:
  assumes "priced lg p" and "valid_view n (mant mt)"
  shows "unat ((case mt of None \<Rightarrow> 1 | Some m \<Rightarrow> m) * 10 ^ (num_digits lg p - n)) =
    increment n (mant mt) (num_digits lg p)"
    and "increment n (mant mt) (num_digits lg p) \<le> 10 ^ num_digits lg p"
    and "(10::nat) ^ num_digits lg p < 2 ^ 64"
proof -
  note d = priced_digits [OF assms(1)]
  show le: "increment n (mant mt) (num_digits lg p) \<le> 10 ^ num_digits lg p"
    using increment_dvd(1) [OF assms(2), of "num_digits lg p"] d(1) by (simp add: dvd_imp_le has_digits_def)
  have "(10::nat) ^ num_digits lg p \<le> 10 ^ 19" using d(2) by (rule power_increasing) simp
  then show lt: "(10::nat) ^ num_digits lg p < 2 ^ 64" by (rule le_less_trans) simp
  have e: "unat ((10::u64) ^ (num_digits lg p - n)) = 10 ^ (num_digits lg p - n)"
    using d(2) by (intro unat_power10) simp
  have m: "unat (case mt of None \<Rightarrow> 1 | Some m \<Rightarrow> m) = mant mt" by (simp add: mant_def split: option.splits)
  show "unat ((case mt of None \<Rightarrow> 1 | Some m \<Rightarrow> m) * 10 ^ (num_digits lg p - n)) = increment n (mant mt) (num_digits lg p)"
  proof -
    have "unat (case mt of None \<Rightarrow> 1 | Some m \<Rightarrow> m) * unat ((10::u64) ^ (num_digits lg p - n)) < 2 ^ 64"
      using le lt unfolding e m increment_def by linarith
    from unat_mult_small [OF this] show ?thesis unfolding e m increment_def .
  qed
qed

lemma bucket_rounded:
  assumes p: "priced lg p" and v: "valid_view n (mant mt)"
  obtains b where "bucket lg p s (Some n) mt = Some b" and "unat (px_value b) = rounded lg s n (mant mt) p"
proof -
  let ?inc = "(case mt of None \<Rightarrow> 1 | Some m \<Rightarrow> m) * 10 ^ (num_digits lg p - n) :: u64"
  let ?i = "increment n (mant mt) (num_digits lg p)"
  note inc = unat_increment [OF p v]
  have pos: "0 < ?i" by (rule increment_pos [OF v])
  with inc(1) have nz: "?inc \<noteq> 0" by (metis unat_0 less_irrefl)
  have up: "round_up ?i (unat (px_value p)) < 2 ^ 64"
  proof -
    have "round_up ?i (unat (px_value p)) \<le> 10 ^ num_digits lg p"
      using increment_dvd(1) [OF v, of "num_digits lg p"] priced_digits(1) [OF p] pos
      by (intro round_up_least) (auto simp: has_digits_def)
    with inc(3) show ?thesis by linarith
  qed
  have down: "round_down ?i (unat (px_value p)) < 2 ^ 64"
    using round_down_bounds [OF pos, of "unat (px_value p)"] unat_u64_less [of "px_value p"] by linarith
  have dv: "unat (px_value p div ?inc) = unat (px_value p) div ?i" "unat (px_value p mod ?inc) = unat (px_value p) mod ?i"
    by (simp_all only: unat_div unat_mod inc(1))
  show thesis
  proof (cases s)
    case Bid
    have "unat (px_value p div ?inc * ?inc) = round_down ?i (unat (px_value p))"
      using down by (subst unat_mult_small) (simp_all only: dv inc(1) round_down_def)
    with Bid nz show thesis
      by (intro that [of "Px (px_value p div ?inc * ?inc)"]) (simp_all add: bucket_def Let_def rounded_def)
  next
    case Ask
    have r: "(px_value p mod ?inc > 0) = (unat (px_value p) mod ?i > 0)"
      unfolding dv(2) [symmetric] by (metis word_gt_0 unat_gt_0)
    have "unat (px_value p div ?inc + 1) = unat (px_value p) div ?i + 1" if "unat (px_value p) mod ?i > 0"
    proof -
      have "unat (px_value p) div ?i + 1 \<le> round_up ?i (unat (px_value p))"
      proof -
        have "1 \<le> ?i" using pos by simp
        from mult_le_mono2 [OF this, of "unat (px_value p) div ?i + 1"] that show ?thesis
          unfolding round_up_def by (simp only: if_True mult_1_right)
      qed
      with up have "unat (px_value p div ?inc) + 1 < 2 ^ 64" unfolding dv by linarith
      then show ?thesis unfolding dv(1) [symmetric] by (simp add: unat_word_ariths)
    qed
    then have "unat (u64_div_ceil (px_value p) ?inc) = unat (px_value p) div ?i + (if unat (px_value p) mod ?i > 0 then 1 else 0)"
      using r by (simp add: u64_div_ceil_def Let_def dv)
    then have "unat (u64_div_ceil (px_value p) ?inc * ?inc) = round_up ?i (unat (px_value p))"
      using up by (subst unat_mult_small) (simp_all only: inc(1) round_up_def)
    with Ask nz show thesis
      by (intro that [of "Px (u64_div_ceil (px_value p) ?inc * ?inc)"]) (simp_all add: bucket_def Let_def rounded_def)
  qed
qed


definition bucket_of :: "(u64 \<Rightarrow> u32) \<Rightarrow> side \<Rightarrow> u32 option \<Rightarrow> u64 option \<Rightarrow> px \<Rightarrow> px" where
  "bucket_of lg s nf mt p = (case bucket lg p s nf mt of Some b \<Rightarrow> b | None \<Rightarrow> p)"

text \<open>The views the server computes: raw, or two to five figures with a valid mantissa.\<close>

definition view_ok :: "u32 option \<Rightarrow> u64 option \<Rightarrow> bool" where
  "view_ok nf mt \<longleftrightarrow> (case nf of None \<Rightarrow> True | Some n \<Rightarrow> valid_view n (mant mt))"

lemma past_unat: "past s p q \<longleftrightarrow> (case s of Ask \<Rightarrow> unat (px_value q) < unat (px_value p) | Bid \<Rightarrow> unat (px_value p) < unat (px_value q))"
  by (cases s) (auto simp: past_def less_px_def word_less_nat_alt)

lemma px_eq_unat: "p = q \<longleftrightarrow> unat (px_value p) = unat (px_value q)"
  by (cases p; cases q) (simp add: word_unat_eq_iff)

lemma bucket_none [simp]: "bucket lg p s None mt = Some p"
  by (simp add: bucket_def)

lemma bucket_of_none [simp]: "bucket_of lg s None mt p = p"
  by (simp add: bucket_of_def)

lemma unat_bucket_of:
  assumes "priced lg p" and "valid_view n (mant mt)"
  shows "unat (px_value (bucket_of lg s (Some n) mt p)) = rounded lg s n (mant mt) p"
    and "bucket lg p s (Some n) mt = Some (bucket_of lg s (Some n) mt p)"
proof -
  obtain b where "bucket lg p s (Some n) mt = Some b" "unat (px_value b) = rounded lg s n (mant mt) p"
    by (rule bucket_rounded [OF assms])
  then show "unat (px_value (bucket_of lg s (Some n) mt p)) = rounded lg s n (mant mt) p"
    "bucket lg p s (Some n) mt = Some (bucket_of lg s (Some n) mt p)" by (simp_all add: bucket_of_def)
qed

lemma bucket_of_some: "priced lg p \<Longrightarrow> view_ok nf mt \<Longrightarrow> bucket lg p s nf mt = Some (bucket_of lg s nf mt p)"
  by (cases nf) (simp_all add: view_ok_def unat_bucket_of(2))

text \<open>Bids are rounded down and asks up, never past the price.\<close>

lemma bucket_of_side: "priced lg p \<Longrightarrow> view_ok nf mt \<Longrightarrow> \<not> past s p (bucket_of lg s nf mt p)"
proof (cases nf)
  case (Some n)
  assume "priced lg p" "view_ok nf mt"
  with Some show ?thesis
    using round_up_bounds [OF increment_pos, of n "mant mt"] round_down_bounds [OF increment_pos, of n "mant mt"]
    by (cases s) (auto simp: past_unat view_ok_def unat_bucket_of(1) rounded_def not_less)
qed (cases s; simp add: past_def)

lemma bucket_of_separates:
  assumes "priced lg p" and "priced lg q" and "view_ok nf mt" and "past s q p"
  shows "past s q (bucket_of lg s nf mt p) \<longleftrightarrow> bucket_of lg s nf mt q \<noteq> bucket_of lg s nf mt p"
proof (cases nf)
  case None
  with assms(4) show ?thesis by (cases s) (auto simp: past_def)
next
  case (Some n)
  then have v: "valid_view n (mant mt)" using assms(3) by (simp add: view_ok_def)
  note d = priced_digits(1) [OF assms(1)] priced_digits(1) [OF assms(2)]
  show ?thesis
    using assms(4) round_up_separates [OF v d] round_down_separates [OF v d] Some
    by (cases s) (auto simp: past_unat px_eq_unat unat_bucket_of(1) assms(1,2) v rounded_def)
qed

lemma separates_bucket_of:
  assumes "in_order s ls" and "\<forall>l \<in> set ls. priced lg (il_px l)" and "view_ok nf mt"
  shows "separates s (bucket_of lg s nf mt) ls"
  unfolding separates_def
proof (rule sorted_wrt_mono_rel)
  show "sorted_wrt (\<lambda>x y. past s (il_px y) (il_px x)) ls" using assms(1) by (simp add: in_order_def)
  fix x y assume "x \<in> set ls" "y \<in> set ls" "past s (il_px y) (il_px x)"
  then show "past s (il_px y) (bucket_of lg s nf mt (il_px x)) =
      (bucket_of lg s nf mt (il_px y) \<noteq> bucket_of lg s nf mt (il_px x))"
    using assms(2,3) by (intro bucket_of_separates) auto
qed

lemma l2_levels_bucketed:
  assumes "in_order s ls" and "\<forall>l \<in> set ls. priced lg (il_px l)" and "view_ok nf mt"
  shows "l2_levels_to_l2_levels lg ls s n nf mt = Some (limited n (aggregate (bucket_of lg s nf mt) ls))"
  using assms by (intro l2_levels_aggregate separates_bucket_of) (auto simp: bucket_of_some)

lemma aggregate_bucketed_in_order:
  assumes "in_order s ls" and "\<forall>l \<in> set ls. priced lg (il_px l)" and "view_ok nf mt"
  shows "in_order s (aggregate (bucket_of lg s nf mt) ls)"
  using assms by (intro aggregate_in_order separates_bucket_of) (auto simp: bucket_of_side)

text \<open>A book side, as the loop of \<open>map_to_l2_levels\<close> visits it.\<close>

definition visited :: "side \<Rightarrow> levels \<Rightarrow> inner_level list" where
  "visited s orders = map price_level (case s of Ask \<Rightarrow> orders | Bid \<Rightarrow> rev orders)"

lemma map_to_l2_levels_visited:
  "map_to_l2_levels lg orders s n nf mt = l2_levels_to_l2_levels lg (visited s orders) s n nf mt"
  by (simp add: map_to_l2_levels_def l2_levels_to_l2_levels_def visited_def)

lemma il_px_price_level [simp]: "il_px (price_level e) = fst e"
  by (simp add: price_level_def)

lemma in_order_visited: "bt_sorted orders \<Longrightarrow> in_order s (visited s orders)"
proof (cases s)
  case Ask
  assume "bt_sorted orders"
  with Ask show ?thesis by (simp add: in_order_def visited_def past_def sorted_wrt_map)
next
  case Bid
  assume "bt_sorted orders"
  with Bid show ?thesis by (simp add: in_order_def visited_def past_def sorted_wrt_map sorted_wrt_rev rev_map)
qed

lemma visited_prices: "il_px ` set (visited s orders) = fst ` set orders"
  by (cases s) (force simp: visited_def)+

lemma kl_fold_sz: "kl_fold l (\<lambda>z order. sz_add z (io_sz order)) (Sz a) = Sz (a + sum_list (map (\<lambda>e. sz_value (io_sz (snd e))) l))"
  by (induction l arbitrary: a) (auto simp: kl_fold_def sz_add_def ac_simps)

lemma kl_fold_count: "kl_fold l (\<lambda>n _. Suc n) a = a + length l"
  by (induction l arbitrary: a) (auto simp: kl_fold_def)

lemma visited_totals:
  "total_sz (visited s orders) = sum_list (map (\<lambda>o1. sz_value (io_sz o1)) (concat (map (kl_to_vec \<circ> snd) orders)))"
  "total_n (visited s orders) = length (concat (map (kl_to_vec \<circ> snd) orders))"
proof -
  have sz: "sz_value (il_sz (price_level e)) = sum_list (map (\<lambda>o1. sz_value (io_sz o1)) (kl_to_vec (snd e)))"
    and n: "il_n (price_level e) = length (kl_to_vec (snd e))" for e
    by (simp_all add: price_level_def kl_fold_sz kl_fold_count kl_to_vec_def comp_def)
  have rv: "total_sz (rev ls) = total_sz ls" "total_n (rev ls) = total_n ls" for ls
    by (simp_all add: total_sz_def total_n_def rev_map [symmetric] sum_list_rev)
  have "total_sz (map price_level os) = sum_list (map (\<lambda>o1. sz_value (io_sz o1)) (concat (map (kl_to_vec \<circ> snd) os)))"
    "total_n (map price_level os) = length (concat (map (kl_to_vec \<circ> snd) os))" for os
    by (induction os) (auto simp: sz n)
  then show "total_sz (visited s orders) = sum_list (map (\<lambda>o1. sz_value (io_sz o1)) (concat (map (kl_to_vec \<circ> snd) orders)))"
    "total_n (visited s orders) = length (concat (map (kl_to_vec \<circ> snd) orders))"
    using rv by (cases s; simp add: visited_def rev_map [symmetric])+
qed

end
