(* ===== verification/L2_Views.thy ===== *)
theory L2_Views
  imports Bucketing Order_Book_Properties
begin

text \<open>
  What an L2 view of a book is, that \<open>to_l2_snapshot\<close> (\<open>server/src/order_book/levels.rs\<close>) computes it, and
  that rounding and aggregating a view again to a coarser one is aggregating the book once.
\<close>

section \<open>What a view is\<close>

text \<open>
  A view of one side: strictly ordered away from the best price, one level per bucket that holds
  an order, each with the summed size and the number of the orders in its bucket.
\<close>

definition is_view ::
    "(u64 \<Rightarrow> u32) \<Rightarrow> side \<Rightarrow> u32 option \<Rightarrow> u64 option \<Rightarrow> inner_l4_order list \<Rightarrow> inner_level list \<Rightarrow> bool" where
  "is_view lg s nf mt orders view \<longleftrightarrow>
     in_order s view \<and>
     il_px ` set view = bucket_of lg s nf mt ` io_limit_px ` set orders \<and>
     (\<forall>c \<in> set view.
        let inside = filter (\<lambda>m. bucket_of lg s nf mt (io_limit_px m) = il_px c) orders
        in il_sz c = Sz (sum_list (map (\<lambda>m. sz_value (io_sz m)) inside)) \<and> il_n c = length inside)"

definition book_priced :: "(u64 \<Rightarrow> u32) \<Rightarrow> order_book \<Rightarrow> bool" where
  "book_priced lg b \<longleftrightarrow> (\<forall>m \<in> set (snap_orders (to_snapshot b)). priced lg (io_limit_px m))"

lemma visited_priority: "visited s m = map price_level (in_priority s m)"
  by (cases s) (simp_all add: visited_def in_priority_def)

lemma filter_visited:
  "filter (\<lambda>x. P (il_px x)) (map price_level m) = map price_level (filter (\<lambda>e. P (fst e)) m)"
  by (simp add: filter_map comp_def)

lemma filter_flat:
  assumes "\<forall>e \<in> set m. level_ok s (fst e) (snd e)"
  shows "filter (\<lambda>o1. P (io_limit_px o1)) (flat m) = flat (filter (\<lambda>e. P (fst e)) m)"
  using assms
proof (induction m)
  case (Cons e m)
  have "filter (\<lambda>o1. P (io_limit_px o1)) (map snd l) = (if P p then map snd l else [])" if "level_ok s p l" for p l
    using that by (induction l) (auto simp: level_ok_def)
  from this [of "fst e" "snd e"] Cons show ?case by simp
qed simp

lemma total_visited:
  "total_sz (map price_level m) = sum_list (map (\<lambda>o1. sz_value (io_sz o1)) (flat m))"
  "total_n (map price_level m) = length (flat m)"
proof -
  have "flat m = concat (map (kl_to_vec \<circ> snd) m)" by (simp add: flat_def comp_def case_prod_unfold)
  with visited_totals [of Ask m] show
    "total_sz (map price_level m) = sum_list (map (\<lambda>o1. sz_value (io_sz o1)) (flat m))"
    "total_n (map price_level m) = length (flat m)" by (simp_all add: visited_def)
qed

lemma levels_ok_priority: "levels_inv s m \<Longrightarrow> \<forall>e \<in> set (in_priority s m). level_ok s (fst e) (snd e) \<and> snd e \<noteq> []"
  by (cases s) (auto simp: levels_inv_def in_priority_def)

lemma visited_px:
  assumes "levels_inv s m"
  shows "il_px ` set (visited s m) = io_limit_px ` set (flat (in_priority s m))"
proof -
  have "fst e \<in> io_limit_px ` snd ` set (snd e) \<and> (\<forall>o1 \<in> snd ` set (snd e). io_limit_px o1 = fst e)"
    if "e \<in> set (in_priority s m)" for e
  proof -
    from levels_ok_priority [OF assms] that obtain x xs where "snd e = x # xs" "level_ok s (fst e) (snd e)"
      by (metis list.exhaust)
    then show ?thesis by (force simp: level_ok_def)
  qed
  then have "io_limit_px ` snd ` set (snd e) = {fst e}" if "e \<in> set (in_priority s m)" for e
    using that by blast
  then show ?thesis unfolding visited_priority set_flat image_UN by (simp add: image_image UNION_singleton_eq_range)
qed

lemma aggregate_is_view:
  assumes inv: "levels_inv s m" and pr: "\<forall>o1 \<in> set (flat (in_priority s m)). priced lg (io_limit_px o1)"
    and v: "view_ok nf mt"
  shows "is_view lg s nf mt (flat (in_priority s m)) (aggregate (bucket_of lg s nf mt) (visited s m))"
proof -
  let ?bk = "bucket_of lg s nf mt" and ?os = "flat (in_priority s m)"
  have "\<forall>l \<in> set (visited s m). priced lg (il_px l)" using pr visited_px [OF inv] by (metis imageE imageI)
  then have ord: "in_order s (aggregate ?bk (visited s m))"
    using inv v by (intro aggregate_bucketed_in_order in_order_visited) (auto simp: levels_inv_def)
  have px: "il_px ` set (aggregate ?bk (visited s m)) = ?bk ` io_limit_px ` set ?os"
    unfolding aggregate_prices image_comp [symmetric] visited_px [OF inv] ..
  have ok: "\<forall>e \<in> set (in_priority s m). level_ok s (fst e) (snd e)" using levels_ok_priority [OF inv] by blast
  have f: "filter (\<lambda>x. ?bk (il_px x) = q) (visited s m) = map price_level (filter (\<lambda>e. ?bk (fst e) = q) (in_priority s m))"
    "filter (\<lambda>o1. ?bk (io_limit_px o1) = q) ?os = flat (filter (\<lambda>e. ?bk (fst e) = q) (in_priority s m))" for q
    unfolding visited_priority filter_visited [of "\<lambda>p. ?bk p = q"] filter_flat [OF ok, of "\<lambda>p. ?bk p = q"] by (rule refl)+
  show ?thesis
    unfolding is_view_def Let_def
    using ord px by (auto dest!: aggregate_level simp: f total_visited)
qed

lemma map_to_l2_levels_view:
  assumes "levels_inv s m" and "\<forall>o1 \<in> set (flat (in_priority s m)). priced lg (io_limit_px o1)" and "view_ok nf mt"
  shows "map_to_l2_levels lg m s n nf mt = Some (limited n (aggregate (bucket_of lg s nf mt) (visited s m)))"
proof -
  have "\<forall>l \<in> set (visited s m). priced lg (il_px l)" using assms(2) visited_px [OF assms(1)] by (metis imageE imageI)
  then show ?thesis using assms(1,3) unfolding map_to_l2_levels_visited
    by (intro l2_levels_bucketed in_order_visited) (auto simp: levels_inv_def)
qed

definition book_view ::
    "(u64 \<Rightarrow> u32) \<Rightarrow> order_book \<Rightarrow> u32 option \<Rightarrow> u64 option \<Rightarrow> inner_level snapshot" where
  "book_view lg b nf mt =
     Snapshot (aggregate (bucket_of lg Bid nf mt) (visited Bid (bids b)))
       (aggregate (bucket_of lg Ask nf mt) (visited Ask (asks b)))"

lemma book_to_l2_snapshot_view:
  assumes "ob_inv b" and "book_priced lg b" and "view_ok nf mt"
  shows "book_to_l2_snapshot lg b n nf mt =
    Some (Snapshot (limited n (snap_bids (book_view lg b nf mt))) (limited n (snap_asks (book_view lg b nf mt))))"
proof -
  have p: "\<forall>o1 \<in> set (flat (in_priority s (ob_side b s))). priced lg (io_limit_px o1)" for s
    using assms(2) queue_of_to_snapshot [of b s]
    by (cases s) (auto simp: book_priced_def snap_orders_def queue_of_def)
  have i: "levels_inv s (ob_side b s)" for s using assms(1) by (cases s) (simp_all add: ob_inv_def ob_side_def)
  show ?thesis
    using map_to_l2_levels_view [OF i [of Bid] p [of Bid] assms(3)] map_to_l2_levels_view [OF i [of Ask] p [of Ask] assms(3)]
    by (simp add: book_to_l2_snapshot_def book_view_def ob_side_def)
qed

section \<open>Rounding twice\<close>

lemma round_up_idem: "0 < inc \<Longrightarrow> inc dvd v \<Longrightarrow> round_up inc v = v"
  by (auto simp: round_up_def)

lemma round_up_coarser:
  assumes "0 < i" "0 < j" "i dvd j"
  shows "round_up j (round_up i v) = round_up j v"
proof (rule antisym)
  note bi = round_up_bounds [OF assms(1), of v] and bj = round_up_bounds [OF assms(2)]
  have "round_up i v \<le> round_up j v" using assms bj [of v] by (intro round_up_least) (auto intro: dvd_trans)
  then show "round_up j (round_up i v) \<le> round_up j v" using assms bj [of v] by (intro round_up_least) auto
  show "round_up j v \<le> round_up j (round_up i v)"
    using assms bi bj [of "round_up i v"] by (intro round_up_least) auto
qed

lemma round_down_coarser:
  assumes "0 < i" "0 < j" "i dvd j"
  shows "round_down j (round_down i v) = round_down j v"
proof (rule antisym)
  note bi = round_down_bounds [OF assms(1), of v] and bj = round_down_bounds [OF assms(2)]
  have "round_down j v \<le> round_down i v" using bj [of v] by (intro round_down_greatest) (auto intro: dvd_trans [OF assms(3)])
  then show "round_down j v \<le> round_down j (round_down i v)" using bj [of v] by (simp add: round_down_greatest)
  show "round_down j (round_down i v) \<le> round_down j v"
    using bi bj [of "round_down i v"] by (intro round_down_greatest) auto
qed

lemma has_digits_unique: "has_digits d v \<Longrightarrow> has_digits e v \<Longrightarrow> d = e"
  using has_digits_mono by (metis order_antisym order_refl)

lemma digits_round_down:
  assumes "valid_view n m" and d: "has_digits d v"
  shows "has_digits d (round_down (increment n m d) v)"
proof -
  let ?w = "round_down (increment n m d) v"
  have "?w \<le> v" using round_down_bounds [OF increment_pos [OF assms(1)]] by blast
  moreover have "10 ^ (d - 1) \<le> ?w" if "d \<noteq> 1"
    using that d increment_dvd(2) [OF assms(1), of d] by (intro round_down_greatest) (auto simp: has_digits_def)
  ultimately show ?thesis using d by (auto simp: has_digits_def)
qed

lemma digits_round_up:
  assumes "valid_view n m" and d: "has_digits d v" and e: "has_digits e (round_up (increment n m d) v)"
  shows "e = d \<or> e = Suc d \<and> round_up (increment n m d) v = 10 ^ d"
proof -
  let ?w = "round_up (increment n m d) v"
  note pos = increment_pos [OF assms(1), of d]
  have le: "v \<le> ?w" using round_up_bounds [OF pos] by blast
  have top: "?w \<le> 10 ^ d"
    using d pos increment_dvd(1) [OF assms(1), of d] by (intro round_up_least) (auto simp: has_digits_def)
  show ?thesis
  proof (cases "?w = 10 ^ d")
    case True
    have "has_digits (Suc d) (10 ^ d)" by (simp add: has_digits_def)
    with True e has_digits_unique show ?thesis by metis
  next
    case False
    with le top d have "has_digits d ?w" by (auto simp: has_digits_def)
    with e has_digits_unique show ?thesis by metis
  qed
qed

text \<open>Rounding to a coarser view from a finer one is rounding once, also across a power of ten.\<close>

lemma round_up_twice:
  assumes v: "valid_view n1 m1" "valid_view n2 m2" and d: "has_digits d v"
    and e: "has_digits e (round_up (increment n1 m1 d) v)" and dv: "increment n1 m1 d dvd increment n2 m2 d"
  shows "round_up (increment n2 m2 e) (round_up (increment n1 m1 d) v) = round_up (increment n2 m2 d) v"
proof -
  note pos = increment_pos [OF v(1)] increment_pos [OF v(2)]
  note once = round_up_coarser [OF pos(1) pos(2) dv, of v]
  from digits_round_up [OF v(1) d e] show ?thesis
  proof (elim disjE conjE)
    assume "e = Suc d" and w: "round_up (increment n1 m1 d) v = 10 ^ d"
    have d1: "1 \<le> d" using d by (simp add: has_digits_def)
    have "round_up (increment n2 m2 d) (10 ^ d) = 10 ^ d" "round_up (increment n2 m2 (Suc d)) (10 ^ d) = 10 ^ d"
      using increment_dvd(1) [OF v(2) d1] increment_dvd(2) [OF v(2), of "Suc d"] d1 pos(2) by (auto intro: round_up_idem)
    with w once \<open>e = Suc d\<close> show ?thesis by simp
  qed (simp add: once)
qed

lemma round_down_twice:
  assumes v: "valid_view n1 m1" "valid_view n2 m2" and d: "has_digits d v"
    and e: "has_digits e (round_down (increment n1 m1 d) v)" and dv: "increment n1 m1 d dvd increment n2 m2 d"
  shows "round_down (increment n2 m2 e) (round_down (increment n1 m1 d) v) = round_down (increment n2 m2 d) v"
proof -
  have "e = d" using digits_round_down [OF v(1) d] e has_digits_unique by metis
  with round_down_coarser [OF increment_pos [OF v(1)] increment_pos [OF v(2)] dv] show ?thesis by simp
qed

section \<open>Aggregating twice\<close>

lemma filter_aggregate:
  "filter (\<lambda>x. Q (il_px x)) (aggregate bk ls) = aggregate bk (filter (\<lambda>x. Q (bk (il_px x))) ls)"
proof (induction bk ls rule: aggregate.induct)
  case (2 bk l ls)
  let ?same = "\<lambda>x. bk (il_px x) = bk (il_px l)"
  have keep: "filter ?same (filter (\<lambda>x. Q (bk (il_px x))) ls) = filter ?same ls" if "Q (bk (il_px l))"
    using that by (auto simp: filter_filter intro: filter_cong)
  have drop: "filter (\<lambda>x. Q (bk (il_px x))) (filter (\<lambda>x. \<not> ?same x) ls) = filter (\<lambda>x. Q (bk (il_px x))) ls"
    if "\<not> Q (bk (il_px l))"
    using that by (auto simp: filter_filter intro: filter_cong)
  have swap: "filter (\<lambda>x. Q (bk (il_px x))) (filter (\<lambda>x. \<not> ?same x) ls) =
      filter (\<lambda>x. \<not> ?same x) (filter (\<lambda>x. Q (bk (il_px x))) ls)"
    by (auto simp: filter_filter intro: filter_cong)
  show ?case
  proof (cases "Q (bk (il_px l))")
    case True
    with 2 show ?thesis by (simp add: Let_def keep swap del: filter_filter)
  next
    case False
    with 2 show ?thesis by (simp add: Let_def drop del: filter_filter)
  qed
qed simp

lemma aggregate_twice:
  assumes "\<And>x. x \<in> set ls \<Longrightarrow> f (bk (il_px x)) = g (il_px x)"
  shows "aggregate f (aggregate bk ls) = aggregate g ls"
  using assms
proof (induction g ls rule: aggregate.induct)
  case (2 g l ls)
  define w where "w = aggregate bk (l # ls)"
  have l: "f (bk (il_px l)) = g (il_px l)" using "2.prems" by simp
  have other: "filter (\<lambda>x. P (f (bk (il_px x)))) (l # ls) = filter (\<lambda>x. P (g (il_px x))) (l # ls)" for P
    using "2.prems" by (intro filter_cong) auto
  obtain h t where w: "w = h # t" and h: "il_px h = bk (il_px l)" by (simp add: w_def Let_def)
  have grp: "h # filter (\<lambda>x. f (il_px x) = f (il_px h)) t = filter (\<lambda>x. f (il_px x) = g (il_px l)) w"
    unfolding w by (simp add: h l)
  have rest: "filter (\<lambda>x. f (il_px x) \<noteq> f (il_px h)) t = filter (\<lambda>x. f (il_px x) \<noteq> g (il_px l)) w"
    unfolding w by (simp add: h l)
  have g1: "filter (\<lambda>x. f (il_px x) = g (il_px l)) w = aggregate bk (l # filter (\<lambda>x. g (il_px x) = g (il_px l)) ls)"
    unfolding w_def filter_aggregate [of "\<lambda>p. f p = g (il_px l)"] other [of "\<lambda>p. p = g (il_px l)"] by simp
  have g2: "filter (\<lambda>x. f (il_px x) \<noteq> g (il_px l)) w = aggregate bk (filter (\<lambda>x. g (il_px x) \<noteq> g (il_px l)) ls)"
    unfolding w_def filter_aggregate [of "\<lambda>p. f p \<noteq> g (il_px l)"] other [of "\<lambda>p. p \<noteq> g (il_px l)"] by simp
  have "aggregate f w = \<lparr>il_px = g (il_px l), il_sz = Sz (total_sz (aggregate bk (l # filter (\<lambda>x. g (il_px x) = g (il_px l)) ls))),
      il_n = total_n (aggregate bk (l # filter (\<lambda>x. g (il_px x) = g (il_px l)) ls))\<rparr>
      # aggregate f (aggregate bk (filter (\<lambda>x. g (il_px x) \<noteq> g (il_px l)) ls))"
    unfolding g1 [symmetric] g2 [symmetric] grp [symmetric] rest [symmetric]
    by (simp only: w aggregate.simps(2) Let_def h l)
  moreover have "aggregate f (aggregate bk (filter (\<lambda>x. g (il_px x) \<noteq> g (il_px l)) ls)) =
      aggregate g (filter (\<lambda>x. g (il_px x) \<noteq> g (il_px l)) ls)"
    using "2.prems" by (intro "2.IH" refl) auto
  ultimately have "aggregate f w = aggregate g (l # ls)"
    by (simp only: aggregate_totals aggregate.simps(2) [of g] Let_def)
  then show ?case unfolding w_def .
qed simp

end
