(* ===== verification/L2_Cache.thy ===== *)
theory L2_Cache
  imports L2_Views Multi_Book "HOL-Library.Log_Nat"
begin

text \<open>
  \<open>refresh_l2_snapshots\<close> (\<open>server/src/listeners/order_book/utils.rs\<close>): the cache of aggregated views of
  each coin, in which a coarse view is derived from a finer one instead of from the book.
\<close>

section \<open>The cache\<close>

record l2_snapshot_params =
  lp_n_sig_figs :: "u32 option"
  lp_mantissa :: "u64 option"

definition l2_snapshot_params_new :: "u32 option \<Rightarrow> u64 option \<Rightarrow> l2_snapshot_params" where
  "l2_snapshot_params_new nf mt = \<lparr>lp_n_sig_figs = nf, lp_mantissa = mt\<rparr>"

type_synonym l2_views = "l2_snapshot_params \<rightharpoonup> inner_level snapshot"
type_synonym l2_snapshots = "coin \<rightharpoonup> l2_views"
type_synonym l2_entries = "(l2_snapshot_params \<times> inner_level snapshot) list"

text \<open>
  The closure \<open>add_new_snapshot\<close>. \<open>entries.len() - idx\<close> never wraps in the calls below; if it did, the
  index would be out of range and \<open>get\<close> would answer \<open>None\<close>.
\<close>

definition add_new_snapshot ::
    "(u64 \<Rightarrow> u32) \<Rightarrow> u32 option \<Rightarrow> u64 option \<Rightarrow> usize \<Rightarrow> l2_entries \<Rightarrow> l2_entries option" where
  "add_new_snapshot lg nf mt idx entries =
     (if 1 \<le> idx \<and> idx \<le> length entries then do {
        snapshot \<leftarrow> snapshot_to_l2_snapshot lg (snd (entries ! (length entries - idx))) None nf mt;
        Some (entries @ [(l2_snapshot_params_new nf mt, snapshot)])
      } else Some entries)"

fun add_mantissas :: "(u64 \<Rightarrow> u32) \<Rightarrow> u32 \<Rightarrow> u64 option list \<Rightarrow> l2_entries \<Rightarrow> l2_entries option" where
  "add_mantissas lg n [] entries = Some entries"
| "add_mantissas lg n (mt # mts) entries = do {
     entries' \<leftarrow> (if mt = Some 5 then add_new_snapshot lg (Some n) mt 2 entries
                  else add_new_snapshot lg (Some n) mt 1 entries);
     add_mantissas lg n mts entries'
   }"

fun add_sig_figs :: "(u64 \<Rightarrow> u32) \<Rightarrow> u32 list \<Rightarrow> l2_entries \<Rightarrow> l2_entries option" where
  "add_sig_figs lg [] entries = Some entries"
| "add_sig_figs lg (n # ns) entries = do {
     entries' \<leftarrow> (if n = 5 then add_mantissas lg n [None, Some 2, Some 5] entries
                  else add_new_snapshot lg (Some n) None 1 entries);
     add_sig_figs lg ns entries'
   }"

definition coin_entries :: "(u64 \<Rightarrow> u32) \<Rightarrow> order_book \<Rightarrow> l2_entries option" where
  "coin_entries lg book = do {
     snapshot \<leftarrow> book_to_l2_snapshot lg book None None None;
     add_sig_figs lg (rev [2, 3, 4, 5]) [(l2_snapshot_params_new None None, snapshot)]
   }"

fun refreshed_views :: "(u64 \<Rightarrow> u32) \<Rightarrow> (coin \<times> order_book) list \<Rightarrow> (coin \<times> l2_views) list option" where
  "refreshed_views lg [] = Some []"
| "refreshed_views lg ((c, book) # rest) = do {
     entries \<leftarrow> coin_entries lg book;
     vs \<leftarrow> refreshed_views lg rest;
     Some ((c, map_of (rev entries)) # vs)
   }"

definition refresh_l2_snapshots ::
    "(u64 \<Rightarrow> u32) \<Rightarrow> order_books \<Rightarrow> l2_snapshots \<Rightarrow> coin set \<Rightarrow> l2_snapshots option" where
  "refresh_l2_snapshots lg books cached dirty =
     (if dirty = {} then Some cached
      else do {
        refreshed \<leftarrow> refreshed_views lg (filter (\<lambda>(c, _). c \<in> dirty) (order_books books));
        Some (cached ++ map_of (rev refreshed))
      })"

section \<open>Deriving one view from another\<close>

text \<open>
  What is assumed of \<open>f64::log10\<close>: the digit count is exact up to \<open>10 ^ k\<close>; and of a book: its prices
  lie between \<open>10 ^ 4\<close> and \<open>10 ^ k\<close> raw units (\<open>0.0001\<close> to \<open>10 ^ (k - 8)\<close>).
\<close>

definition log10_exact_to :: "(u64 \<Rightarrow> u32) \<Rightarrow> nat \<Rightarrow> bool" where
  "log10_exact_to lg k \<longleftrightarrow> k \<le> 18 \<and> (\<forall>v. unat v \<le> 10 ^ k \<longrightarrow> exact_log10 lg v)"

definition prices_between :: "nat \<Rightarrow> nat \<Rightarrow> order_book \<Rightarrow> bool" where
  "prices_between lo hi b \<longleftrightarrow>
     (\<forall>m \<in> set (snap_orders (to_snapshot b)). lo \<le> unat (px_value (io_limit_px m)) \<and> unat (px_value (io_limit_px m)) < hi)"

lemma priced_to:
  assumes "log10_exact_to lg k" and "unat (px_value p) \<le> 10 ^ k"
  shows "priced lg p"
proof -
  have "(10::nat) ^ k \<le> 10 ^ 18" using assms(1) by (intro power_increasing) (auto simp: log10_exact_to_def)
  with assms show ?thesis by (auto simp: priced_def log10_exact_to_def)
qed

lemma rounded_le:
  assumes "priced lg p" and v: "valid_view n m" and k: "unat (px_value p) < 10 ^ k" "1 \<le> k"
  shows "rounded lg s n m p \<le> 10 ^ k"
proof -
  let ?d = "num_digits lg p"
  note d = priced_digits(1) [OF assms(1)] and pos = increment_pos [OF v]
  have "?d \<le> k"
  proof (rule ccontr)
    assume "\<not> ?d \<le> k"
    then have "(10::nat) ^ k \<le> 10 ^ (?d - 1)" by (intro power_increasing) auto
    moreover have "10 ^ (?d - 1) \<le> unat (px_value p)" using \<open>\<not> ?d \<le> k\<close> k(2) d by (auto simp: has_digits_def)
    ultimately show False using k(1) by linarith
  qed
  then have top: "(10::nat) ^ ?d \<le> 10 ^ k" by (intro power_increasing) auto
  show ?thesis
  proof (cases s)
    case Ask
    have "round_up (increment n m ?d) (unat (px_value p)) \<le> 10 ^ ?d"
      using d pos increment_dvd(1) [OF v, of ?d] by (intro round_up_least) (auto simp: has_digits_def)
    from order_trans [OF this top] Ask show ?thesis by (simp add: rounded_def)
  next
    case Bid
    have "round_down (increment n m ?d) (unat (px_value p)) \<le> unat (px_value p)" using round_down_bounds [OF pos] by blast
    with Bid k(1) show ?thesis by (simp add: rounded_def)
  qed
qed

lemma priced_bucket_of:
  assumes lg: "log10_exact_to lg k" "1 \<le> k" and p: "unat (px_value p) < 10 ^ k" and v: "view_ok nf mt"
  shows "priced lg (bucket_of lg s nf mt p)"
proof (cases nf)
  case None
  with priced_to [OF lg(1)] p show ?thesis by simp
next
  case (Some n)
  then have vv: "valid_view n (mant mt)" using v by (simp add: view_ok_def)
  have "priced lg p" using priced_to [OF lg(1)] p by simp
  with vv p lg(2) show ?thesis unfolding Some
    by (intro priced_to [OF lg(1)]) (simp add: unat_bucket_of(1) rounded_le)
qed

definition finer :: "u32 option \<Rightarrow> u64 option \<Rightarrow> u32 option \<Rightarrow> u64 option \<Rightarrow> bool" where
  "finer nf1 mt1 nf2 mt2 \<longleftrightarrow>
     (case (nf1, nf2) of
        (None, _) \<Rightarrow> True
      | (Some n1, Some n2) \<Rightarrow> (\<forall>d \<ge> 5. increment n1 (mant mt1) d dvd increment n2 (mant mt2) d)
      | (Some _, None) \<Rightarrow> False)"

lemma bucket_of_twice:
  assumes p: "priced lg p" "10 ^ 4 \<le> unat (px_value p)" and b: "priced lg (bucket_of lg s nf1 mt1 p)"
    and v: "view_ok nf1 mt1" "view_ok nf2 mt2" and f: "finer nf1 mt1 nf2 mt2"
  shows "bucket_of lg s nf2 mt2 (bucket_of lg s nf1 mt1 p) = bucket_of lg s nf2 mt2 p"
proof (cases nf1)
  case (Some n1)
  with f obtain n2 where n2: "nf2 = Some n2" by (auto simp: finer_def split: option.splits)
  let ?d = "num_digits lg p" and ?e = "num_digits lg (bucket_of lg s nf1 mt1 p)"
  have vv: "valid_view n1 (mant mt1)" "valid_view n2 (mant mt2)" using v Some n2 by (auto simp: view_ok_def)
  note d = priced_digits(1) [OF p(1)] and e = priced_digits(1) [OF b, unfolded Some unat_bucket_of(1) [OF p(1) vv(1)]]
  have "5 \<le> ?d"
  proof (rule ccontr)
    assume "\<not> 5 \<le> ?d"
    then have "(10::nat) ^ ?d \<le> 10 ^ 4" by (intro power_increasing) auto
    with d p(2) show False by (auto simp: has_digits_def)
  qed
  then have dv: "increment n1 (mant mt1) ?d dvd increment n2 (mant mt2) ?d" using f Some n2 by (simp add: finer_def)
  have "rounded lg s n2 (mant mt2) (bucket_of lg s nf1 mt1 p) = rounded lg s n2 (mant mt2) p"
    using round_up_twice [OF vv d _ dv] round_down_twice [OF vv d _ dv] e
    by (cases s) (simp_all add: Some rounded_def unat_bucket_of(1) [OF p(1) vv(1)])
  then show ?thesis
    by (simp add: px_eq_unat n2 unat_bucket_of(1) [OF p(1) vv(2)] unat_bucket_of(1) [OF b vv(2)])
qed simp

lemma l2_levels_cascade:
  assumes lg: "log10_exact_to lg k" "1 \<le> k" and ls: "in_order s ls"
    and p: "\<forall>l \<in> set ls. 10 ^ 4 \<le> unat (px_value (il_px l)) \<and> unat (px_value (il_px l)) < 10 ^ k"
    and v: "view_ok nf1 mt1" "view_ok nf2 mt2" and f: "finer nf1 mt1 nf2 mt2"
  shows "l2_levels_to_l2_levels lg (aggregate (bucket_of lg s nf1 mt1) ls) s None nf2 mt2 =
    Some (aggregate (bucket_of lg s nf2 mt2) ls)"
proof -
  let ?w = "aggregate (bucket_of lg s nf1 mt1) ls"
  have pr: "\<forall>l \<in> set ls. priced lg (il_px l) \<and> priced lg (bucket_of lg s nf1 mt1 (il_px l))"
    using p priced_bucket_of [OF lg _ v(1)] priced_to [OF lg(1)] by (simp add: less_imp_le)
  have "priced lg (il_px c)" if "c \<in> set ?w" for c
  proof -
    have "il_px c \<in> (bucket_of lg s nf1 mt1 \<circ> il_px) ` set ls" using that aggregate_prices [of _ ls] by (metis imageI)
    with pr show ?thesis by auto
  qed
  then have "l2_levels_to_l2_levels lg ?w s None nf2 mt2 = Some (aggregate (bucket_of lg s nf2 mt2) ?w)"
    using pr v ls by (subst l2_levels_bucketed) (auto simp: limited_def intro: aggregate_bucketed_in_order)
  also have "aggregate (bucket_of lg s nf2 mt2) ?w = aggregate (bucket_of lg s nf2 mt2) ls"
    using pr p v f by (intro aggregate_twice bucket_of_twice) auto
  finally show ?thesis .
qed

lemma side_prices:
  assumes "ob_inv b" and "prices_between lo hi b"
  shows "\<forall>l \<in> set (visited s (ob_side b s)). lo \<le> unat (px_value (il_px l)) \<and> unat (px_value (il_px l)) < hi"
    and "in_order s (visited s (ob_side b s))"
proof -
  have i: "levels_inv s (ob_side b s)" using assms(1) by (cases s) (simp_all add: ob_inv_def ob_side_def)
  have "\<forall>q \<in> il_px ` set (visited s (ob_side b s)). lo \<le> unat (px_value q) \<and> unat (px_value q) < hi"
    unfolding visited_px [OF i] using assms(2) queue_of_to_snapshot [of b s]
    by (cases s) (auto simp: prices_between_def snap_orders_def queue_of_def)
  then show "\<forall>l \<in> set (visited s (ob_side b s)). lo \<le> unat (px_value (il_px l)) \<and> unat (px_value (il_px l)) < hi"
    by blast
  show "in_order s (visited s (ob_side b s))" using i by (intro in_order_visited) (simp add: levels_inv_def)
qed

text \<open>A book the cache serves well, and what the cache derives for it.\<close>

definition served :: "(u64 \<Rightarrow> u32) \<Rightarrow> nat \<Rightarrow> order_book \<Rightarrow> bool" where
  "served lg k b \<longleftrightarrow> log10_exact_to lg k \<and> 1 \<le> k \<and> ob_inv b \<and> prices_between (10 ^ 4) (10 ^ k) b"

lemma served_priced: "served lg k b \<Longrightarrow> book_priced lg b"
  using priced_to [of lg k] by (auto simp: served_def book_priced_def prices_between_def less_imp_le)

lemma served_direct:
  "served lg k b \<Longrightarrow> view_ok nf mt \<Longrightarrow> book_to_l2_snapshot lg b None nf mt = Some (book_view lg b nf mt)"
  using book_to_l2_snapshot_view [of b lg nf mt None] served_priced [of lg k b] by (simp add: limited_def served_def)

lemma served_derive:
  assumes "served lg k b" and v: "view_ok nf1 mt1" "view_ok nf2 mt2" "finer nf1 mt1 nf2 mt2"
  shows "snapshot_to_l2_snapshot lg (book_view lg b nf1 mt1) None nf2 mt2 = Some (book_view lg b nf2 mt2)"
proof -
  have a: "log10_exact_to lg k" "1 \<le> k" "ob_inv b" "prices_between (10 ^ 4) (10 ^ k) b"
    using assms(1) by (simp_all add: served_def)
  note cascade = l2_levels_cascade [OF a(1,2) side_prices(2) [OF a(3,4)] side_prices(1) [OF a(3,4)] v]
  show ?thesis using cascade [of Bid] cascade [of Ask] by (simp add: snapshot_to_l2_snapshot_def book_view_def ob_side_def)
qed

definition server_views :: "(u32 option \<times> u64 option) list" where
  "server_views = [(None, None), (Some 5, None), (Some 5, Some 2), (Some 5, Some 5), (Some 4, None), (Some 3, None), (Some 2, None)]"

lemma increment_shift: "increment 5 m (5 + j) = m * 10 ^ j" "increment 4 1 (5 + j) = 10 * 10 ^ j"
    "increment 3 1 (5 + j) = 100 * 10 ^ j" "increment 2 1 (5 + j) = 1000 * 10 ^ j"
proof -
  have "5 + j - 4 = Suc j" "5 + j - 3 = Suc (Suc j)" "5 + j - 2 = Suc (Suc (Suc j))" by simp_all
  then show "increment 5 m (5 + j) = m * 10 ^ j" "increment 4 1 (5 + j) = 10 * 10 ^ j"
    "increment 3 1 (5 + j) = 100 * 10 ^ j" "increment 2 1 (5 + j) = 1000 * 10 ^ j" by (simp_all add: increment_def power_add)
qed

lemma finer_chain:
  "finer None None (Some 5) None" "finer (Some 5) None (Some 5) (Some 2)" "finer (Some 5) None (Some 5) (Some 5)"
  "finer (Some 5) (Some 5) (Some 4) None" "finer (Some 4) None (Some 3) None" "finer (Some 3) None (Some 2) None"
proof -
  have d: "\<exists>j. d = 5 + j" if "5 \<le> d" for d :: nat using that by (auto intro: le_Suc_ex)
  show "finer None None (Some 5) None" by (simp add: finer_def)
  show "finer (Some 5) None (Some 5) (Some 2)" "finer (Some 5) None (Some 5) (Some 5)"
    "finer (Some 5) (Some 5) (Some 4) None" "finer (Some 4) None (Some 3) None" "finer (Some 3) None (Some 2) None"
    by (auto simp: finer_def mant_def dest!: d simp flip: One_nat_def simp del: One_nat_def simp: increment_shift)
qed

lemma server_views_ok: "(nf, mt) \<in> set server_views \<Longrightarrow> view_ok nf mt"
  by (auto simp: server_views_def view_ok_def valid_view_def mant_def)

definition direct_entries :: "(u64 \<Rightarrow> u32) \<Rightarrow> order_book \<Rightarrow> l2_entries" where
  "direct_entries lg b = map (\<lambda>(nf, mt). (l2_snapshot_params_new nf mt, book_view lg b nf mt)) server_views"

lemma coin_entries_direct:
  assumes "served lg k b"
  shows "coin_entries lg b = Some (direct_entries lg b)"
proof -
  have ok: "view_ok None None" "view_ok (Some 5) None" "view_ok (Some 5) (Some 2)" "view_ok (Some 5) (Some 5)"
    "view_ok (Some 4) None" "view_ok (Some 3) None" "view_ok (Some 2) None"
    by (rule server_views_ok; simp add: server_views_def)+
  note step = served_derive [OF assms] and f = finer_chain
  show ?thesis
    unfolding coin_entries_def direct_entries_def server_views_def
    by (simp add: served_direct [OF assms ok(1)] add_new_snapshot_def step [OF ok(1,2) f(1)] step [OF ok(2,3) f(2)]
      step [OF ok(2,4) f(3)] step [OF ok(4,5) f(4)] step [OF ok(5,6) f(5)] step [OF ok(6,7) f(6)])
qed

lemma map_of_views:
  assumes "(nf, mt) \<in> set server_views"
  shows "map_of (rev (direct_entries lg b)) (l2_snapshot_params_new nf mt) = Some (book_view lg b nf mt)"
  using assms by (auto simp: server_views_def direct_entries_def l2_snapshot_params_new_def)

lemma refreshed_views_direct:
  "\<forall>(c, b) \<in> set bs. served lg k b \<Longrightarrow>
    refreshed_views lg bs = Some (map (\<lambda>(c, b). (c, map_of (rev (direct_entries lg b)))) bs)"
  by (induction bs) (auto simp: coin_entries_direct)

lemma map_of_rev_distinct: "distinct (map fst xs) \<Longrightarrow> map_of (rev xs) = map_of xs"
  by (rule map_of_eqI) (auto simp: rev_map [symmetric] map_of_eq_Some_iff)

lemma validate_l2_view_served:
  "validate_l2_view nf nl mt \<Longrightarrow> (nf, mt) \<in> set server_views"
  by (auto simp: validate_l2_view_def server_views_def split: option.splits if_splits)

lemma refresh_direct:
  assumes inv: "books_inv bs" and ok: "\<forall>e \<in> set (order_books bs). served lg k (snd e)"
  shows "refresh_l2_snapshots lg bs cached dirty =
    Some (\<lambda>c. if c \<in> dirty then (case map_of (order_books bs) c of
                Some b \<Rightarrow> Some (map_of (rev (direct_entries lg b))) | None \<Rightarrow> cached c) else cached c)"
proof -
  let ?bs = "filter (\<lambda>(c, _). c \<in> dirty) (order_books bs)"
  let ?f = "\<lambda>b. map_of (rev (direct_entries lg b))"
  have d: "distinct (map fst (order_books bs))" using inv by (simp add: books_inv_def bt_sorted_distinct)
  have dm: "distinct (map fst ?bs)" using d by (rule distinct_map_filter)
  have m: "map_of (map (\<lambda>(c, b). (c, ?f b)) xs) c = map_option ?f (map_of xs c)" for xs :: "(coin \<times> order_book) list" and c
    by (induction xs) auto
  have fl: "map_of (filter (\<lambda>(c, _). c \<in> dirty) xs) c = (if c \<in> dirty then map_of xs c else None)"
    for c and xs :: "(coin \<times> order_book) list" by (induction xs) auto
  have "refreshed_views lg ?bs = Some (map (\<lambda>(c, b). (c, ?f b)) ?bs)"
    using ok by (intro refreshed_views_direct) auto
  moreover have "map_of (rev (map (\<lambda>(c, b). (c, ?f b)) ?bs)) = map_of (map (\<lambda>(c, b). (c, ?f b)) ?bs)"
    using dm by (intro map_of_rev_distinct) (simp add: comp_def case_prod_beta)
  ultimately show ?thesis
    by (auto simp: refresh_l2_snapshots_def m fl map_add_def fun_eq_iff split: option.splits)
qed

section \<open>Prices below \<open>0.0001\<close>\<close>

text \<open>One step of the chain on any snapshot of levels, and the bound the prices stay under.\<close>

definition rebucket ::
    "(u64 \<Rightarrow> u32) \<Rightarrow> inner_level snapshot \<Rightarrow> u32 option \<Rightarrow> u64 option \<Rightarrow> inner_level snapshot" where
  "rebucket lg w nf mt =
     Snapshot (aggregate (bucket_of lg Bid nf mt) (snap_bids w)) (aggregate (bucket_of lg Ask nf mt) (snap_asks w))"

definition levels_below :: "nat \<Rightarrow> inner_level snapshot \<Rightarrow> bool" where
  "levels_below j w \<longleftrightarrow>
     (\<forall>s. in_order s (queue_of w s) \<and> (\<forall>l \<in> set (queue_of w s). unat (px_value (il_px l)) < 10 ^ j))"

lemma queue_of_rebucket [simp]: "queue_of (rebucket lg w nf mt) s = aggregate (bucket_of lg s nf mt) (queue_of w s)"
  by (cases s) (simp_all add: rebucket_def queue_of_def)

lemma levels_below_priced:
  assumes "log10_exact_to lg k" and "j \<le> k" and "levels_below j w"
  shows "\<forall>l \<in> set (queue_of w s). priced lg (il_px l)"
proof
  fix l assume "l \<in> set (queue_of w s)"
  with assms(3) have "unat (px_value (il_px l)) < 10 ^ j" by (auto simp: levels_below_def)
  also have "(10::nat) ^ j \<le> 10 ^ k" using assms(2) by (intro power_increasing) auto
  finally show "priced lg (il_px l)" by (intro priced_to [OF assms(1)]) simp
qed

lemma rebucket_step:
  assumes lg: "log10_exact_to lg k" "j \<le> k" and w: "levels_below j w" and v: "view_ok nf mt" and j: "1 \<le> j"
  shows "snapshot_to_l2_snapshot lg w None nf mt = Some (rebucket lg w nf mt)"
    and "levels_below (Suc j) (rebucket lg w nf mt)"
proof -
  note pr = levels_below_priced [OF lg w]
  have ord: "in_order s (queue_of w s)" for s using w by (simp add: levels_below_def)
  have "l2_levels_to_l2_levels lg (queue_of w s) s None nf mt = Some (queue_of (rebucket lg w nf mt) s)" for s
    using l2_levels_bucketed [OF ord pr v, of s None] by (simp add: limited_def)
  from this [of Bid] this [of Ask] show "snapshot_to_l2_snapshot lg w None nf mt = Some (rebucket lg w nf mt)"
    by (simp add: snapshot_to_l2_snapshot_def queue_of_def rebucket_def)
  have "unat (px_value (bucket_of lg s nf mt (il_px l))) < 10 ^ Suc j" if l: "l \<in> set (queue_of w s)" for s l
  proof -
    have p: "unat (px_value (il_px l)) < 10 ^ j" using w l by (auto simp: levels_below_def)
    have "unat (px_value (bucket_of lg s nf mt (il_px l))) \<le> 10 ^ j"
    proof (cases nf)
      case (Some n)
      then have vv: "valid_view n (mant mt)" using v by (simp add: view_ok_def)
      have "priced lg (il_px l)" using pr l by blast
      with vv p j show ?thesis unfolding Some by (simp add: unat_bucket_of(1) rounded_le)
    qed (use p in simp)
    then show ?thesis using power_strict_increasing [of j "Suc j" "10::nat"] by linarith
  qed
  moreover have "in_order s (aggregate (bucket_of lg s nf mt) (queue_of w s))" for s
    by (rule aggregate_bucketed_in_order [OF ord pr v])
  moreover have "il_px l \<in> (bucket_of lg s nf mt \<circ> il_px) ` set (queue_of w s)"
    if "l \<in> set (aggregate (bucket_of lg s nf mt) (queue_of w s))" for s l
    using that aggregate_prices by (metis imageI)
  ultimately show "levels_below (Suc j) (rebucket lg w nf mt)"
    unfolding levels_below_def queue_of_rebucket by fastforce
qed

lemma few_digits:
  assumes "priced lg p" and "unat (px_value p) < 10 ^ 4"
  shows "num_digits lg p \<le> 4"
proof (rule ccontr)
  assume "\<not> num_digits lg p \<le> 4"
  then have "(10::nat) ^ 4 \<le> 10 ^ (num_digits lg p - 1)" by (intro power_increasing) auto
  with priced_digits(1) [OF assms(1)] assms(2) \<open>\<not> num_digits lg p \<le> 4\<close> show False by (auto simp: has_digits_def)
qed

text \<open>Below \<open>10 ^ 4\<close> five and four figures keep the price, and mantissa 5 rounds outward to a multiple of 5.\<close>

lemma small_buckets:
  assumes "priced lg p" and "unat (px_value p) < 10 ^ 4"
  shows "bucket_of lg s (Some 5) None p = p" and "bucket_of lg s (Some 4) None p = p"
    and "unat (px_value (bucket_of lg s (Some 5) (Some 5) p)) =
      (case s of Ask \<Rightarrow> round_up 5 (unat (px_value p)) | Bid \<Rightarrow> round_down 5 (unat (px_value p)))"
proof -
  have v: "valid_view 5 (mant None)" "valid_view 4 (mant None)" "valid_view 5 (mant (Some 5))"
    by (simp_all add: valid_view_def mant_def)
  have i: "increment 5 m (num_digits lg p) = m" "increment 4 m (num_digits lg p) = m" for m
    using few_digits [OF assms] by (simp_all add: increment_def)
  show "bucket_of lg s (Some 5) None p = p" "bucket_of lg s (Some 4) None p = p"
    using unat_bucket_of(1) [OF assms(1) v(1), of s] unat_bucket_of(1) [OF assms(1) v(2), of s]
    by (cases s; simp add: px_eq_unat rounded_def i mant_def round_up_def round_down_def)+
  show "unat (px_value (bucket_of lg s (Some 5) (Some 5) p)) =
      (case s of Ask \<Rightarrow> round_up 5 (unat (px_value p)) | Bid \<Rightarrow> round_down 5 (unat (px_value p)))"
    using unat_bucket_of(1) [OF assms(1) v(3), of s] by (cases s) (simp_all add: rounded_def i mant_def)
qed

lemma small_mantissa:
  assumes "priced lg p" and "unat (px_value p) < 10 ^ 4"
  shows "5 dvd unat (px_value (bucket_of lg s (Some 5) (Some 5) p))"
    and "unat (px_value (bucket_of lg s (Some 5) (Some 5) p)) \<le> 10 ^ 4"
    and "5 dvd unat (px_value p) \<Longrightarrow> bucket_of lg s (Some 5) (Some 5) p = p"
proof -
  note b = small_buckets(3) [OF assms, of s] and up = round_up_bounds [of 5 "unat (px_value p)"]
    and dn = round_down_bounds [of 5 "unat (px_value p)"]
  show "5 dvd unat (px_value (bucket_of lg s (Some 5) (Some 5) p))" using b up dn by (cases s) auto
  have "round_up 5 (unat (px_value p)) \<le> 10 ^ 4" by (rule round_up_least) (use assms(2) in auto)
  then show "unat (px_value (bucket_of lg s (Some 5) (Some 5) p)) \<le> 10 ^ 4" using b dn assms(2) by (cases s) auto
  show "bucket_of lg s (Some 5) (Some 5) p = p" if "5 dvd unat (px_value p)"
    using b that by (cases s) (auto simp: px_eq_unat round_up_idem round_down_def)
qed

text \<open>The four-figure view derived from the mantissa-5 view is that view again.\<close>

lemma four_after_mantissa:
  assumes "log10_exact_to lg k" and "5 \<le> k" and "priced lg p" and "unat (px_value p) < 10 ^ 4"
  shows "bucket_of lg s (Some 4) None (bucket_of lg s (Some 5) (Some 5) p) = bucket_of lg s (Some 5) (Some 5) p"
proof -
  let ?q = "bucket_of lg s (Some 5) (Some 5) p"
  note q = small_mantissa [OF assms(3,4), of s]
  have "(10::nat) ^ 4 \<le> 10 ^ k" using assms(2) by (intro power_increasing) auto
  then have pq: "priced lg ?q" using q(2) by (intro priced_to [OF assms(1)]) linarith
  show ?thesis
  proof (cases "unat (px_value ?q) < 10 ^ 4")
    case True
    then show ?thesis by (rule small_buckets(2) [OF pq])
  next
    case False
    then have top: "unat (px_value ?q) = 10 ^ 4" using q(2) by simp
    have "has_digits 5 (unat (px_value ?q))" by (simp add: top has_digits_def)
    then have "num_digits lg ?q = 5" using has_digits_unique priced_digits(1) [OF pq] by blast
    moreover have "valid_view 4 (mant None)" by (simp add: valid_view_def mant_def)
    ultimately show ?thesis
      using unat_bucket_of(1) [OF pq, of 4 None s] top
      by (cases s) (simp_all add: px_eq_unat rounded_def increment_def mant_def round_up_def round_down_def)
  qed
qed

lemma aggregate_cong:
  assumes "\<And>x. x \<in> set ls \<Longrightarrow> f (il_px x) = g (il_px x)"
  shows "aggregate f ls = aggregate g ls"
  using aggregate_twice [of ls f "\<lambda>p. p" f] aggregate_twice [of ls f "\<lambda>p. p" g] assms by simp

lemma small_chain:
  assumes inv: "ob_inv b" and lg: "log10_exact_to lg 6" and p: "prices_between 0 (10 ^ 4) b"
  shows "rebucket lg (book_view lg b None None) (Some 5) None = book_view lg b None None"
    and "rebucket lg (book_view lg b None None) (Some 5) (Some 5) = book_view lg b (Some 5) (Some 5)"
    and "rebucket lg (book_view lg b (Some 5) (Some 5)) (Some 4) None = book_view lg b (Some 5) (Some 5)"
    and "book_view lg b (Some 4) None = book_view lg b None None"
    and "levels_below 4 (book_view lg b None None)"
proof -
  have l: "priced lg (il_px l) \<and> unat (px_value (il_px l)) < 10 ^ 4" if "l \<in> set (visited s (ob_side b s))" for s l
  proof
    show "unat (px_value (il_px l)) < 10 ^ 4" using side_prices(1) [OF inv p, of s] that by blast
    then show "priced lg (il_px l)" by (intro priced_to [OF lg]) simp
  qed
  have lb: "priced lg (il_px x) \<and> unat (px_value (il_px x)) < 10 ^ 4" if "x \<in> set (visited Bid (bids b))" for x
    using l [of x Bid] that by (simp add: ob_side_def)
  have la: "priced lg (il_px x) \<and> unat (px_value (il_px x)) < 10 ^ 4" if "x \<in> set (visited Ask (asks b))" for x
    using l [of x Ask] that by (simp add: ob_side_def)
  show "rebucket lg (book_view lg b None None) (Some 5) None = book_view lg b None None"
    using lb la by (auto simp: rebucket_def book_view_def intro!: aggregate_twice small_buckets(1))
  show "rebucket lg (book_view lg b None None) (Some 5) (Some 5) = book_view lg b (Some 5) (Some 5)"
    by (auto simp: rebucket_def book_view_def intro!: aggregate_twice)
  show "rebucket lg (book_view lg b (Some 5) (Some 5)) (Some 4) None = book_view lg b (Some 5) (Some 5)"
    using lb la by (auto simp: rebucket_def book_view_def intro!: aggregate_twice four_after_mantissa [OF lg])
  show "book_view lg b (Some 4) None = book_view lg b None None"
    using lb la by (auto simp: book_view_def intro!: aggregate_cong small_buckets(2))
  have "in_order s (aggregate (bucket_of lg s None None) (visited s (ob_side b s)))" for s
    using side_prices(2) [OF inv p] l by (intro aggregate_bucketed_in_order) (auto simp: view_ok_def)
  moreover have "il_px x \<in> il_px ` set (visited s (ob_side b s))"
    if "x \<in> set (aggregate (bucket_of lg s None None) (visited s (ob_side b s)))" for s x
    using imageI [OF that, of il_px] by (simp add: aggregate_prices comp_def)
  moreover have "queue_of (book_view lg b None None) s = aggregate (bucket_of lg s None None) (visited s (ob_side b s))" for s
    by (cases s) (simp_all add: book_view_def queue_of_def ob_side_def)
  ultimately show "levels_below 4 (book_view lg b None None)"
    using l unfolding levels_below_def by fastforce
qed

lemma small_entries:
  assumes "ob_inv b" and "log10_exact_to lg 6" and "prices_between 0 (10 ^ 4) b"
  obtains es where "coin_entries lg b = Some es"
    and "map_of (rev es) (l2_snapshot_params_new (Some 4) None) = Some (book_view lg b (Some 5) (Some 5))"
proof -
  let ?raw = "book_view lg b None None" and ?w = "book_view lg b (Some 5) (Some 5)"
  have ok: "view_ok None None" "view_ok (Some 5) None" "view_ok (Some 5) (Some 2)" "view_ok (Some 5) (Some 5)"
    "view_ok (Some 4) None" "view_ok (Some 3) None" "view_ok (Some 2) None"
    by (rule server_views_ok; simp add: server_views_def)+
  have pr: "book_priced lg b" using assms(2,3) priced_to by (auto simp: book_priced_def prices_between_def)
  note c = small_chain [OF assms] and step = rebucket_step [OF assms(2)]
  have w: "levels_below 5 ?w" using step(2) [OF _ c(5) ok(4)] by (simp add: c(2))
  have raw: "book_to_l2_snapshot lg b None None None = Some ?raw"
    using book_to_l2_snapshot_view [OF assms(1) pr ok(1), of None] by (simp add: limited_def)
  have chain: "snapshot_to_l2_snapshot lg ?raw None (Some 5) None = Some ?raw"
    "snapshot_to_l2_snapshot lg ?raw None (Some 5) (Some 2) = Some (rebucket lg ?raw (Some 5) (Some 2))"
    "snapshot_to_l2_snapshot lg ?raw None (Some 5) (Some 5) = Some ?w"
    "snapshot_to_l2_snapshot lg ?w None (Some 4) None = Some ?w"
    "snapshot_to_l2_snapshot lg ?w None (Some 3) None = Some (rebucket lg ?w (Some 3) None)"
    "snapshot_to_l2_snapshot lg (rebucket lg ?w (Some 3) None) None (Some 2) None =
       Some (rebucket lg (rebucket lg ?w (Some 3) None) (Some 2) None)"
    using step(1) [OF _ c(5) ok(2)] step(1) [OF _ c(5) ok(3)] step(1) [OF _ c(5) ok(4)] step(1) [OF _ w ok(5)]
      step(1) [OF _ w ok(6)] step(1) [OF _ step(2) [OF _ w ok(6)] ok(7)] by (simp_all add: c)
  have "\<exists>es. coin_entries lg b = Some es \<and> map_of (rev es) (l2_snapshot_params_new (Some 4) None) = Some ?w"
    by (simp add: coin_entries_def raw add_new_snapshot_def chain) (simp add: l2_snapshot_params_new_def)
  with that show thesis by blast
qed

lemma mantissa_changes:
  assumes "ob_inv b" and "log10_exact_to lg 6" and "prices_between 0 (10 ^ 4) b"
  shows "book_view lg b (Some 5) (Some 5) = book_view lg b None None \<longleftrightarrow>
    (\<forall>s. \<forall>l \<in> set (visited s (ob_side b s)). 5 dvd unat (px_value (il_px l)))"
proof -
  let ?f = "\<lambda>s. bucket_of lg s (Some 5) (Some 5)" and ?vis = "\<lambda>s. visited s (ob_side b s)"
  have l: "priced lg (il_px l)" "unat (px_value (il_px l)) < 10 ^ 4" if "l \<in> set (?vis s)" for s l
  proof -
    show "unat (px_value (il_px l)) < 10 ^ 4" using side_prices(1) [OF assms(1,3), of s] that by blast
    then show "priced lg (il_px l)" by (intro priced_to [OF assms(2)]) simp
  qed
  note m = small_mantissa [OF l]
  have side: "aggregate (?f s) (?vis s) = aggregate (bucket_of lg s None None) (?vis s) \<longleftrightarrow>
      (\<forall>l \<in> set (?vis s). 5 dvd unat (px_value (il_px l)))" for s
  proof
    assume "aggregate (?f s) (?vis s) = aggregate (bucket_of lg s None None) (?vis s)"
    then have "(?f s \<circ> il_px) ` set (?vis s) = (bucket_of lg s None None \<circ> il_px) ` set (?vis s)"
      by (metis aggregate_prices)
    then have "il_px x \<in> (?f s \<circ> il_px) ` set (?vis s)" if "x \<in> set (?vis s)" for x
      using that by (simp add: comp_def)
    then show "\<forall>l \<in> set (?vis s). 5 dvd unat (px_value (il_px l))" using m(1) by fastforce
  qed (auto intro!: aggregate_cong m(3))
  have "(\<forall>s. P s) \<longleftrightarrow> P Bid \<and> P Ask" for P by (metis (full_types) side.exhaust)
  then show ?thesis using side [of Bid] side [of Ask] by (simp add: book_view_def ob_side_def)
qed

section \<open>Properties\<close>

text \<open>A digit count that is exact everywhere, and a book quoted above \<open>0.0001\<close>.\<close>

definition int_log10 :: "u64 \<Rightarrow> u32" where
  "int_log10 v = floorlog 10 (unat v) - 1"

lemma int_log10_exact: "exact_log10 int_log10 v"
proof (cases "v = 0")
  case False
  then have "0 < unat v" by (simp add: unat_gt_0)
  then have "10 ^ (floorlog 10 (unat v) - 1) \<le> unat v \<and> unat v < 10 ^ floorlog 10 (unat v)" "0 < floorlog 10 (unat v)"
    using floorlog_bounds [of "unat v" 10] floorlog_eq_zero_iff [of 10 "unat v"] by auto
  then show ?thesis by (simp add: exact_log10_def int_log10_def)
qed (simp add: exact_log10_def)

definition quoted_book :: order_book where
  "quoted_book = snd (run_book ob_step ob_new
     [AddOrder (mk_order Bid 1234567 5 1) None, AddOrder (mk_order Bid 1234599 6 2) None,
      AddOrder (mk_order Ask 9999991 3 3) None])"

lemma quoted_book_facts:
  "ob_inv quoted_book"
  "to_snapshot quoted_book = Snapshot [mk_order Bid 1234599 6 2, mk_order Bid 1234567 5 1] [mk_order Ask 9999991 3 3]"
proof -
  let ?ops = "[AddOrder (mk_order Bid 1234567 5 1) None, AddOrder (mk_order Bid 1234599 6 2) None,
      AddOrder (mk_order Ask 9999991 3 3) None]"
  have "ops_allowed (Snapshot [] []) ?ops" by code_simp
  then show "ob_inv quoted_book"
    unfolding quoted_book_def using ob.run_inv [OF ob.inv_empty, of ?ops] by (simp add: ob.view_empty)
  show "to_snapshot quoted_book = Snapshot [mk_order Bid 1234599 6 2, mk_order Bid 1234567 5 1] [mk_order Ask 9999991 3 3]"
    by code_simp
qed

lemma quoted_book_served: "served int_log10 14 quoted_book"
  by (simp add: served_def log10_exact_to_def int_log10_exact quoted_book_facts prices_between_def snap_orders_def mk_order_def)

text \<open>
  C24. The L2 view of a book is right: for every depth, the sides returned are the first
  levels of a view in which each price level is the outward-rounded bucket of the orders in it, with
  their total size and number, best price first, no bucket twice and none missing. Hypotheses:
  the book invariant, a digit count that is exact at the prices on the book, and a view the server offers.
\<close>

theorem l2_view_of_book:
  assumes "ob_inv b" and "book_priced lg b" and "view_ok nf mt"
  shows "\<exists>vb va. (\<forall>n. book_to_l2_snapshot lg b n nf mt = Some (Snapshot (limited n vb) (limited n va))) \<and>
    is_view lg Bid nf mt (snap_bids (to_snapshot b)) vb \<and> is_view lg Ask nf mt (snap_asks (to_snapshot b)) va"
proof -
  have p: "\<forall>o1 \<in> set (flat (in_priority s (ob_side b s))). priced lg (io_limit_px o1)" for s
    using assms(2) queue_of_to_snapshot [of b s]
    by (cases s) (auto simp: book_priced_def snap_orders_def queue_of_def)
  have i: "levels_inv s (ob_side b s)" for s using assms(1) by (cases s) (simp_all add: ob_inv_def ob_side_def)
  have "is_view lg s nf mt (queue_of (to_snapshot b) s) (queue_of (book_view lg b nf mt) s)" for s
    using aggregate_is_view [OF i [of s] p [of s] assms(3)]
    by (cases s) (simp_all add: book_view_def queue_of_def ob_side_def to_snapshot_def in_priority_def flat_def)
  from this [of Bid] this [of Ask] show ?thesis
    using book_to_l2_snapshot_view [OF assms] by (auto simp: queue_of_def)
qed

theorem l2_view_of_book_witness:
  "\<exists>vb va. (\<forall>n. book_to_l2_snapshot int_log10 quoted_book n (Some 5) (Some 2) = Some (Snapshot (limited n vb) (limited n va))) \<and>
    is_view int_log10 Bid (Some 5) (Some 2) (snap_bids (to_snapshot quoted_book)) vb \<and>
    is_view int_log10 Ask (Some 5) (Some 2) (snap_asks (to_snapshot quoted_book)) va"
  by (rule l2_view_of_book [OF quoted_book_facts(1) served_priced [OF quoted_book_served]])
    (simp add: view_ok_def valid_view_def mant_def)

text \<open>
  C23. At ordinary prices the L2 cache answers every L2 subscription the server accepts. Let every book be well formed
  with all its prices at or above \<open>0.0001\<close> (\<open>10 ^ 4\<close> raw) and below \<open>10 ^ k\<close> raw, and the floating point digit
  count exact up to \<open>10 ^ k\<close>. Then after a refresh each coin that was dirty has, for every accepted combination of
  significant figures and mantissa, the very view a direct computation on its book gives, although the code derives
  the coarse views from finer ones, and cutting it to a depth gives the direct view of that depth; the other coins
  keep their cached views. Below \<open>0.0001\<close> this fails, as the last property of this theory shows.
\<close>

theorem refresh_serves_every_subscription:
  assumes "books_inv bs" and "\<forall>e \<in> set (order_books bs). served lg k (snd e)"
  shows "\<exists>cached'. refresh_l2_snapshots lg bs cached dirty = Some cached' \<and>
    (\<forall>c. c \<notin> dirty \<or> map_of (order_books bs) c = None \<longrightarrow> cached' c = cached c) \<and>
    (\<forall>c b nf nl mt. c \<in> dirty \<and> map_of (order_books bs) c = Some b \<and> validate_l2_view nf nl mt \<longrightarrow>
       (\<exists>views view. cached' c = Some views \<and> views (l2_snapshot_params_new nf mt) = Some view \<and>
          book_to_l2_snapshot lg b None nf mt = Some view \<and>
          (\<forall>n. book_to_l2_snapshot lg b (Some n) nf mt = Some (snapshot_truncate view n))))"
proof -
  have "served lg k b" if "map_of (order_books bs) c = Some b" for c b
    using assms(2) map_of_SomeD [OF that] by auto
  then have "book_to_l2_snapshot lg b n nf mt =
      Some (Snapshot (limited n (snap_bids (book_view lg b nf mt))) (limited n (snap_asks (book_view lg b nf mt))))"
    if "map_of (order_books bs) c = Some b" "validate_l2_view nf nl mt" for c b n nf nl mt
    using that server_views_ok [OF validate_l2_view_served] served_priced [of lg k b]
    by (intro book_to_l2_snapshot_view) (auto simp: served_def)
  then show ?thesis
    unfolding refresh_direct [OF assms]
    by (auto simp: map_of_views [OF validate_l2_view_served] limited_def snapshot_truncate_def)
qed

theorem refresh_serves_every_subscription_witness:
  "let bs = \<lparr>order_books = [(Coin ''BTC'', quoted_book)]\<rparr>
   in books_inv bs \<and> (\<exists>cached'. refresh_l2_snapshots int_log10 bs (\<lambda>_. None) {Coin ''BTC''} = Some cached' \<and>
     (\<exists>views view. cached' (Coin ''BTC'') = Some views \<and> views (l2_snapshot_params_new (Some 3) None) = Some view \<and>
       book_to_l2_snapshot int_log10 quoted_book None (Some 3) None = Some view))"
proof -
  let ?bs = "\<lparr>order_books = [(Coin ''BTC'', quoted_book)]\<rparr>"
  have inv: "books_inv ?bs" using quoted_book_facts by (simp add: books_inv_def snap_orders_def mk_order_def)
  have "\<forall>e \<in> set (order_books ?bs). served int_log10 14 (snd e)" using quoted_book_served by simp
  from refresh_serves_every_subscription [OF inv this, of "\<lambda>_. None" "{Coin ''BTC''}"] obtain cached' where
    r: "refresh_l2_snapshots int_log10 ?bs (\<lambda>_. None) {Coin ''BTC''} = Some cached'"
    and all: "\<forall>c b nf nl mt. c \<in> {Coin ''BTC''} \<and> map_of (order_books ?bs) c = Some b \<and> validate_l2_view nf nl mt \<longrightarrow>
       (\<exists>views view. cached' c = Some views \<and> views (l2_snapshot_params_new nf mt) = Some view \<and>
          book_to_l2_snapshot int_log10 b None nf mt = Some view \<and>
          (\<forall>n. book_to_l2_snapshot int_log10 b (Some n) nf mt = Some (snapshot_truncate view n)))" by (elim exE conjE) (rule that)
  have "validate_l2_view (Some 3) None None" by (simp add: validate_l2_view_def MAX_LEVELS_def DEFAULT_LEVELS_def)
  with all [rule_format, of "Coin ''BTC''" quoted_book "Some 3" None None]
  have "\<exists>views view. cached' (Coin ''BTC'') = Some views \<and> views (l2_snapshot_params_new (Some 3) None) = Some view \<and>
      book_to_l2_snapshot int_log10 quoted_book None (Some 3) None = Some view" by auto
  with r inv show ?thesis unfolding Let_def by blast
qed

text \<open>
  C35. Below \<open>0.0001\<close> the chain loses a figure. For every well-formed book whose prices are all below \<open>10 ^ 4\<close> raw
  units, with exact digit counts, the cached four-figure view is what a direct computation gives for five figures
  with mantissa 5 (prices moved outward to multiples of 5), while the direct four-figure view shows the prices as
  they are; the two agree exactly when every resting price is a multiple of 5.
\<close>

theorem cached_four_figures_off:
  assumes "ob_inv b" and "log10_exact_to lg 6"
    and "\<forall>m \<in> set (snap_orders (to_snapshot b)). unat (px_value (io_limit_px m)) < 10 ^ 4"
  shows "\<exists>es cached direct. coin_entries lg b = Some es \<and>
    map_of (rev es) (l2_snapshot_params_new (Some 4) None) = Some cached \<and>
    book_to_l2_snapshot lg b None (Some 4) None = Some direct \<and>
    book_to_l2_snapshot lg b None (Some 5) (Some 5) = Some cached \<and>
    book_to_l2_snapshot lg b None None None = Some direct \<and>
    (cached = direct \<longleftrightarrow> (\<forall>m \<in> set (snap_orders (to_snapshot b)). 5 dvd unat (px_value (io_limit_px m))))"
proof -
  let ?raw = "book_view lg b None None" and ?w = "book_view lg b (Some 5) (Some 5)"
  have p: "prices_between 0 (10 ^ 4) b" using assms(3) by (simp add: prices_between_def)
  obtain es where es: "coin_entries lg b = Some es"
    "map_of (rev es) (l2_snapshot_params_new (Some 4) None) = Some ?w" by (rule small_entries [OF assms(1,2) p])
  have pr: "book_priced lg b" using assms(2) p priced_to by (auto simp: book_priced_def prices_between_def)
  have direct: "book_to_l2_snapshot lg b None nf mt = Some (book_view lg b nf mt)" if "(nf, mt) \<in> set server_views" for nf mt
    using book_to_l2_snapshot_view [OF assms(1) pr server_views_ok [OF that], of None] by (simp add: limited_def)
  have same: "?w = ?raw \<longleftrightarrow> (\<forall>s. \<forall>l \<in> set (visited s (ob_side b s)). 5 dvd unat (px_value (il_px l)))"
    by (rule mantissa_changes [OF assms(1,2) p])
  have "il_px ` set (visited s (ob_side b s)) = io_limit_px ` set (queue_of (to_snapshot b) s)" for s
  proof -
    have "levels_inv s (ob_side b s)" using assms(1) by (cases s) (simp_all add: ob_inv_def ob_side_def)
    from visited_px [OF this] queue_of_to_snapshot [of b s] show ?thesis by (cases s) (simp_all add: queue_of_def)
  qed
  then have "(\<forall>p \<in> il_px ` set (visited s (ob_side b s)). 5 dvd unat (px_value p)) \<longleftrightarrow>
      (\<forall>p \<in> io_limit_px ` set (queue_of (to_snapshot b) s). 5 dvd unat (px_value p))" for s by simp
  moreover have "(\<forall>s. P s) \<longleftrightarrow> P Bid \<and> P Ask" for P by (metis (full_types) side.exhaust)
  ultimately have "?w = ?raw \<longleftrightarrow> (\<forall>m \<in> set (snap_orders (to_snapshot b)). 5 dvd unat (px_value (io_limit_px m)))"
    unfolding same snap_orders_sides [of _ Bid] by (simp add: ball_Un opposite_def)
  then show ?thesis using es direct small_chain(4) [OF assms(1,2) p] by (simp add: server_views_def)
qed


text \<open>A bid at 1234 is shown at 1230 by the cache; the ask at 1240 is not moved.\<close>

definition penny_book :: order_book where
  "penny_book = snd (run_book ob_step ob_new [AddOrder (mk_order Bid 1234 5 1) None, AddOrder (mk_order Ask 1240 2 2) None])"

theorem cached_four_figures_off_witness:
  "\<exists>es cached direct. coin_entries int_log10 penny_book = Some es \<and>
    map_of (rev es) (l2_snapshot_params_new (Some 4) None) = Some cached \<and>
    book_to_l2_snapshot int_log10 penny_book None (Some 4) None = Some direct \<and> cached \<noteq> direct \<and>
    snap_bids cached = [\<lparr>il_px = Px 1230, il_sz = Sz 5, il_n = 1\<rparr>]"
proof -
  let ?ops = "[AddOrder (mk_order Bid 1234 5 1) None, AddOrder (mk_order Ask 1240 2 2) None]"
  have "ops_allowed (Snapshot [] []) ?ops" by code_simp
  then have inv: "ob_inv penny_book"
    unfolding penny_book_def using ob.run_inv [OF ob.inv_empty, of ?ops] by (simp add: ob.view_empty)
  have orders: "to_snapshot penny_book = Snapshot [mk_order Bid 1234 5 1] [mk_order Ask 1240 2 2]" by code_simp
  have lg: "log10_exact_to int_log10 6" by (simp add: log10_exact_to_def int_log10_exact)
  have low: "\<forall>m \<in> set (snap_orders (to_snapshot penny_book)). unat (px_value (io_limit_px m)) < 10 ^ 4"
    by (simp add: orders snap_orders_def mk_order_def)
  obtain es cached direct where r: "coin_entries int_log10 penny_book = Some es"
    "map_of (rev es) (l2_snapshot_params_new (Some 4) None) = Some cached"
    "book_to_l2_snapshot int_log10 penny_book None (Some 4) None = Some direct"
    "book_to_l2_snapshot int_log10 penny_book None (Some 5) (Some 5) = Some cached"
    "cached = direct \<longleftrightarrow> (\<forall>m \<in> set (snap_orders (to_snapshot penny_book)). 5 dvd unat (px_value (io_limit_px m)))"
    using cached_four_figures_off [OF inv lg low] by (elim exE conjE) (rule that)
  moreover have "cached \<noteq> direct" unfolding r(5) by (simp add: orders snap_orders_def mk_order_def)
  moreover have "map_option snap_bids (book_to_l2_snapshot int_log10 penny_book None (Some 5) (Some 5)) =
      Some [\<lparr>il_px = Px 1230, il_sz = Sz 5, il_n = 1\<rparr>]" by code_simp
  ultimately show ?thesis by auto
qed

end
