(* ===== verification/Book_State.thy ===== *)
theory Book_State
  imports L2_Cache
begin

text \<open>
  \<open>OrderBookState\<close> (\<open>server/src/listeners/order_book/state.rs\<close>): the books at one height, the cache of published
  views with the coins it is stale for, and \<open>apply_updates\<close>, which applies the statuses and diffs of one block.
  A panic is \<open>None\<close>; an error is returned beside the state, with the effects it had up to there.
\<close>

section \<open>State and queries\<close>

record order_book_state =
  st_order_book :: order_books
  st_height :: u64
  st_time :: u64
  st_snapped :: bool
  st_ignore_spot :: bool
  st_l2_cache :: l2_snapshots
  st_dirty_coins :: "coin set"

record timed_snapshots =
  ts_time :: u64
  ts_height :: u64
  ts_snapshot :: "inner_l4_order snapshots"

definition st_from_snapshot ::
    "inner_l4_order snapshots \<Rightarrow> u64 \<Rightarrow> u64 \<Rightarrow> bool \<Rightarrow> bool \<Rightarrow> order_book_state" where
  "st_from_snapshot snapshot height time ignore_triggers ignore_spot =
     (let order_book = from_snapshots snapshot ignore_triggers
      in \<lparr>st_order_book = order_book, st_height = height, st_time = time, st_snapped = False,
          st_ignore_spot = ignore_spot, st_l2_cache = Map.empty, st_dirty_coins = fst ` set (order_books order_book)\<rparr>)"

definition st_compute_snapshot :: "order_book_state \<Rightarrow> timed_snapshots" where
  "st_compute_snapshot st =
     \<lparr>ts_time = st_time st, ts_height = st_height st, ts_snapshot = to_snapshots_par (st_order_book st)\<rparr>"

definition st_compute_l2_snapshot ::
    "(u64 \<Rightarrow> u32) \<Rightarrow> order_book_state \<Rightarrow> ((u64 \<times> u64 \<times> l2_snapshots) \<times> order_book_state) option" where
  "st_compute_l2_snapshot lg st = do {
     cache \<leftarrow> refresh_l2_snapshots lg (st_order_book st) (st_l2_cache st) (st_dirty_coins st);
     Some ((st_time st, st_height st, cache), st\<lparr>st_l2_cache := cache, st_dirty_coins := {}\<rparr>)
   }"

definition st_l2_snapshots ::
    "(u64 \<Rightarrow> u32) \<Rightarrow> order_book_state \<Rightarrow> bool \<Rightarrow> ((u64 \<times> u64 \<times> l2_snapshots) option \<times> order_book_state) option" where
  "st_l2_snapshots lg st prevent_future_snaps =
     (if st_snapped st then Some (None, st)
      else do {
        (r, st') \<leftarrow> st_compute_l2_snapshot lg (st\<lparr>st_snapped := prevent_future_snaps \<or> st_snapped st\<rparr>);
        Some (Some r, st')
      })"

definition st_book_count :: "order_book_state \<Rightarrow> usize" where
  "st_book_count st = length (order_books (st_order_book st))"

definition st_compute_universe :: "order_book_state \<Rightarrow> coin set" where
  "st_compute_universe st = fst ` set (order_books (st_order_book st))"

section \<open>Applying one block\<close>

type_synonym order_map = "oid \<rightharpoonup> node_data_order_status"

definition opening_statuses :: "node_data_order_status list \<Rightarrow> order_map" where
  "opening_statuses statuses =
     map_of (rev (map (\<lambda>s. (Oid (lo_oid (ns_order s)), s)) (filter is_inserted_into_book statuses)))"

text \<open>\<open>time.try_into().unwrap()\<close>: the status time in milliseconds; \<open>None\<close> is the panic.\<close>

definition status_millis :: "node_data_order_status \<Rightarrow> u64 option" where
  "status_millis s = (let ms = ns_time s div 1000000 in if 0 \<le> ms \<and> ms < 2 ^ 64 then Some (of_int ms) else None)"

text \<open>
  One round of the loop over the diffs: the result, the statuses left and the state. On an error
  the effects up to it stay in the state, as in the code.
\<close>

definition apply_diff ::
    "node_data_order_diff \<Rightarrow> order_map \<Rightarrow> order_book_state \<Rightarrow> (unit result \<times> order_map \<times> order_book_state) option" where
  "apply_diff diff om st =
     (let k = diff_oid diff; coin = diff_coin diff in
      if is_spot coin \<and> st_ignore_spot st then Some (Inr (), om, st)
      else
        let st = st\<lparr>st_dirty_coins := insert coin (st_dirty_coins st)\<rparr> in
        case inner_of_diff (nd_raw_book_diff diff) of
          Inl e \<Rightarrow> Some (Inl e, om, st)
        | Inr (InnerNew z insert_before) \<Rightarrow>
            (case om k of
               None \<Rightarrow> Some (Inl MissingOpeningStatus, om, st)
             | Some status \<Rightarrow>
                 let om = om(k := None) in
                 case inner_of_status status of
                   Inl e \<Rightarrow> Some (Inl e, om, st)
                 | Inr inner_order \<Rightarrow>
                     (case diff_price diff of
                        Inl e \<Rightarrow> Some (Inl e, om, st)
                      | Inr p \<Rightarrow>
                          (case status_millis status of
                             None \<Rightarrow> None
                           | Some time \<Rightarrow>
                               let order = convert_trigger (modify_order_sz (inner_order\<lparr>io_limit_px := p\<rparr>) z) time;
                                   (ok, books) = obs_add_order_before (st_order_book st) order insert_before;
                                   st = st\<lparr>st_order_book := books\<rparr>
                               in Some (if ok then Inr () else Inl MissingInsertBefore, om, st))))
        | Inr (InnerUpdate _ new_sz) \<Rightarrow>
            (let (ok, books) = obs_modify_sz (st_order_book st) k coin new_sz
             in Some (if ok then Inr () else Inl MissingOrder, om, st\<lparr>st_order_book := books\<rparr>))
        | Inr InnerRemove \<Rightarrow>
            (let (ok, books) = obs_cancel_order (st_order_book st) k coin
             in Some (if ok then Inr () else Inl MissingOrder, om, st\<lparr>st_order_book := books\<rparr>)))"

fun apply_diffs ::
    "node_data_order_diff list \<Rightarrow> order_map \<Rightarrow> order_book_state \<Rightarrow> (unit result \<times> order_book_state) option" where
  "apply_diffs [] om st = Some (Inr (), st)"
| "apply_diffs (diff # more_diffs) om st = do {
     (r, om', st') \<leftarrow> apply_diff diff om st;
     case r of Inl e \<Rightarrow> Some (Inl e, st') | Inr _ \<Rightarrow> apply_diffs more_diffs om' st'
   }"

definition apply_updates ::
    "order_book_state \<Rightarrow> node_data_order_status batch \<Rightarrow> node_data_order_diff batch
     \<Rightarrow> (unit result \<times> order_book_state) option" where
  "apply_updates st order_statuses order_diffs =
     (let height = ba_block_number order_statuses in
      case block_time order_statuses of
        None \<Rightarrow> None
      | Some time \<Rightarrow>
          if height \<noteq> ba_block_number order_diffs then None
          else if height > st_height st + 1 then Some (Inl (UnexpectedBlock (st_height st + 1) height), st)
          else if height \<le> st_height st then Some (Inr (), st)
          else do {
            (r, st') \<leftarrow> apply_diffs (ba_events order_diffs) (opening_statuses (ba_events order_statuses)) st;
            case r of
              Inl e \<Rightarrow> Some (Inl e, st')
            | Inr _ \<Rightarrow> Some (Inr (), st'\<lparr>st_height := st_height st' + 1, st_time := time, st_snapped := False\<rparr>)
          })"

section \<open>A block as book operations\<close>

text \<open>
  What a block asks of the books, read off its events alone: the coin and the operation of each
  diff that is not ignored.
\<close>

definition diff_op :: "bool \<Rightarrow> node_data_order_diff \<Rightarrow> order_map \<Rightarrow> ((coin \<times> book_op) list \<times> order_map) option" where
  "diff_op ignore_spot diff om =
     (if is_spot (diff_coin diff) \<and> ignore_spot then Some ([], om)
      else
        case inner_of_diff (nd_raw_book_diff diff) of
          Inl _ \<Rightarrow> None
        | Inr (InnerNew z insert_before) \<Rightarrow>
            (case om (diff_oid diff) of
               None \<Rightarrow> None
             | Some status \<Rightarrow>
                 (case (inner_of_status status, diff_price diff, status_millis status) of
                    (Inr o1, Inr p, Some time) \<Rightarrow>
                      Some ([(Coin (lo_coin (ns_order status)),
                              AddOrder (convert_trigger (modify_order_sz (o1\<lparr>io_limit_px := p\<rparr>) z) time) insert_before)],
                            om(diff_oid diff := None))
                  | _ \<Rightarrow> None))
        | Inr (InnerUpdate _ z) \<Rightarrow> Some ([(diff_coin diff, ModifySz (diff_oid diff) z)], om)
        | Inr InnerRemove \<Rightarrow> Some ([(diff_coin diff, CancelOrder (diff_oid diff))], om))"

fun block_ops :: "bool \<Rightarrow> node_data_order_diff list \<Rightarrow> order_map \<Rightarrow> (coin \<times> book_op) list option" where
  "block_ops ignore_spot [] om = Some []"
| "block_ops ignore_spot (diff # more_diffs) om = do {
     (ops, om') \<leftarrow> diff_op ignore_spot diff om;
     rest \<leftarrow> block_ops ignore_spot more_diffs om';
     Some (ops @ rest)
   }"

definition all_ok :: "bool list \<times> 'b \<Rightarrow> bool" where
  "all_ok r = list_all id (fst r)"

lemma run_book_append:
  "run_book step b (xs @ ys) =
     (let (r, b') = run_book step b xs; (r', b'') = run_book step b' ys in (r @ r', b''))"
  by (induction xs arbitrary: b) (auto simp: Let_def split: prod.splits)

lemma all_ok_append:
  "all_ok (run_book step b (xs @ ys)) \<longleftrightarrow> all_ok (run_book step b xs) \<and> all_ok (run_book step (snd (run_book step b xs)) ys)"
  "snd (run_book step b (xs @ ys)) = snd (run_book step (snd (run_book step b xs)) ys)"
  by (auto simp: run_book_append all_ok_def Let_def split: prod.splits)

lemma all_ok_simps [simp]: "all_ok ([], b)" "all_ok (case p of (r, x) \<Rightarrow> ([r], x)) = fst p"
  by (auto simp: all_ok_def split: prod.splits)

lemma inner_of_status_coin: "inner_of_status s = Inr o1 \<Longrightarrow> io_coin o1 = Coin (lo_coin (ns_order s))"
  by (auto simp: inner_of_status_def inner_of_l4_def split: sum.splits)

text \<open>One diff succeeds exactly when it decodes and its book accepts the operation.\<close>

lemma diff_op_single: "diff_op ig d om = Some (ops, om') \<Longrightarrow> ops = [] \<or> (\<exists>c op. ops = [(c, op)])"
  by (auto simp: diff_op_def split: if_splits sum.splits inner_order_diff.splits option.splits)

lemma apply_diff_ok:
  assumes "diff_op (st_ignore_spot st) d om = Some (ops, om')"
    and "\<forall>(c, op) \<in> set ops. fst (ob_step (book_of (st_order_book st) c) op)"
  shows "\<exists>st'. apply_diff d om st = Some (Inr (), om', st')"
  using assms
  by (auto simp: apply_diff_def diff_op_def Let_def case_prod_beta book_of_add(1) book_of_cancel(1) book_of_modify(1)
    inner_of_status_coin split: if_splits sum.splits inner_order_diff.splits option.splits)

lemma apply_diff_run:
  assumes "apply_diff d om st = Some (Inr (), om', st')"
  obtains ops where "diff_op (st_ignore_spot st) d om = Some (ops, om')"
    and "\<forall>(c, op) \<in> set ops. fst (ob_step (book_of (st_order_book st) c) op)"
    and "\<And>c. book_of (st_order_book st') c = snd (run_book ob_step (book_of (st_order_book st) c) (ops_of_coin c ops))"
proof -
  have "\<exists>ops. diff_op (st_ignore_spot st) d om = Some (ops, om') \<and>
    (\<forall>(c, op) \<in> set ops. fst (ob_step (book_of (st_order_book st) c) op)) \<and>
    (\<forall>c. book_of (st_order_book st') c = snd (run_book ob_step (book_of (st_order_book st) c) (ops_of_coin c ops)))"
    using assms
    by (auto simp: apply_diff_def diff_op_def Let_def case_prod_beta book_of_add book_of_cancel book_of_modify
      inner_of_status_coin split: sum.splits inner_order_diff.splits option.splits if_splits)
  with that show thesis by blast
qed

lemma diff_ops_ok:
  assumes "ops = [] \<or> (\<exists>c op. ops = [(c, op)])"
  shows "(\<forall>c. all_ok (run_book ob_step (f c) (ops_of_coin c ops))) \<longleftrightarrow> (\<forall>(c, op) \<in> set ops. fst (ob_step (f c) op))"
  using assms by (elim disjE exE) auto

text \<open>The fields a diff leaves alone.\<close>

lemma apply_diff_frame:
  "apply_diff d om st = Some (r, om', st') \<Longrightarrow>
    st_height st' = st_height st \<and> st_time st' = st_time st \<and> st_snapped st' = st_snapped st \<and>
    st_ignore_spot st' = st_ignore_spot st \<and> st_l2_cache st' = st_l2_cache st \<and> st_dirty_coins st \<subseteq> st_dirty_coins st'"
  by (auto simp: apply_diff_def Let_def case_prod_beta split: sum.splits inner_order_diff.splits option.splits if_splits)

text \<open>A whole block.\<close>

lemma apply_diffs_run:
  "apply_diffs ds om st = Some (Inr (), st') \<Longrightarrow>
    \<exists>ops. block_ops (st_ignore_spot st) ds om = Some ops \<and>
      (\<forall>c. all_ok (run_book ob_step (book_of (st_order_book st) c) (ops_of_coin c ops)) \<and>
        book_of (st_order_book st') c = snd (run_book ob_step (book_of (st_order_book st) c) (ops_of_coin c ops)))"
proof (induction ds arbitrary: om st)
  case (Cons d ds)
  then obtain om1 st1 where d: "apply_diff d om st = Some (Inr (), om1, st1)" and ds: "apply_diffs ds om1 st1 = Some (Inr (), st')"
    by (auto split: sum.splits bind_splits)
  from apply_diff_run [OF d] obtain ops where o:
    "diff_op (st_ignore_spot st) d om = Some (ops, om1)"
    "\<forall>(c, op) \<in> set ops. fst (ob_step (book_of (st_order_book st) c) op)"
    "\<And>c. book_of (st_order_book st1) c = snd (run_book ob_step (book_of (st_order_book st) c) (ops_of_coin c ops))" by blast
  have ig: "st_ignore_spot st1 = st_ignore_spot st" using apply_diff_frame [OF d] by simp
  from Cons.IH [OF ds] obtain rest where r: "block_ops (st_ignore_spot st) ds om1 = Some rest"
    "\<forall>c. all_ok (run_book ob_step (book_of (st_order_book st1) c) (ops_of_coin c rest)) \<and>
      book_of (st_order_book st') c = snd (run_book ob_step (book_of (st_order_book st1) c) (ops_of_coin c rest))"
    unfolding ig by blast
  have "\<forall>c. all_ok (run_book ob_step (book_of (st_order_book st) c) (ops_of_coin c ops))"
    using o(2) diff_ops_ok [OF diff_op_single [OF o(1)]] by blast
  with o(1,3) r show ?case by (intro exI [of _ "ops @ rest"]) (simp add: all_ok_append)
qed simp

lemma apply_diffs_ok:
  "block_ops (st_ignore_spot st) ds om = Some ops \<Longrightarrow>
   \<forall>c. all_ok (run_book ob_step (book_of (st_order_book st) c) (ops_of_coin c ops)) \<Longrightarrow>
    \<exists>st'. apply_diffs ds om st = Some (Inr (), st')"
proof (induction ds arbitrary: om st ops)
  case (Cons d ds)
  from Cons.prems(1) obtain o1 om1 rest where o: "diff_op (st_ignore_spot st) d om = Some (o1, om1)"
    "block_ops (st_ignore_spot st) ds om1 = Some rest" "ops = o1 @ rest" by (auto split: bind_splits)
  have split: "\<forall>c. all_ok (run_book ob_step (book_of (st_order_book st) c) (ops_of_coin c o1)) \<and>
      all_ok (run_book ob_step (snd (run_book ob_step (book_of (st_order_book st) c) (ops_of_coin c o1))) (ops_of_coin c rest))"
    using Cons.prems(2) unfolding o(3) by (simp add: all_ok_append)
  then have ok: "\<forall>(c, op) \<in> set o1. fst (ob_step (book_of (st_order_book st) c) op)"
    using diff_ops_ok [OF diff_op_single [OF o(1)]] by blast
  from apply_diff_ok [OF o(1) ok] obtain st1 where d: "apply_diff d om st = Some (Inr (), om1, st1)" by blast
  from apply_diff_run [OF d] o(1) have b:
    "\<And>c. book_of (st_order_book st1) c = snd (run_book ob_step (book_of (st_order_book st) c) (ops_of_coin c o1))" by auto
  have ig: "st_ignore_spot st1 = st_ignore_spot st" using apply_diff_frame [OF d] by simp
  from Cons.IH [of st1 om1 rest] o(2) split have "\<exists>st'. apply_diffs ds om1 st1 = Some (Inr (), st')"
    by (simp add: ig b)
  with d show ?case by simp
qed simp

lemma apply_diffs_frame:
  "apply_diffs ds om st = Some (r, st') \<Longrightarrow>
    st_height st' = st_height st \<and> st_time st' = st_time st \<and> st_snapped st' = st_snapped st \<and>
    st_ignore_spot st' = st_ignore_spot st \<and> st_l2_cache st' = st_l2_cache st \<and> st_dirty_coins st \<subseteq> st_dirty_coins st'"
proof (induction ds arbitrary: om st)
  case (Cons d ds)
  then obtain r1 om1 st1 where d: "apply_diff d om st = Some (r1, om1, st1)"
    and rest: "(case r1 of Inl e \<Rightarrow> Some (Inl e, st1) | Inr _ \<Rightarrow> apply_diffs ds om1 st1) = Some (r, st')"
    by (auto split: bind_splits)
  show ?case
  proof (cases r1)
    case (Inl e)
    with rest apply_diff_frame [OF d] show ?thesis by simp
  next
    case (Inr u)
    with rest Cons.IH [of om1 st1] apply_diff_frame [OF d] show ?thesis by auto
  qed
qed simp

text \<open>A block that continues the chain, in terms of its operations.\<close>

definition continues :: "order_book_state \<Rightarrow> node_data_order_status batch \<Rightarrow> node_data_order_diff batch \<Rightarrow> bool" where
  "continues st statuses dfs \<longleftrightarrow> ba_block_number dfs = ba_block_number statuses \<and>
     ba_block_number statuses = st_height st + 1 \<and> st_height st < st_height st + 1 \<and> block_time statuses \<noteq> None"

abbreviation ops_of_block ::
    "order_book_state \<Rightarrow> node_data_order_status batch \<Rightarrow> node_data_order_diff batch \<Rightarrow> (coin \<times> book_op) list option" where
  "ops_of_block st statuses dfs \<equiv>
     block_ops (st_ignore_spot st) (ba_events dfs) (opening_statuses (ba_events statuses))"

lemma apply_updates_run:
  assumes "continues st statuses dfs"
  shows "(\<exists>st'. apply_updates st statuses dfs = Some (Inr (), st')) \<longleftrightarrow>
      (\<exists>ops. ops_of_block st statuses dfs = Some ops \<and>
        (\<forall>c. all_ok (run_book ob_step (book_of (st_order_book st) c) (ops_of_coin c ops))))"
    and "apply_updates st statuses dfs = Some (Inr (), st') \<Longrightarrow>
      (\<exists>ops. ops_of_block st statuses dfs = Some ops \<and>
        (\<forall>c. all_ok (run_book ob_step (book_of (st_order_book st) c) (ops_of_coin c ops)) \<and>
          book_of (st_order_book st') c = snd (run_book ob_step (book_of (st_order_book st) c) (ops_of_coin c ops)))) \<and>
      st_height st' = ba_block_number statuses \<and> block_time statuses = Some (st_time st') \<and> \<not> st_snapped st'"
proof -
  let ?om = "opening_statuses (ba_events statuses)"
  obtain t where t: "block_time statuses = Some t" using assms by (auto simp: continues_def)
  have u: "apply_updates st statuses dfs = Some (Inr (), st') \<longleftrightarrow>
      (\<exists>st1. apply_diffs (ba_events dfs) ?om st = Some (Inr (), st1) \<and>
        st' = st1\<lparr>st_height := st_height st1 + 1, st_time := t, st_snapped := False\<rparr>)" for st'
    using assms t by (auto simp: apply_updates_def continues_def Let_def not_le split: bind_splits sum.splits)
  show "(\<exists>st'. apply_updates st statuses dfs = Some (Inr (), st')) \<longleftrightarrow>
      (\<exists>ops. ops_of_block st statuses dfs = Some ops \<and>
        (\<forall>c. all_ok (run_book ob_step (book_of (st_order_book st) c) (ops_of_coin c ops))))"
    unfolding u using apply_diffs_run [of "ba_events dfs" ?om st] apply_diffs_ok [of st "ba_events dfs" ?om] by blast
  assume "apply_updates st statuses dfs = Some (Inr (), st')"
  then obtain st1 where st1: "apply_diffs (ba_events dfs) ?om st = Some (Inr (), st1)"
    and st': "st' = st1\<lparr>st_height := st_height st1 + 1, st_time := t, st_snapped := False\<rparr>" unfolding u by blast
  from apply_diffs_run [OF st1] apply_diffs_frame [OF st1] assms t st'
  show "(\<exists>ops. ops_of_block st statuses dfs = Some ops \<and>
        (\<forall>c. all_ok (run_book ob_step (book_of (st_order_book st) c) (ops_of_coin c ops)) \<and>
          book_of (st_order_book st') c = snd (run_book ob_step (book_of (st_order_book st) c) (ops_of_coin c ops)))) \<and>
      st_height st' = ba_block_number statuses \<and> block_time statuses = Some (st_time st') \<and> \<not> st_snapped st'"
    by (simp add: continues_def)
qed

text \<open>The published cache: every coin that is not dirty has the views of its current book.\<close>

definition cache_current :: "(u64 \<Rightarrow> u32) \<Rightarrow> order_book_state \<Rightarrow> bool" where
  "cache_current lg st \<longleftrightarrow> bt_sorted (order_books (st_order_book st)) \<and>
     (\<forall>c b. map_of (order_books (st_order_book st)) c = Some b \<and> c \<notin> st_dirty_coins st \<longrightarrow>
        (\<exists>es. coin_entries lg b = Some es \<and> st_l2_cache st c = Some (map_of (rev es))))"

lemma obs_frame:
  "bt_sorted (order_books bs) \<Longrightarrow> bt_sorted (order_books (snd (obs_add_order_before bs o1 before)))"
  "bt_sorted (order_books bs) \<Longrightarrow> bt_sorted (order_books (snd (obs_cancel_order bs k c)))"
  "bt_sorted (order_books bs) \<Longrightarrow> bt_sorted (order_books (snd (obs_modify_sz bs k c z)))"
  "d \<noteq> io_coin o1 \<Longrightarrow> map_of (order_books (snd (obs_add_order_before bs o1 before))) d = map_of (order_books bs) d"
  "d \<noteq> c \<Longrightarrow> map_of (order_books (snd (obs_cancel_order bs k c))) d = map_of (order_books bs) d"
  "d \<noteq> c \<Longrightarrow> map_of (order_books (snd (obs_modify_sz bs k c z))) d = map_of (order_books bs) d"
  by (auto simp: obs_add_order_before_def obs_cancel_order_def obs_modify_sz_def Let_def case_prod_beta split: option.splits)

text \<open>The statuses and diffs of a block name the same coin for the same order.\<close>

definition coins_agree :: "order_map \<Rightarrow> node_data_order_diff list \<Rightarrow> bool" where
  "coins_agree om ds \<longleftrightarrow> (\<forall>d \<in> set ds. \<forall>s. om (diff_oid d) = Some s \<longrightarrow> Coin (lo_coin (ns_order s)) = diff_coin d)"

lemma apply_diff_current:
  assumes "cache_current lg st" and "coins_agree om [d]" and "apply_diff d om st = Some (r, om', st')"
  shows "cache_current lg st'"
  using assms
  by (auto simp: apply_diff_def cache_current_def coins_agree_def Let_def case_prod_beta obs_frame inner_of_status_coin
    split: sum.splits inner_order_diff.splits option.splits if_splits)

lemma apply_diff_statuses: "apply_diff d om st = Some (r, om', st') \<Longrightarrow> om' = om \<or> om' = om(diff_oid d := None)"
  by (auto simp: apply_diff_def Let_def case_prod_beta split: sum.splits inner_order_diff.splits option.splits if_splits)

lemma apply_diffs_current:
  "cache_current lg st \<Longrightarrow> coins_agree om ds \<Longrightarrow> apply_diffs ds om st = Some (r, st') \<Longrightarrow> cache_current lg st'"
proof (induction ds arbitrary: om st)
  case (Cons d ds)
  then obtain r1 om1 st1 where d: "apply_diff d om st = Some (r1, om1, st1)"
    and rest: "(case r1 of Inl e \<Rightarrow> Some (Inl e, st1) | Inr _ \<Rightarrow> apply_diffs ds om1 st1) = Some (r, st')"
    by (auto split: bind_splits)
  have one: "coins_agree om [d]" "coins_agree om1 ds"
    using Cons.prems(2) apply_diff_statuses [OF d] by (auto simp: coins_agree_def split: if_splits)
  have "cache_current lg st1" by (rule apply_diff_current [OF Cons.prems(1) one(1) d])
  with rest Cons.IH one(2) show ?case by (cases r1) auto
qed simp

lemma refreshed_views_entries:
  "refreshed_views lg bs = Some vs \<Longrightarrow>
    map_of vs c = (case map_of bs c of None \<Rightarrow> None | Some b \<Rightarrow> map_option (\<lambda>es. map_of (rev es)) (coin_entries lg b)) \<and>
    map fst vs = map fst bs"
  by (induction bs arbitrary: vs) (auto split: bind_splits)

lemma refresh_entries:
  assumes "bt_sorted (order_books bs)" and "refresh_l2_snapshots lg bs cached dirty = Some cached'"
    and "map_of (order_books bs) c = Some b"
  shows "if c \<in> dirty then \<exists>es. coin_entries lg b = Some es \<and> cached' c = Some (map_of (rev es)) else cached' c = cached c"
proof (cases "dirty = {}")
  case True
  with assms(2) show ?thesis by (simp add: refresh_l2_snapshots_def)
next
  case False
  let ?bs = "filter (\<lambda>(c, _). c \<in> dirty) (order_books bs)"
  from False assms(2) obtain vs where vs: "refreshed_views lg ?bs = Some vs" "cached' = cached ++ map_of (rev vs)"
    by (auto simp: refresh_l2_snapshots_def split: bind_splits)
  note e = refreshed_views_entries [OF vs(1), of c]
  have "distinct (map fst vs)" using e assms(1) by (simp add: distinct_map_filter bt_sorted_distinct)
  then have c': "cached' c = (cached ++ map_of vs) c" by (simp add: vs(2) map_of_rev_distinct)
  have fl: "map_of (filter (\<lambda>(c, _). c \<in> dirty) xs) c = (if c \<in> dirty then map_of xs c else None)"
    for xs :: "(coin \<times> order_book) list" by (induction xs) auto
  have "coin_entries lg b \<noteq> None" if "c \<in> dirty"
  proof -
    have "c \<in> fst ` set ?bs" using map_of_SomeD [OF assms(3)] that by force
    then have "c \<in> set (map fst vs)" using e by simp
    then have "map_of vs c \<noteq> None" by (simp add: map_of_eq_None_iff)
    with e fl assms(3) that show ?thesis by auto
  qed
  with e c' show ?thesis by (auto simp: fl assms(3) map_add_def split: option.splits)
qed

lemma compute_l2_current:
  assumes "cache_current lg st" and "st_compute_l2_snapshot lg st = Some ((t, h, cache), st')"
  shows "cache_current lg st' \<and> st_dirty_coins st' = {} \<and> cache = st_l2_cache st' \<and>
    st_order_book st' = st_order_book st \<and> t = st_time st \<and> h = st_height st"
proof -
  from assms(2) have r: "refresh_l2_snapshots lg (st_order_book st) (st_l2_cache st) (st_dirty_coins st) = Some cache"
    and st': "st' = st\<lparr>st_l2_cache := cache, st_dirty_coins := {}\<rparr>" "t = st_time st" "h = st_height st"
    by (auto simp: st_compute_l2_snapshot_def split: bind_splits)
  have "\<exists>es. coin_entries lg b = Some es \<and> cache c = Some (map_of (rev es))"
    if "map_of (order_books (st_order_book st)) c = Some b" for c b
    using refresh_entries [OF _ r that] assms(1) that by (auto simp: cache_current_def split: if_splits)
  with assms(1) show ?thesis by (simp add: cache_current_def st')
qed

text \<open>Every state a book can reach from a snapshot by blocks, whether they succeed or not, and publications.\<close>

inductive reachable :: "(u64 \<Rightarrow> u32) \<Rightarrow> order_book_state \<Rightarrow> bool" for lg where
  start: "reachable lg (st_from_snapshot snapshot height time ignore_triggers ignore_spot)"
| block: "reachable lg st \<Longrightarrow> apply_updates st statuses dfs = Some (r, st') \<Longrightarrow>
    coins_agree (opening_statuses (ba_events statuses)) (ba_events dfs) \<Longrightarrow> reachable lg st'"
| publish: "reachable lg st \<Longrightarrow> st_l2_snapshots lg st prevent = Some (r, st') \<Longrightarrow> reachable lg st'"

lemma cache_current_fields [simp]:
  "cache_current lg (st\<lparr>st_height := a\<rparr>) = cache_current lg st" "cache_current lg (st\<lparr>st_time := b\<rparr>) = cache_current lg st"
  "cache_current lg (st\<lparr>st_snapped := c\<rparr>) = cache_current lg st"
  by (simp_all add: cache_current_def)

lemma from_snapshots_sorted: "bt_sorted (order_books (from_snapshots ss ig))"
proof -
  have "bt_sorted (foldl (\<lambda>m e. bt_insert (fst e) (from_snapshot (snd e) ig) m) m es)" if "bt_sorted m" for m es
    using that by (induction es arbitrary: m) auto
  from this [of "[]" ss] show ?thesis by (simp add: from_snapshots_def)
qed

lemma apply_updates_cases:
  "apply_updates st statuses dfs = Some (r, st') \<Longrightarrow>
    st' = st \<or> (\<exists>r1 st1. apply_diffs (ba_events dfs) (opening_statuses (ba_events statuses)) st = Some (r1, st1) \<and>
      st_order_book st' = st_order_book st1 \<and> st_dirty_coins st' = st_dirty_coins st1 \<and> st_l2_cache st' = st_l2_cache st1)"
  by (auto simp: apply_updates_def Let_def split: option.splits if_splits bind_splits sum.splits)

lemma reachable_current: "reachable lg st \<Longrightarrow> cache_current lg st"
proof (induction rule: reachable.induct)
  case (start snapshot height time ignore_triggers ignore_spot)
  have "c \<in> fst ` set m" if "map_of m c = Some b" for m c and b :: order_book using map_of_SomeD [OF that] by force
  then show ?case using from_snapshots_sorted by (auto simp: cache_current_def st_from_snapshot_def Let_def)
next
  case (block st statuses dfs r st')
  from apply_updates_cases [OF block.hyps(2)] show ?case
  proof
    assume "\<exists>r1 st1. apply_diffs (ba_events dfs) (opening_statuses (ba_events statuses)) st = Some (r1, st1) \<and>
      st_order_book st' = st_order_book st1 \<and> st_dirty_coins st' = st_dirty_coins st1 \<and> st_l2_cache st' = st_l2_cache st1"
    then obtain r1 st1 where d: "apply_diffs (ba_events dfs) (opening_statuses (ba_events statuses)) st = Some (r1, st1)"
      and eq: "st_order_book st' = st_order_book st1" "st_dirty_coins st' = st_dirty_coins st1" "st_l2_cache st' = st_l2_cache st1"
      by blast
    from apply_diffs_current [OF block.IH block.hyps(3) d] show ?thesis by (simp add: cache_current_def eq)
  qed (use block.IH in simp)
next
  case (publish st prevent r st')
  then show ?case
    by (auto simp: st_l2_snapshots_def split: if_splits bind_splits dest!: compute_l2_current [rotated])
qed

text \<open>A block that fails part way.\<close>

text \<open>The book of a coin after a block's operations up to some point, and the error of a refused operation.\<close>

abbreviation book_after :: "order_book_state \<Rightarrow> (coin \<times> book_op) list \<Rightarrow> coin \<Rightarrow> order_book" where
  "book_after st ops c \<equiv> snd (run_book ob_step (book_of (st_order_book st) c) (ops_of_coin c ops))"

fun refusal :: "book_op \<Rightarrow> error" where
  "refusal (AddOrder o1 before) = MissingInsertBefore"
| "refusal (CancelOrder k) = MissingOrder"
| "refusal (ModifySz k z) = MissingOrder"

text \<open>
  How a list of diffs stops at an error: the diffs before the failing one all decoded and were accepted, and each
  book holds exactly their operations; the failing one either does not decode, and then no book moves any further,
  or its operation is refused by its book, and then that operation is the last one any book has seen.
\<close>

definition stops_at_error ::
    "order_book_state \<Rightarrow> node_data_order_diff list \<Rightarrow> order_map \<Rightarrow> error \<Rightarrow> order_book_state \<Rightarrow> bool" where
  "stops_at_error st ds om e st' \<longleftrightarrow>
     (\<exists>applied failing unseen ops. ds = applied @ failing # unseen \<and>
        block_ops (st_ignore_spot st) applied om = Some ops \<and>
        (\<forall>c. all_ok (run_book ob_step (book_of (st_order_book st) c) (ops_of_coin c ops))) \<and>
        (case block_ops (st_ignore_spot st) (applied @ [failing]) om of
           None \<Rightarrow> book_of (st_order_book st') = book_after st ops
         | Some ops' \<Rightarrow>
             \<exists>c op. ops' = ops @ [(c, op)] \<and> \<not> fst (ob_step (book_after st ops c) op) \<and> e = refusal op \<and>
               book_of (st_order_book st') = book_after st ops'))"

lemma apply_diff_error:
  assumes "apply_diff d om st = Some (Inl e, om', st')"
  shows "case diff_op (st_ignore_spot st) d om of
      None \<Rightarrow> st_order_book st' = st_order_book st
    | Some (ops, _) \<Rightarrow> \<exists>c op. ops = [(c, op)] \<and> \<not> fst (ob_step (book_of (st_order_book st) c) op) \<and> e = refusal op \<and>
        book_of (st_order_book st') = book_after st ops"
  using assms
  by (auto simp: apply_diff_def diff_op_def Let_def case_prod_beta book_of_add book_of_cancel book_of_modify fun_eq_iff
      inner_of_status_coin split: sum.splits inner_order_diff.splits option.splits if_splits)

lemma apply_diffs_error:
  "apply_diffs ds om st = Some (Inl e, st') \<Longrightarrow> stops_at_error st ds om e st'"
proof (induction ds arbitrary: om st)
  case (Cons d ds)
  then obtain r om1 st1 where d: "apply_diff d om st = Some (r, om1, st1)"
    and rest: "(case r of Inl e \<Rightarrow> Some (Inl e, st1) | Inr _ \<Rightarrow> apply_diffs ds om1 st1) = Some (Inl e, st')"
    by (auto split: bind_splits)
  show ?case
  proof (cases r)
    case (Inl e1)
    with rest have r: "e1 = e" "st1 = st'" by auto
    from apply_diff_error [OF d [unfolded Inl r]] show ?thesis
      unfolding stops_at_error_def
      by (intro exI [of _ "[]"] exI [of _ d] exI [of _ ds]) (auto simp: fun_eq_iff split: option.splits)
  next
    case (Inr u)
    then have r: "r = Inr ()" by simp
    from apply_diff_run [OF d [unfolded r]] obtain ops where o: "diff_op (st_ignore_spot st) d om = Some (ops, om1)"
      "\<forall>(c, op) \<in> set ops. fst (ob_step (book_of (st_order_book st) c) op)"
      "\<And>c. book_of (st_order_book st1) c = book_after st ops c" by auto
    have ok: "\<forall>c. all_ok (run_book ob_step (book_of (st_order_book st) c) (ops_of_coin c ops))"
      using o(2) diff_ops_ok [OF diff_op_single [OF o(1)]] by blast
    have ig: "st_ignore_spot st1 = st_ignore_spot st" using apply_diff_frame [OF d] by simp
    have after: "book_after st (ops @ xs) = book_after st1 xs" for xs
      by (simp add: fun_eq_iff all_ok_append o(3))
    have "stops_at_error st1 ds om1 e st'" using rest Inr by (intro Cons.IH) simp
    then obtain applied failing unseen ops1 where s: "ds = applied @ failing # unseen"
      "block_ops (st_ignore_spot st) applied om1 = Some ops1"
      "\<forall>c. all_ok (run_book ob_step (book_of (st_order_book st1) c) (ops_of_coin c ops1))"
      "case block_ops (st_ignore_spot st) (applied @ [failing]) om1 of
         None \<Rightarrow> book_of (st_order_book st') = book_after st1 ops1
       | Some ops' \<Rightarrow> \<exists>c op. ops' = ops1 @ [(c, op)] \<and> \<not> fst (ob_step (book_after st1 ops1 c) op) \<and> e = refusal op \<and>
           book_of (st_order_book st') = book_after st1 ops'"
      unfolding stops_at_error_def ig by blast
    have all: "\<forall>c. all_ok (run_book ob_step (book_of (st_order_book st) c) (ops_of_coin c (ops @ ops1)))"
      using ok s(3) by (simp add: all_ok_append o(3))
    have stop: "case block_ops (st_ignore_spot st) ((d # applied) @ [failing]) om of
         None \<Rightarrow> book_of (st_order_book st') = book_after st (ops @ ops1)
       | Some ops' \<Rightarrow> \<exists>c op. ops' = (ops @ ops1) @ [(c, op)] \<and> \<not> fst (ob_step (book_after st (ops @ ops1) c) op) \<and>
           e = refusal op \<and> book_of (st_order_book st') = book_after st ops'"
    proof (cases "block_ops (st_ignore_spot st) (applied @ [failing]) om1")
      case None
      then have "block_ops (st_ignore_spot st) ((d # applied) @ [failing]) om = None" by (simp add: o(1))
      moreover have "book_of (st_order_book st') = book_after st (ops @ ops1)" using s(4) None by (simp only: after option.case)
      ultimately show ?thesis by (simp only: option.case)
    next
      case (Some ops2)
      with s(4) obtain c op where "ops2 = ops1 @ [(c, op)]" "\<not> fst (ob_step (book_after st1 ops1 c) op)" "e = refusal op"
        "book_of (st_order_book st') = book_after st1 ops2" by auto
      moreover have "book_after st1 ops1 c = book_after st (ops @ ops1) c" by (rule fun_cong [OF after, symmetric])
      moreover have "book_after st1 ops2 = book_after st (ops @ ops2)" by (simp only: after)
      ultimately show ?thesis using Some by (auto simp only: append_Cons block_ops.simps o(1) bind.simps prod.case option.case append_assoc)
    qed
    show ?thesis unfolding stops_at_error_def
      using s(1,2) all stop o(1)
      by (intro exI [of _ "d # applied"] exI [of _ failing] exI [of _ unseen] exI [of _ "ops @ ops1"]) simp
  qed
qed simp

lemma opening_statuses_in: "opening_statuses ss k = Some s \<Longrightarrow> s \<in> set ss"
  by (auto simp: opening_statuses_def dest!: map_of_SomeD)

lemma apply_diff_panics:
  "apply_diff d om st = None \<Longrightarrow> \<exists>s \<in> ran om. status_millis s = None"
  by (auto simp: apply_diff_def Let_def case_prod_beta intro: ranI
      split: sum.splits inner_order_diff.splits option.splits if_splits)

lemma apply_diff_left: "apply_diff d om st = Some (r, om', st') \<Longrightarrow> ran om' \<subseteq> ran om"
  using apply_diff_statuses by (fastforce simp: ran_def split: if_splits)

lemma apply_diffs_panics: "apply_diffs ds om st = None \<Longrightarrow> \<exists>s \<in> ran om. status_millis s = None"
proof (induction ds arbitrary: om st)
  case (Cons d ds)
  show ?case
  proof (cases "apply_diff d om st")
    case (Some p)
    obtain r om1 st1 where p: "p = (r, om1, st1)" by (cases p)
    with Cons.prems Some have "apply_diffs ds om1 st1 = None" by (auto split: sum.splits)
    with Cons.IH apply_diff_left Some p show ?thesis by blast
  qed (rule apply_diff_panics)
qed simp

section \<open>Properties\<close>

text \<open>
  C20. A block that continues the chain is applied exactly when it makes sense: it succeeds if and only if every
  diff decodes (a new order has its opening status) and each coin's book accepts that coin's operations in
  order; then each coin's book is the result of running its operations, and height and time move to the block.
\<close>

theorem block_applies_its_diffs:
  assumes "continues st statuses dfs"
  shows "((\<exists>st'. apply_updates st statuses dfs = Some (Inr (), st')) \<longleftrightarrow>
      (\<exists>ops. ops_of_block st statuses dfs = Some ops \<and>
        (\<forall>c. all_ok (run_book ob_step (book_of (st_order_book st) c) (ops_of_coin c ops))))) \<and>
    (\<forall>st'. apply_updates st statuses dfs = Some (Inr (), st') \<longrightarrow>
      (\<exists>ops. ops_of_block st statuses dfs = Some ops \<and>
        (\<forall>c. book_of (st_order_book st') c = snd (run_book ob_step (book_of (st_order_book st) c) (ops_of_coin c ops)))) \<and>
      st_height st' = ba_block_number statuses \<and> block_time statuses = Some (st_time st') \<and> \<not> st_snapped st')"
  using apply_updates_run [OF assms] by blast

text \<open>
  C21. Blocks are applied in sequence, and what each attempt leaves behind is pinned. A block beyond the next height is
  refused and changes nothing; a block at or below the current height is accepted and changes nothing. The next block
  either succeeds, and then every diff was applied, height and time move to the block and it may be published; or it
  fails, and then height, time and publication flag stay while the books keep the operations of the diffs before the
  failing one (a failed block is applied in part: the caller drops the state). The failing diff either does not decode
  and moves no book, or its book refuses its operation and nothing follows. A call only panics for a block time or a
  status time out of range, or batches of different heights.
\<close>

theorem blocks_apply_in_sequence:
  "case apply_updates st statuses dfs of
     None \<Rightarrow> \<not> (block_time statuses \<noteq> None \<and> ba_block_number dfs = ba_block_number statuses \<and>
       (\<forall>s \<in> set (ba_events statuses). status_millis s \<noteq> None))
   | Some (r, st') \<Rightarrow>
       if ba_block_number statuses > st_height st + 1
       then r = Inl (UnexpectedBlock (st_height st + 1) (ba_block_number statuses)) \<and> st' = st
       else if ba_block_number statuses \<le> st_height st then r = Inr () \<and> st' = st
       else ba_block_number statuses = st_height st + 1 \<and>
         (case r of
            Inr _ \<Rightarrow> st_height st' = st_height st + 1 \<and> block_time statuses = Some (st_time st') \<and> \<not> st_snapped st' \<and>
              (\<exists>ops. ops_of_block st statuses dfs = Some ops \<and>
                (\<forall>c. all_ok (run_book ob_step (book_of (st_order_book st) c) (ops_of_coin c ops))) \<and>
                book_of (st_order_book st') = book_after st ops)
          | Inl e \<Rightarrow> st_height st' = st_height st \<and> st_time st' = st_time st \<and> st_snapped st' = st_snapped st \<and>
              stops_at_error st (ba_events dfs) (opening_statuses (ba_events statuses)) e st')"
proof (cases "apply_updates st statuses dfs")
  case None
  have "\<exists>s \<in> set (ba_events statuses). status_millis s = None"
    if "apply_diffs (ba_events dfs) (opening_statuses (ba_events statuses)) st = None"
    using apply_diffs_panics [OF that] by (auto simp: ran_def dest: opening_statuses_in)
  with None show ?thesis
    by (auto simp: apply_updates_def Let_def split: option.splits bind_splits sum.splits if_splits)
next
  case (Some p)
  obtain r st' where p: "p = (r, st')" by (cases p)
  have next_height: "n = h + 1" if "\<not> h + 1 < n" "\<not> n \<le> h" for n h :: u64
  proof (cases "h + 1 = 0")
    case True
    then have "h = - 1" by (simp add: eq_neg_iff_add_eq_0)
    with that(2) show ?thesis by simp
  next
    case False
    then have "unat (h + 1) = unat h + 1" using unatSuc [of h] by (simp add: add.commute)
    with that show ?thesis by (simp add: word_less_nat_alt word_le_nat_alt word_unat_eq_iff)
  qed
  have ran: "st_height b = st_height st \<and> (\<exists>ops. ops_of_block st statuses dfs = Some ops \<and>
      (\<forall>c. all_ok (run_book ob_step (book_of (st_order_book st) c) (ops_of_coin c ops))) \<and>
      book_of (st_order_book b) = book_after st ops)"
    if "apply_diffs (ba_events dfs) (opening_statuses (ba_events statuses)) st = Some (Inr (), b)" for b
    using apply_diffs_frame [OF that] apply_diffs_run [OF that] by (auto simp: fun_eq_iff)
  show ?thesis
    using Some
    by (auto simp: p apply_updates_def Let_def split: option.splits bind_splits sum.splits if_splits
        dest: apply_diffs_frame apply_diffs_error dest!: ran intro: next_height)
qed


text \<open>
  C19. A block acts on the books as on price-time queues: after a block that is applied with success, and whose new
  orders have ids not yet on their book, every coin's book is well formed and its snapshot is what the abstract
  queues give for that coin's operations, in order.
\<close>

theorem block_follows_price_time:
  assumes "continues st statuses dfs" and "books_inv (st_order_book st)"
    and "ops_of_block st statuses dfs = Some ops"
    and "\<forall>c. ops_allowed (to_snapshot (book_of (st_order_book st) c)) (ops_of_coin c ops)"
    and "apply_updates st statuses dfs = Some (Inr (), st')"
  shows "ob_inv (book_of (st_order_book st') c) \<and>
    to_snapshot (book_of (st_order_book st') c) =
      snd (run_book spec_step (to_snapshot (book_of (st_order_book st) c)) (ops_of_coin c ops))"
proof -
  have inv: "ob_inv (book_of (st_order_book st) c)" using books_inv_book [OF assms(2)] by blast
  have b: "book_of (st_order_book st') c = snd (run_book ob_step (book_of (st_order_book st) c) (ops_of_coin c ops))"
    using apply_updates_run(2) [OF assms(1,5)] assms(3) by auto
  show ?thesis
    using ob.run_inv [OF inv assms(4) [rule_format]] ob.run_view [OF inv assms(4) [rule_format]] b
    by (auto simp: prod_eq_iff)
qed

text \<open>
  C22. What is published is current: in every state reached from a snapshot by applying blocks, successful or not,
  and publishing, a computed L2 snapshot carries the state's own time and height and holds for every coin the
  views of that coin's book as it stands, although only the coins marked dirty are recomputed. Assumed: the status
  and the diff of one order name the same coin.
\<close>

theorem published_views_are_current:
  assumes "reachable lg st" and "st_compute_l2_snapshot lg st = Some ((time, height, cache), st')"
  shows "time = st_time st \<and> height = st_height st \<and>
    (\<forall>c b. map_of (order_books (st_order_book st)) c = Some b \<longrightarrow>
      (\<exists>es. coin_entries lg b = Some es \<and> cache c = Some (map_of (rev es))))"
  using compute_l2_current [OF reachable_current [OF assms(1)] assms(2)] by (auto simp: cache_current_def)

section \<open>Witnesses\<close>

definition sample_state :: order_book_state where
  "sample_state = (st_from_snapshot [] 7 0 True False)\<lparr>st_order_book := \<lparr>order_books = [(Coin ''BTC'', sample_book)]\<rparr>,
     st_dirty_coins := {Coin ''BTC''}\<rparr>"

definition sample_statuses :: "node_data_order_status batch" where
  "sample_statuses = \<lparr>ba_local_time = 0, ba_block_time = 5000000, ba_block_number = 8, ba_events = [], ba_wire_bytes = 0\<rparr>"

definition sample_diffs :: "node_data_order_diff batch" where
  "sample_diffs = \<lparr>ba_local_time = 0, ba_block_time = 5000000, ba_block_number = 8,
     ba_events = [\<lparr>nd_user = 0, nd_oid = 1, nd_px = ''0'', nd_coin = ''BTC'', nd_raw_book_diff = DiffRemove\<rparr>], ba_wire_bytes = 0\<rparr>"

lemma sample_block:
  "continues sample_state sample_statuses sample_diffs"
  "ops_of_block sample_state sample_statuses sample_diffs = Some [(Coin ''BTC'', CancelOrder (Oid 1))]"
  "books_inv (st_order_book sample_state)"
  "book_of (st_order_book sample_state) (Coin ''BTC'') = sample_book"
  "fst (cancel_order sample_book (Oid 1))"
proof -
  show "continues sample_state sample_statuses sample_diffs"
    by (simp add: continues_def sample_state_def sample_statuses_def sample_diffs_def st_from_snapshot_def Let_def block_time_def)
  show "ops_of_block sample_state sample_statuses sample_diffs = Some [(Coin ''BTC'', CancelOrder (Oid 1))]"
    by (simp add: sample_state_def sample_diffs_def st_from_snapshot_def Let_def diff_op_def inner_of_diff_def diff_coin_def diff_oid_def)
  show "books_inv (st_order_book sample_state)"
    using sample_inv by (simp add: sample_state_def books_inv_def snap_orders_def mk_order_def)
  show "book_of (st_order_book sample_state) (Coin ''BTC'') = sample_book"
    by (simp add: sample_state_def book_of_def bt_get_or_def)
  show "fst (cancel_order sample_book (Oid 1))" by code_simp
qed

theorem block_applies_its_diffs_witness:
  "continues sample_state sample_statuses sample_diffs \<and>
   (\<exists>st'. apply_updates sample_state sample_statuses sample_diffs = Some (Inr (), st') \<and> st_height st' = 8)"
proof -
  have "\<exists>ops. ops_of_block sample_state sample_statuses sample_diffs = Some ops \<and>
      (\<forall>c. all_ok (run_book ob_step (book_of (st_order_book sample_state) c) (ops_of_coin c ops)))"
    using sample_block by auto
  then obtain st' where "apply_updates sample_state sample_statuses sample_diffs = Some (Inr (), st')"
    using block_applies_its_diffs [OF sample_block(1)] by blast
  moreover from this have "st_height st' = 8"
    using block_applies_its_diffs [OF sample_block(1)] by (simp add: sample_statuses_def)
  ultimately show ?thesis using sample_block(1) by blast
qed

theorem block_follows_price_time_witness:
  "case apply_updates sample_state sample_statuses sample_diffs of
     Some (Inr _, st') \<Rightarrow> snap_bids (to_snapshot (book_of (st_order_book st') (Coin ''BTC''))) = []
   | _ \<Rightarrow> False"
proof -
  have ok: "\<exists>ops. ops_of_block sample_state sample_statuses sample_diffs = Some ops \<and>
      (\<forall>c. all_ok (run_book ob_step (book_of (st_order_book sample_state) c) (ops_of_coin c ops)))"
    using sample_block by auto
  then obtain st' where st': "apply_updates sample_state sample_statuses sample_diffs = Some (Inr (), st')"
    using apply_updates_run(1) [OF sample_block(1)] by blast
  have "to_snapshot (book_of (st_order_book st') (Coin ''BTC'')) = snd (spec_cancel (to_snapshot sample_book) (Oid 1))"
    using block_follows_price_time [OF sample_block(1,3,2) _ st', of "Coin ''BTC''"] sample_block(4)
    by (simp add: case_prod_beta cong: if_cong)
  also have "snap_bids \<dots> = []"
    by (simp add: sample_inv spec_cancel_def map_queues_def mk_order_def order_oid_def snap_orders_def)
  finally show ?thesis using st' by simp
qed

text \<open>A block whose second diff cancels an unknown order: the first one stays applied.\<close>

definition torn_diffs :: "node_data_order_diff batch" where
  "torn_diffs = sample_diffs\<lparr>ba_events := ba_events sample_diffs @
     [\<lparr>nd_user = 0, nd_oid = 9, nd_px = ''0'', nd_coin = ''BTC'', nd_raw_book_diff = DiffRemove\<rparr>]\<rparr>"

theorem blocks_apply_in_sequence_witness:
  "case apply_updates sample_state sample_statuses torn_diffs of
     Some (r, st') \<Rightarrow> r = Inl MissingOrder \<and> st_height st' = 7 \<and>
       snap_bids (to_snapshot (book_of (st_order_book st') (Coin ''BTC''))) = []
   | None \<Rightarrow> False"
proof -
  have ig: "st_ignore_spot sample_state = False" "st_height sample_state = 7"
    by (simp_all add: sample_state_def st_from_snapshot_def Let_def)
  have om: "opening_statuses [] = Map.empty"
    by (simp add: opening_statuses_def)
  let ?op = "\<lambda>k. (Coin ''BTC'', CancelOrder (Oid k))"
  obtain d1 d2 where ds: "ba_events torn_diffs = [d1, d2]"
    and d1: "\<And>om. diff_op False d1 om = Some ([?op 1], om)" and d2: "\<And>om. diff_op False d2 om = Some ([?op 9], om)"
    by (simp add: torn_diffs_def sample_diffs_def diff_op_def inner_of_diff_def diff_coin_def diff_oid_def)
  let ?b = "snd (cancel_order sample_book (Oid 1))"
  have books: "fst (cancel_order sample_book (Oid 1))" "\<not> fst (cancel_order ?b (Oid 9))"
    "snap_bids (to_snapshot (snd (cancel_order ?b (Oid 9)))) = []" by code_simp+
  note btc = sample_block(4)
  have next_block: "ba_block_number sample_statuses = 8" "ba_block_number torn_diffs = 8" "block_time sample_statuses \<noteq> None"
    "ba_events sample_statuses = []"
    by (simp_all add: torn_diffs_def sample_diffs_def sample_statuses_def block_time_def)
  note seq = blocks_apply_in_sequence [where st = sample_state and statuses = sample_statuses and dfs = torn_diffs, unfolded ig next_block om ds]
  from seq next_block(3) obtain r st' where r: "apply_updates sample_state sample_statuses torn_diffs = Some (r, st')"
    by (auto split: option.splits)
  have "r \<noteq> Inr ()"
  proof
    assume "r = Inr ()"
    with seq have "\<forall>c. all_ok (run_book ob_step (book_of (st_order_book sample_state) c) (ops_of_coin c [?op 1, ?op 9]))"
      by (simp add: r d1 d2)
    from spec [OF this, of "Coin ''BTC''"] books(2) show False by (simp add: btc all_ok_def Let_def case_prod_beta)
  qed
  then obtain e where e: "r = Inl e" by (cases r) auto
  with seq have h: "st_height st' = 7" and stop: "stops_at_error sample_state [d1, d2] Map.empty e st'"
    by (simp_all add: r)
  from stop have "e = MissingOrder \<and> book_of (st_order_book st') (Coin ''BTC'') = snd (cancel_order ?b (Oid 9))"
    unfolding stops_at_error_def ig using books(1)
    by (auto simp: Cons_eq_append_conv d1 d2 btc case_prod_beta Let_def)
  with books(3) h show ?thesis by (simp add: r e btc case_prod_beta Let_def)
qed

definition quoted_state :: order_book_state where
  "quoted_state = st_from_snapshot [(Coin ''BTC'', to_snapshot quoted_book)] 7 0 False False"

lemma quoted_state_books: "order_books (st_order_book quoted_state) = [(Coin ''BTC'', quoted_book)]"
proof -
  have "from_snapshot (to_snapshot quoted_book) False = quoted_book"
    by (intro from_to_snapshot)
      (simp_all add: quoted_book_facts uncrossed_def mk_order_def less_px_def snap_orders_def live_def sz_is_positive_def)
  then show ?thesis by (simp add: quoted_state_def st_from_snapshot_def from_snapshots_def)
qed

theorem published_views_are_current_witness:
  "reachable int_log10 quoted_state \<and>
   (\<exists>cache st' es. st_compute_l2_snapshot int_log10 quoted_state = Some ((0, 7, cache), st') \<and>
      coin_entries int_log10 quoted_book = Some es \<and> cache (Coin ''BTC'') = Some (map_of (rev es)))"
proof -
  have r: "reachable int_log10 quoted_state" unfolding quoted_state_def by (rule reachable.start)
  have inv: "books_inv (st_order_book quoted_state)"
    using quoted_book_facts by (simp add: books_inv_def quoted_state_books snap_orders_def mk_order_def)
  have "\<forall>e \<in> set (order_books (st_order_book quoted_state)). served int_log10 14 (snd e)"
    by (simp add: quoted_state_books quoted_book_served)
  from refresh_direct [OF inv this] obtain time height cache st' where
    x: "st_compute_l2_snapshot int_log10 quoted_state = Some ((time, height, cache), st')"
    by (simp add: st_compute_l2_snapshot_def)
  from published_views_are_current [OF r x] have "time = 0" "height = 7"
    "\<exists>es. coin_entries int_log10 quoted_book = Some es \<and> cache (Coin ''BTC'') = Some (map_of (rev es))"
    unfolding quoted_state_books by (auto simp: quoted_state_def st_from_snapshot_def Let_def)
  with r x show ?thesis by blast
qed

end
