(* ===== verification/Scoped_Parse.thy ===== *)
theory Scoped_Parse
  imports Multi_Book
begin

text \<open>
  \<open>ScopedEvent\<close>, \<open>RawBatch\<close> and \<open>Batch::parse_in_scope\<close> (\<open>server/src/types/node_data.rs\<close>): a block record is read with only the
  events of coins in scope. What serde derives is a parameter.
\<close>

section \<open>Parsing a block record in scope\<close>

record raw_batch =
  rb_local_time :: naive_date_time
  rb_block_time :: naive_date_time
  rb_block_number :: u64
  rb_events :: "string list"

text \<open>
  What serde derives for one event type: the whole batch, the batch with its events as raw text, the coin of a
  raw event (the probes \<open>CoinProbe\<close>, \<open>OrderStatusProbe\<close> and the pair of \<open>IgnoredAny\<close> and \<open>CoinProbe\<close>) and one event.
\<close>

record 'e serde =
  sd_batch :: "string \<Rightarrow> 'e batch result"
  sd_raw_batch :: "string \<Rightarrow> raw_batch result"
  sd_coin :: "string \<Rightarrow> string result"
  sd_event :: "string \<Rightarrow> 'e result"

definition in_scope :: "'e serde \<Rightarrow> string \<Rightarrow> coin_scope \<Rightarrow> bool result" where
  "in_scope sd raw scope = and_then (sd_coin sd raw) (\<lambda>c. Inr (scope_contains scope c))"

fun scoped_events :: "'e serde \<Rightarrow> coin_scope \<Rightarrow> string list \<Rightarrow> 'e list result" where
  "scoped_events sd scope [] = Inr []"
| "scoped_events sd scope (event # rest) =
     and_then (in_scope sd event scope) (\<lambda>inside.
       if inside then and_then (sd_event sd event) (\<lambda>e. and_then (scoped_events sd scope rest) (\<lambda>es. Inr (e # es)))
       else scoped_events sd scope rest)"

definition parse_in_scope :: "'e serde \<Rightarrow> string \<Rightarrow> coin_scope \<Rightarrow> 'e batch result" where
  "parse_in_scope sd line scope =
     (if cs_all scope then and_then (sd_batch sd line) (\<lambda>b. Inr (with_wire_bytes b (length line)))
      else and_then (sd_raw_batch sd line) (\<lambda>raw.
        and_then (scoped_events sd scope (rb_events raw)) (\<lambda>events.
          Inr \<lparr>ba_local_time = rb_local_time raw, ba_block_time = rb_block_time raw, ba_block_number = rb_block_number raw,
               ba_events = events, ba_wire_bytes = length line\<rparr>)))"

text \<open>
  What is relied on of serde for one event type whose events name the coin \<open>coin_of\<close>: parsing a batch is parsing its
  raw form and then each event, and probing an event reads the coin parsing it gives.
\<close>

definition serde_agrees :: "('e \<Rightarrow> string) \<Rightarrow> 'e serde \<Rightarrow> bool" where
  "serde_agrees coin_of sd \<longleftrightarrow>
     (\<forall>line b. sd_batch sd line = Inr b \<longrightarrow>
        (\<exists>raw. sd_raw_batch sd line = Inr raw \<and> rb_local_time raw = ba_local_time b \<and> rb_block_time raw = ba_block_time b \<and>
           rb_block_number raw = ba_block_number b \<and> map_result (sd_event sd) (rb_events raw) = Inr (ba_events b))) \<and>
     (\<forall>t e. sd_event sd t = Inr e \<longrightarrow> sd_coin sd t = Inr (coin_of e))"

lemma scoped_events_filter:
  assumes "\<And>t e. sd_event sd t = Inr e \<Longrightarrow> sd_coin sd t = Inr (coin_of e)"
  shows "map_result (sd_event sd) ts = Inr es \<Longrightarrow>
    scoped_events sd scope ts = Inr (filter (\<lambda>e. scope_contains scope (coin_of e)) es)"
proof (induction ts arbitrary: es)
  case (Cons t ts)
  then obtain e rest where "sd_event sd t = Inr e" "map_result (sd_event sd) ts = Inr rest" "es = e # rest"
    by (auto split: sum.splits)
  with Cons.IH assms show ?case by (auto simp: in_scope_def)
qed auto

text \<open>
  C31. Reading a block in scope is reading it whole and dropping the events out of scope: whenever the full
  parser accepts a record, the scoped one does too, keeps the block's times and height, keeps exactly the events whose
  coin is in scope, in order, and accounts the full length of the record. Assumed of serde: a batch parses event by
  event and a probed coin is the parsed one.
\<close>

theorem scoped_parse_is_filter:
  assumes "serde_agrees coin_of sd" and "sd_batch sd line = Inr b"
  shows "parse_in_scope sd line scope =
    Inr (b\<lparr>ba_events := filter (\<lambda>e. scope_contains scope (coin_of e)) (ba_events b), ba_wire_bytes := length line\<rparr>)"
proof (cases "cs_all scope")
  case True
  then have "filter (\<lambda>e. scope_contains scope (coin_of e)) (ba_events b) = ba_events b" by (simp add: scope_contains_def)
  with True assms(2) show ?thesis by (simp add: parse_in_scope_def with_wire_bytes_def)
next
  case False
  obtain raw where raw: "sd_raw_batch sd line = Inr raw" "rb_local_time raw = ba_local_time b"
    "rb_block_time raw = ba_block_time b" "rb_block_number raw = ba_block_number b"
    "map_result (sd_event sd) (rb_events raw) = Inr (ba_events b)" using assms(1) [unfolded serde_agrees_def, THEN conjunct1, rule_format, OF assms(2)] by blast
  have "scoped_events sd scope (rb_events raw) = Inr (filter (\<lambda>e. scope_contains scope (coin_of e)) (ba_events b))"
    by (rule scoped_events_filter [OF _ raw(5)]) (use assms(1) in \<open>simp add: serde_agrees_def\<close>)
  with False raw show ?thesis by (cases b) (simp add: parse_in_scope_def)
qed

text \<open>A concrete codec: a record is its events, comma separated, and an event is its coin.\<close>

definition coin_codec :: "string serde" where
  "coin_codec =
     \<lparr>sd_batch = (\<lambda>line. Inr \<lparr>ba_local_time = 1, ba_block_time = 2, ba_block_number = 3, ba_events = split_on CHR 0x2C line, ba_wire_bytes = 0\<rparr>),
      sd_raw_batch = (\<lambda>line. Inr \<lparr>rb_local_time = 1, rb_block_time = 2, rb_block_number = 3, rb_events = split_on CHR 0x2C line\<rparr>),
      sd_coin = Inr, sd_event = Inr\<rparr>"

lemma map_result_Inr: "map_result Inr xs = Inr xs"
  by (induction xs) auto

theorem scoped_parse_is_filter_witness:
  "serde_agrees (\<lambda>e. e) coin_codec \<and>
   (case parse_in_scope coin_codec ''#1,BTC,#22'' scope_default of
      Inr b \<Rightarrow> ba_events b = [''#1'', ''#22''] \<and> ba_block_number b = 3 \<and> ba_wire_bytes b = 10
    | Inl _ \<Rightarrow> False)"
proof -
  have a: "serde_agrees (\<lambda>e. e) coin_codec" by (simp add: serde_agrees_def coin_codec_def map_result_Inr)
  obtain b where b: "sd_batch coin_codec ''#1,BTC,#22'' = Inr b" by (simp add: coin_codec_def)
  have "filter (\<lambda>e. scope_contains scope_default e) (split_on CHR 0x2C ''#1,BTC,#22'') = [''#1'', ''#22'']"
    by code_simp
  with scoped_parse_is_filter [OF a b, of scope_default] a b show ?thesis by (auto simp: coin_codec_def)
qed

end
