(* ===== verification/Listener.thy ===== *)
theory Listener
  imports Batch_Queue Snapshot_Audit Book_State Scoped_Parse
begin

text \<open>
  \<open>OrderBookListener\<close> (\<open>server/src/listeners/order_book/mod.rs\<close>): its state, the pairing of the status and diff streams, the
  application of a block, the validation against node snapshots, and the processing of the records read from the event files.
  The clock, the texts of errors and the codecs are arguments; \<open>None\<close> is a panic.
\<close>

section \<open>State\<close>

record resource_stats =
  rs_read_bytes :: u64
  rs_read_time_us :: u64
  rs_process_time_us :: u64
  rs_lock_wait_us :: u64
  rs_source_gaps :: u64
  rs_snapshot_failures :: u64
  rs_snapshot_reloads :: u64
  rs_empty_book_refreshes :: u64
  rs_last_snapshot_reload_reason :: "string option"
  rs_pending_file_bytes :: u64
  rs_dirty_files :: usize
  rs_snapshot_clone_ms :: u64
  rs_snapshot_parse_ms :: u64
  rs_snapshot_reconcile_ms :: u64
  rs_snapshot_requests :: u64
  rs_snapshot_request_started_at_ms :: int
  rs_snapshot_request_completed_at_ms :: int
  rs_snapshot_request_ms :: u64
  rs_snapshot_request_inflight_started_at_ms :: int

definition EMPTY_STATS :: resource_stats where
  "EMPTY_STATS =
     \<lparr>rs_read_bytes = 0, rs_read_time_us = 0, rs_process_time_us = 0, rs_lock_wait_us = 0, rs_source_gaps = 0,
      rs_snapshot_failures = 0, rs_snapshot_reloads = 0, rs_empty_book_refreshes = 0,
      rs_last_snapshot_reload_reason = None, rs_pending_file_bytes = 0, rs_dirty_files = 0,
      rs_snapshot_clone_ms = 0, rs_snapshot_parse_ms = 0, rs_snapshot_reconcile_ms = 0, rs_snapshot_requests = 0,
      rs_snapshot_request_started_at_ms = 0, rs_snapshot_request_completed_at_ms = 0, rs_snapshot_request_ms = 0,
      rs_snapshot_request_inflight_started_at_ms = 0\<rparr>"

type_synonym status_batch = "node_data_order_status batch"
type_synonym diff_batch = "node_data_order_diff batch"
type_synonym fill_batch = "node_data_fill batch"

datatype internal_message =
    MsgGap
  | MsgSnapshot l2_snapshots u64 u64
  | MsgFills fill_batch
  | MsgL4BookUpdates diff_batch status_batch

datatype event_batch = Orders status_batch | BookDiffs diff_batch | FillBatch fill_batch

text \<open>
  \<open>internal_message_tx\<close> is the list of messages sent on the channel so far, when there is a channel.
\<close>

record listener =
  ln_stats :: resource_stats
  ln_limits :: resource_limits
  ln_recovery_epoch :: u64
  ln_snapshot_cache_bytes :: usize
  ln_snapshot_cache_started :: "instant option"
  ln_ignore_spot :: bool
  ln_scope :: coin_scope
  ln_order_book_state :: "order_book_state option"
  ln_last_fill :: "u64 option"
  ln_order_diff_cache :: "node_data_order_diff batch_queue"
  ln_order_status_cache :: "node_data_order_status batch_queue"
  ln_fetched_snapshot_cache :: "(status_batch \<times> diff_batch) list option"
  ln_internal_message_tx :: "internal_message list option"

definition listener_new :: "internal_message list option \<Rightarrow> bool \<Rightarrow> coin_scope \<Rightarrow> listener" where
  "listener_new internal_message_tx ignore_spot scope =
     \<lparr>ln_stats = EMPTY_STATS, ln_limits = DEFAULT_LIMITS, ln_recovery_epoch = 0, ln_snapshot_cache_bytes = 0,
      ln_snapshot_cache_started = None, ln_ignore_spot = ignore_spot, ln_scope = scope, ln_order_book_state = None,
      ln_last_fill = None, ln_order_diff_cache = bq_new, ln_order_status_cache = bq_new,
      ln_fetched_snapshot_cache = None, ln_internal_message_tx = internal_message_tx\<rparr>"

text \<open>\<open>if let Some(tx) = ... tx.send(...)\<close>, whose result is ignored.\<close>

definition tx_send :: "internal_message \<Rightarrow> listener \<Rightarrow> listener" where
  "tx_send msg l =
     (case ln_internal_message_tx l of None \<Rightarrow> l | Some sent \<Rightarrow> l\<lparr>ln_internal_message_tx := Some (sent @ [msg])\<rparr>)"

definition fence :: "listener \<Rightarrow> listener" where
  "fence l =
     tx_send MsgGap
       (l\<lparr>ln_stats := (ln_stats l)\<lparr>rs_source_gaps := rs_source_gaps (ln_stats l) + 1\<rparr>,
          ln_recovery_epoch := ln_recovery_epoch l + 1, ln_order_book_state := None,
          ln_order_status_cache := bq_new, ln_order_diff_cache := bq_new, ln_fetched_snapshot_cache := None,
          ln_snapshot_cache_started := None, ln_snapshot_cache_bytes := 0\<rparr>)"

definition is_ready :: "listener \<Rightarrow> bool" where
  "is_ready l \<longleftrightarrow> ln_order_book_state l \<noteq> None"

definition universe :: "listener \<Rightarrow> coin set" where
  "universe l = (case ln_order_book_state l of None \<Rightarrow> {} | Some st \<Rightarrow> st_compute_universe st)"

section \<open>The resource report\<close>

text \<open>The report served at \<open>/resources\<close>; the clients get it as JSON.\<close>

record resource_report =
  rr_ready :: bool
  rr_source_height :: "u64 option"
  rr_coin_scope :: string
  rr_book_count :: "usize option"
  rr_stats :: resource_stats
  rr_unmatched_status_bytes :: usize
  rr_unmatched_diff_bytes :: usize
  rr_snapshot_cache_bytes :: usize
  rr_snapshot_cache_active :: bool
  rr_recovery_epoch :: u64
  rr_snapshot_interval_seconds :: nat

definition resource_status :: "listener \<Rightarrow> resource_report" where
  "resource_status l =
     \<lparr>rr_ready = is_ready l, rr_source_height = map_option st_height (ln_order_book_state l), rr_coin_scope = scope_describe (ln_scope l),
      rr_book_count = map_option st_book_count (ln_order_book_state l), rr_stats = ln_stats l,
      rr_unmatched_status_bytes = bq_bytes (ln_order_status_cache l), rr_unmatched_diff_bytes = bq_bytes (ln_order_diff_cache l),
      rr_snapshot_cache_bytes = ln_snapshot_cache_bytes l, rr_snapshot_cache_active = (ln_fetched_snapshot_cache l \<noteq> None),
      rr_recovery_epoch = ln_recovery_epoch l, rr_snapshot_interval_seconds = as_secs (rl_snapshot_interval (ln_limits l))\<rparr>"

section \<open>Pairing the two streams\<close>

text \<open>The loop of \<open>pop_cache\<close> on the two queues.\<close>

function sync_queues ::
    "node_data_order_status batch_queue \<Rightarrow> node_data_order_diff batch_queue
     \<Rightarrow> (status_batch \<times> diff_batch) option \<times> node_data_order_status batch_queue \<times> node_data_order_diff batch_queue" where
  "sync_queues sq dq =
     (case bq_front dq of
        None \<Rightarrow> (None, sq, dq)
      | Some t \<Rightarrow>
          (case bq_front sq of
             None \<Rightarrow> (None, sq, dq)
           | Some s \<Rightarrow>
               if ba_block_number t < ba_block_number s then sync_queues sq (snd (bq_pop_front dq))
               else if ba_block_number t = ba_block_number s
               then (case bq_pop_front sq of
                       (None, sq') \<Rightarrow> (None, sq', dq)
                     | (Some t', sq') \<Rightarrow>
                         (case bq_pop_front dq of
                            (None, dq') \<Rightarrow> (None, sq', dq')
                          | (Some s', dq') \<Rightarrow> (Some (t', s'), sq', dq')))
               else sync_queues (snd (bq_pop_front sq)) dq))"
  by pat_completeness auto
termination
  by (relation "measure (\<lambda>(sq, dq). length (bq_deque sq) + length (bq_deque dq))")
    (auto simp: bq_front_def bq_pop_front_def split: list.splits)

definition pop_cache :: "listener \<Rightarrow> (status_batch \<times> diff_batch) option \<times> listener" where
  "pop_cache l =
     (let (r, sq, dq) = sync_queues (ln_order_status_cache l) (ln_order_diff_cache l)
      in (r, l\<lparr>ln_order_status_cache := sq, ln_order_diff_cache := dq\<rparr>))"

section \<open>Receiving a batch\<close>

text \<open>The first part of \<open>receive_batch\<close>: queue the batch, or forward fills that are new.\<close>

definition queue_batch :: "instant \<Rightarrow> event_batch \<Rightarrow> listener \<Rightarrow> unit result \<times> listener" where
  "queue_batch now updates l =
     (case updates of
        Orders b \<Rightarrow>
          (case bq_push now (ln_order_status_cache l) b (ln_limits l) of
             (r, q) \<Rightarrow> (map_sum id (\<lambda>_. ()) r, l\<lparr>ln_order_status_cache := q\<rparr>))
      | BookDiffs b \<Rightarrow>
          (case bq_push now (ln_order_diff_cache l) b (ln_limits l) of
             (r, q) \<Rightarrow> (map_sum id (\<lambda>_. ()) r, l\<lparr>ln_order_diff_cache := q\<rparr>))
      | FillBatch b \<Rightarrow>
          if (case ln_last_fill l of None \<Rightarrow> True | Some height \<Rightarrow> height < ba_block_number b)
          then (Inr (), tx_send (MsgFills b) (l\<lparr>ln_last_fill := Some (ba_block_number b)\<rparr>))
          else (Inr (), l))"

text \<open>What follows a block that was applied: account for it in the validation cache, and publish it.\<close>

definition drop_validation :: "listener \<Rightarrow> listener" where
  "drop_validation l =
     l\<lparr>ln_recovery_epoch := ln_recovery_epoch l + 1, ln_fetched_snapshot_cache := None,
       ln_snapshot_cache_started := None, ln_snapshot_cache_bytes := 0\<rparr>"

definition record_pair :: "status_batch \<Rightarrow> diff_batch \<Rightarrow> listener \<Rightarrow> unit result \<times> listener" where
  "record_pair order_statuses order_diffs l =
     (case checked_add (ba_wire_bytes order_statuses) (ba_wire_bytes order_diffs) of
        None \<Rightarrow> (Inl PairByteOverflow, l)
      | Some pair_bytes \<Rightarrow>
          let next_cache_bytes = checked_add (ln_snapshot_cache_bytes l) pair_bytes;
              full = (case ln_fetched_snapshot_cache l of
                        None \<Rightarrow> False
                      | Some cache \<Rightarrow>
                          length cache \<ge> rl_queue_heights (ln_limits l)
                          \<or> (case next_cache_bytes of None \<Rightarrow> True | Some n \<Rightarrow> n > rl_queue_bytes (ln_limits l)));
              l = (if full then drop_validation l else l)
          in (case ln_fetched_snapshot_cache l of
                None \<Rightarrow> (Inr (), tx_send (MsgL4BookUpdates order_diffs order_statuses) l)
              | Some cache \<Rightarrow>
                  (case next_cache_bytes of
                     None \<Rightarrow> (Inl ValidationByteOverflow, l)
                   | Some n \<Rightarrow>
                       (Inr (), tx_send (MsgL4BookUpdates order_diffs order_statuses)
                          (l\<lparr>ln_snapshot_cache_bytes := n,
                             ln_fetched_snapshot_cache := Some (cache @ [(order_statuses, order_diffs)])\<rparr>)))))"

definition apply_pair :: "status_batch \<Rightarrow> diff_batch \<Rightarrow> listener \<Rightarrow> (unit result \<times> listener) option" where
  "apply_pair order_statuses order_diffs l =
     (case ln_order_book_state l of
        None \<Rightarrow> Some (record_pair order_statuses order_diffs l)
      | Some st \<Rightarrow>
          if ba_block_number order_statuses \<le> st_height st then Some (Inr (), l)
          else do {
            (r, st') \<leftarrow> apply_updates st order_statuses order_diffs;
            let l = l\<lparr>ln_order_book_state := Some st'\<rparr>;
            case r of Inl e \<Rightarrow> Some (Inl e, l) | Inr _ \<Rightarrow> Some (record_pair order_statuses order_diffs l)
          })"

definition receive_batch :: "instant \<Rightarrow> event_batch \<Rightarrow> listener \<Rightarrow> (unit result \<times> listener) option" where
  "receive_batch now updates l =
     (let (r, l) = queue_batch now updates l in
      case r of
        Inl e \<Rightarrow> Some (Inl e, l)
      | Inr _ \<Rightarrow>
          if is_ready l
          then (let (pair, l) = pop_cache l in
                case pair of
                  None \<Rightarrow> Some (Inr (), l)
                | Some (order_statuses, order_diffs) \<Rightarrow> apply_pair order_statuses order_diffs l)
          else Some (Inr (), l))"

section \<open>Validation snapshots\<close>

definition begin_caching :: "instant \<Rightarrow> listener \<Rightarrow> listener" where
  "begin_caching now l =
     l\<lparr>ln_snapshot_cache_started := Some now, ln_snapshot_cache_bytes := 0, ln_fetched_snapshot_cache := Some []\<rparr>"

definition take_cache :: "listener \<Rightarrow> (status_batch \<times> diff_batch) list \<times> listener" where
  "take_cache l =
     ((case ln_fetched_snapshot_cache l of None \<Rightarrow> [] | Some cache \<Rightarrow> cache),
      l\<lparr>ln_snapshot_cache_started := None, ln_snapshot_cache_bytes := 0, ln_fetched_snapshot_cache := None\<rparr>)"

lemma sync_queues_shorter:
  "sync_queues sq dq = (Some p, sq', dq') \<Longrightarrow>
    length (bq_deque sq') + length (bq_deque dq') < length (bq_deque sq) + length (bq_deque dq)"
proof (induction sq dq rule: sync_queues.induct)
  case (1 sq dq)
  obtain t s where t: "bq_front dq = Some t" and s: "bq_front sq = Some s"
    using "1.prems" by (cases "bq_front dq"; cases "bq_front sq") auto
  have pops: "length (bq_deque (snd (bq_pop_front dq))) < length (bq_deque dq)"
    "length (bq_deque (snd (bq_pop_front sq))) < length (bq_deque sq)"
    using t s by (auto simp: bq_front_def bq_pop_front_def split: list.splits)
  consider "ba_block_number t < ba_block_number s" | "ba_block_number t = ba_block_number s" | "ba_block_number t > ba_block_number s"
    by fastforce
  then show ?case
  proof cases
    case 1
    then show ?thesis using "1.IH"(1) [OF t s 1] "1.prems" pops t s by (simp del: sync_queues.simps add: sync_queues.simps [of sq dq])
  next
    case 2
    then show ?thesis using "1.prems" pops t s
      by (auto simp del: sync_queues.simps simp add: sync_queues.simps [of sq dq] split: prod.splits option.splits)
  next
    case 3
    then have n: "\<not> ba_block_number t < ba_block_number s" "ba_block_number t \<noteq> ba_block_number s" by auto
    then show ?thesis using "1.IH"(2) [OF t s n] "1.prems" pops t s
      by (simp del: sync_queues.simps add: sync_queues.simps [of sq dq])
  qed
qed

declare sync_queues.simps [simp del]

text \<open>
  The loop of \<open>init_from_snapshot\<close>: apply every pair the queues hold. The outer \<open>None\<close> is a panic; an inner
  \<open>None\<close> means a pair could not be applied and the snapshot is given up.
\<close>

function replay_queues ::
    "node_data_order_status batch_queue \<Rightarrow> node_data_order_diff batch_queue \<Rightarrow> order_book_state
     \<Rightarrow> (order_book_state option \<times> node_data_order_status batch_queue \<times> node_data_order_diff batch_queue) option" where
  "replay_queues sq dq st =
     (case sync_queues sq dq of
        (None, sq', dq') \<Rightarrow> Some (Some st, sq', dq')
      | (Some (order_statuses, order_diffs), sq', dq') \<Rightarrow>
          (case apply_updates st order_statuses order_diffs of
             None \<Rightarrow> None
           | Some (Inl _, _) \<Rightarrow> Some (None, sq', dq')
           | Some (Inr _, st') \<Rightarrow> replay_queues sq' dq' st'))"
  by pat_completeness auto
termination
  by (relation "measure (\<lambda>(sq, dq, _). length (bq_deque sq) + length (bq_deque dq))")
    (auto dest: sync_queues_shorter [OF sym])

declare replay_queues.simps [simp del]

definition init_from_snapshot :: "inner_l4_order snapshots \<Rightarrow> u64 \<Rightarrow> listener \<Rightarrow> listener option" where
  "init_from_snapshot snapshot height l = do {
     (st, sq, dq) \<leftarrow> replay_queues (ln_order_status_cache l) (ln_order_diff_cache l)
       (st_from_snapshot snapshot height 0 True (ln_ignore_spot l));
     let l = l\<lparr>ln_order_status_cache := sq, ln_order_diff_cache := dq\<rparr>;
     Some (case st of None \<Rightarrow> l | Some new_order_book \<Rightarrow> l\<lparr>ln_order_book_state := Some new_order_book\<rparr>)
   }"

text \<open>Bring the validation baseline up to the snapshot's height; \<open>Inr None\<close> means the cache ran out.\<close>

fun catch_up ::
    "u64 \<Rightarrow> order_book_state \<Rightarrow> (status_batch \<times> diff_batch) list
     \<Rightarrow> (order_book_state \<times> (status_batch \<times> diff_batch) list) option result option" where
  "catch_up height st [] = Some (if st_height st < height then Inr None else Inr (Some (st, [])))"
| "catch_up height st ((order_statuses, order_diffs) # cache) =
     (if st_height st < height
      then (case apply_updates st order_statuses order_diffs of
              None \<Rightarrow> None
            | Some (Inl e, _) \<Rightarrow> Some (Inl e)
            | Some (Inr _, st') \<Rightarrow> catch_up height st' cache)
      else Some (Inr (Some (st, (order_statuses, order_diffs) # cache))))"

fun replay_cache :: "order_book_state \<Rightarrow> (status_batch \<times> diff_batch) list \<Rightarrow> order_book_state result option" where
  "replay_cache st [] = Some (Inr st)"
| "replay_cache st ((order_statuses, order_diffs) # cache) =
     (case apply_updates st order_statuses order_diffs of
        None \<Rightarrow> None
      | Some (Inl e, _) \<Rightarrow> Some (Inl e)
      | Some (Inr _, st') \<Rightarrow> replay_cache st' cache)"

definition ln_l2_snapshots ::
    "(u64 \<Rightarrow> u32) \<Rightarrow> listener \<Rightarrow> bool \<Rightarrow> ((u64 \<times> u64 \<times> l2_snapshots) option \<times> listener) option" where
  "ln_l2_snapshots lg l prevent_future_snaps =
     (case ln_order_book_state l of
        None \<Rightarrow> Some (None, l)
      | Some st \<Rightarrow> do {
          (r, st') \<leftarrow> st_l2_snapshots lg st prevent_future_snaps;
          Some (r, l\<lparr>ln_order_book_state := Some st'\<rparr>)
        })"

definition ln_compute_snapshot :: "listener \<Rightarrow> timed_snapshots option" where
  "ln_compute_snapshot l = map_option st_compute_snapshot (ln_order_book_state l)"

definition ln_compute_l2_snapshot ::
    "(u64 \<Rightarrow> u32) \<Rightarrow> listener \<Rightarrow> ((u64 \<times> u64 \<times> l2_snapshots) option \<times> listener) option" where
  "ln_compute_l2_snapshot lg l =
     (case ln_order_book_state l of
        None \<Rightarrow> Some (None, l)
      | Some st \<Rightarrow> do {
          (r, st') \<leftarrow> st_compute_l2_snapshot lg st;
          Some (Some r, l\<lparr>ln_order_book_state := Some st'\<rparr>)
        })"

definition publish_l2 :: "(u64 \<Rightarrow> u32) \<Rightarrow> listener \<Rightarrow> listener option" where
  "publish_l2 lg l = do {
     (r, l) \<leftarrow> ln_l2_snapshots lg l True;
     Some (case r of None \<Rightarrow> l | Some (time, height, views) \<Rightarrow> tx_send (MsgSnapshot views time height) l)
   }"

text \<open>\<open>render\<close> stands for the \<open>Display\<close> text of an error, of which 512 characters are kept.\<close>

definition reconcile_snapshot ::
    "(u64 \<Rightarrow> u32) \<Rightarrow> (error \<Rightarrow> string) \<Rightarrow> order_book_state option \<Rightarrow> inner_l4_order snapshots \<Rightarrow> u64
     \<Rightarrow> (status_batch \<times> diff_batch) list \<Rightarrow> listener \<Rightarrow> (unit result \<times> listener) option" where
  "reconcile_snapshot lg render state expected_snapshot height cache l =
     (case state of
        None \<Rightarrow> map_option (Pair (Inr ())) (init_from_snapshot expected_snapshot height l)
      | Some st \<Rightarrow>
          (case catch_up height st cache of
             None \<Rightarrow> None
           | Some (Inl e) \<Rightarrow> Some (Inl e, l)
           | Some (Inr None) \<Rightarrow> Some (Inr (), l)
           | Some (Inr (Some (st, cache))) \<Rightarrow>
               if st_height st > height then Some (Inr (), l)
               else
                 let baseline = st_compute_snapshot st;
                     consistency = validate_snapshot_consistency (ts_snapshot baseline) expected_snapshot (ln_ignore_spot l)
                 in if consistency = Inr Equal then Some (Inr (), l)
                    else
                      let empty_additions = (consistency = Inr EmptyBooksAdded);
                          l = (case consistency of
                                 Inl err \<Rightarrow>
                                   l\<lparr>ln_stats := (ln_stats l)\<lparr>rs_last_snapshot_reload_reason := Some (take 512 (render err))\<rparr>\<rparr>
                               | Inr _ \<Rightarrow> l);
                          time = (if empty_additions then ts_time baseline else 0);
                          recovered = st_from_snapshot expected_snapshot height time True (ln_ignore_spot l)
                      in (case replay_cache recovered cache of
                            None \<Rightarrow> None
                          | Some (Inl e) \<Rightarrow> Some (Inl e, l)
                          | Some (Inr recovered) \<Rightarrow>
                              let l = l\<lparr>ln_order_book_state := Some recovered\<rparr> in
                              if empty_additions
                              then map_option (Pair (Inr ()))
                                (publish_l2 lg
                                  (l\<lparr>ln_stats := (ln_stats l)\<lparr>rs_empty_book_refreshes := rs_empty_book_refreshes (ln_stats l) + 1\<rparr>\<rparr>))
                              else Some (Inr (),
                                tx_send MsgGap
                                  (l\<lparr>ln_stats := (ln_stats l)\<lparr>rs_snapshot_reloads := rs_snapshot_reloads (ln_stats l) + 1\<rparr>\<rparr>)))))"

definition finish_snapshot ::
    "(u64 \<Rightarrow> u32) \<Rightarrow> (error \<Rightarrow> string) \<Rightarrow> u64 \<Rightarrow> u64 \<Rightarrow> order_book_state option \<Rightarrow> inner_l4_order snapshots \<Rightarrow> u64
     \<Rightarrow> listener \<Rightarrow> (unit result \<times> listener) option" where
  "finish_snapshot lg render elapsed_ms epoch state snapshot height l =
     (if ln_recovery_epoch l \<noteq> epoch then Some (Inr (), l)
      else
        let (cache, l) = take_cache l in do {
          (result, l) \<leftarrow> reconcile_snapshot lg render state snapshot height cache l;
          Some (result, l\<lparr>ln_stats := (ln_stats l)\<lparr>rs_snapshot_reconcile_ms := elapsed_ms\<rparr>\<rparr>)
        })"

section \<open>Records\<close>

abbreviation LF :: char where "LF \<equiv> CHR 0x0A"
abbreviation CR :: char where "CR \<equiv> CHR 0x0D"

text \<open>\<open>str::split_inclusive\<close> at newlines.\<close>

fun split_inclusive :: "string \<Rightarrow> string list" where
  "split_inclusive [] = []"
| "split_inclusive (c # cs) =
     (if c = LF then [c] # split_inclusive cs
      else (case split_inclusive cs of [] \<Rightarrow> [[c]] | w # ws \<Rightarrow> (c # w) # ws))"

definition trim_line_end :: "string \<Rightarrow> string" where
  "trim_line_end s = rev (dropWhile (\<lambda>c. c = CR \<or> c = LF) (rev s))"

record codecs =
  cd_fills :: "node_data_fill serde"
  cd_statuses :: "node_data_order_status serde"
  cd_diffs :: "node_data_order_diff serde"

definition parse_record :: "codecs \<Rightarrow> event_source \<Rightarrow> string \<Rightarrow> coin_scope \<Rightarrow> event_batch result" where
  "parse_record cd src line scope =
     (case src of
        Fills \<Rightarrow> and_then (parse_in_scope (cd_fills cd) line scope) (\<lambda>b. Inr (FillBatch b))
      | OrderStatuses \<Rightarrow> and_then (parse_in_scope (cd_statuses cd) line scope) (\<lambda>b. Inr (Orders b))
      | OrderDiffs \<Rightarrow> and_then (parse_in_scope (cd_diffs cd) line scope) (\<lambda>b. Inr (BookDiffs b)))"

text \<open>The loop of \<open>process_data\<close>; \<open>clock i\<close> is the instant at which the \<open>i\<close>-th record is received.\<close>

fun process_records ::
    "codecs \<Rightarrow> (nat \<Rightarrow> instant) \<Rightarrow> event_source \<Rightarrow> string list \<Rightarrow> listener \<Rightarrow> (unit result \<times> listener) option" where
  "process_records cd clock src [] l = Some (Inr (), l)"
| "process_records cd clock src (record # rest) l =
     (if last record \<noteq> LF then Some (Inl IncompleteRecord, l)
      else
        let line = trim_line_end record in
        if line = [] then process_records cd (\<lambda>i. clock (Suc i)) src rest l
        else (case parse_record cd src line (ln_scope l) of
                Inl err \<Rightarrow> Some (Inl (MalformedRecord err), l)
              | Inr event_batch \<Rightarrow>
                  (case receive_batch (clock 0) event_batch l of
                     None \<Rightarrow> None
                   | Some (Inl err, l') \<Rightarrow> Some (Inl err, l'\<lparr>ln_order_book_state := None\<rparr>)
                   | Some (Inr _, l') \<Rightarrow> process_records cd (\<lambda>i. clock (Suc i)) src rest l')))"

definition process_data ::
    "(u64 \<Rightarrow> u32) \<Rightarrow> codecs \<Rightarrow> (nat \<Rightarrow> instant) \<Rightarrow> string \<Rightarrow> event_source \<Rightarrow> listener
     \<Rightarrow> (unit result \<times> listener) option" where
  "process_data lg cd clock data src l =
     (case process_records cd clock src (split_inclusive data) l of
        None \<Rightarrow> None
      | Some (Inl err, l') \<Rightarrow> Some (Inl err, l')
      | Some (Inr _, l') \<Rightarrow> map_option (Pair (Inr ())) (publish_l2 lg l'))"

section \<open>Pairing\<close>

definition pairing_ok ::
    "'a batch list \<Rightarrow> 'b batch list \<Rightarrow> ('a batch \<times> 'b batch) option \<Rightarrow> 'a batch list \<Rightarrow> 'b batch list \<Rightarrow> bool" where
  "pairing_ok S D r S' D' \<longleftrightarrow>
     (case r of
        None \<Rightarrow> (S' = [] \<or> D' = []) \<and> ba_block_number ` set S \<inter> ba_block_number ` set D = {} \<and>
          (\<exists>as bs. S = as @ S' \<and> D = bs @ D' \<and>
             (\<forall>x \<in> set as. \<exists>y \<in> set D. ba_block_number x < ba_block_number y) \<and>
             (\<forall>y \<in> set bs. \<exists>x \<in> set S. ba_block_number y < ba_block_number x))
      | Some (s, d) \<Rightarrow> s \<in> set S \<and> d \<in> set D \<and> ba_block_number s = ba_block_number d \<and>
          (\<forall>x \<in> set S. \<forall>y \<in> set D. ba_block_number x = ba_block_number y \<longrightarrow> ba_block_number s \<le> ba_block_number x) \<and>
          S' = filter (\<lambda>x. ba_block_number s < ba_block_number x) S \<and>
          D' = filter (\<lambda>y. ba_block_number d < ba_block_number y) D)"

lemma filter_above_head:
  assumes "sorted_wrt (<) (map ba_block_number (b # bs))"
  shows "filter (\<lambda>x. ba_block_number b < ba_block_number x) (b # bs) = bs"
  using assms by (simp add: filter_True)

lemma pairing_None:
  "pairing_ok S D None S' D' \<longleftrightarrow> (S' = [] \<or> D' = []) \<and> ba_block_number ` set S \<inter> ba_block_number ` set D = {} \<and>
     (\<exists>as bs. S = as @ S' \<and> D = bs @ D' \<and>
        (\<forall>x \<in> set as. \<exists>y \<in> set D. ba_block_number x < ba_block_number y) \<and>
        (\<forall>y \<in> set bs. \<exists>x \<in> set S. ba_block_number y < ba_block_number x))"
  by (simp add: pairing_ok_def)

lemma pairing_swap: "pairing_ok D S (map_option prod.swap r) D' S' \<Longrightarrow> pairing_ok S D r S' D'"
proof (cases r)
  case None
  assume "pairing_ok D S (map_option prod.swap r) D' S'"
  then show ?thesis unfolding None option.map pairing_None by blast
next
  case (Some p)
  assume "pairing_ok D S (map_option prod.swap r) D' S'"
  with Some show ?thesis by (cases p) (clarsimp simp: pairing_ok_def, metis)
qed

text \<open>A block below everything the other queue holds can be dropped.\<close>

lemma pairing_drop:
  assumes S: "sorted_wrt (<) (map ba_block_number (s # S))"
    and lt: "ba_block_number t < ba_block_number s" and ok: "pairing_ok (s # S) D r S' D'"
  shows "pairing_ok (s # S) (t # D) r S' D'"
proof -
  have above: "ba_block_number t < ba_block_number x" if "x \<in> set (s # S)" for x
    using that S lt by (auto intro: less_trans)
  show ?thesis
  proof (cases r)
    case None
    from ok [unfolded None pairing_None] obtain as bs where e: "S' = [] \<or> D' = []"
      "ba_block_number ` set (s # S) \<inter> ba_block_number ` set D = {}"
      "s # S = as @ S'" "D = bs @ D'" "\<forall>x \<in> set as. \<exists>y \<in> set D. ba_block_number x < ba_block_number y"
      "\<forall>y \<in> set bs. \<exists>x \<in> set (s # S). ba_block_number y < ba_block_number x" by blast
    have "ba_block_number t \<notin> ba_block_number ` set (s # S)" using above by force
    then have "ba_block_number ` set (s # S) \<inter> ba_block_number ` set (t # D) = {}" using e(2) by auto
    moreover have "\<forall>y \<in> set (t # bs). \<exists>x \<in> set (s # S). ba_block_number y < ba_block_number x" using e(6) lt by auto
    moreover have "t # D = (t # bs) @ D'" using e(4) by simp
    moreover have "\<forall>x \<in> set as. \<exists>y \<in> set (t # D). ba_block_number x < ba_block_number y" using e(5) by auto
    ultimately show ?thesis unfolding None pairing_None using e(1,3) by blast
  next
    case (Some p)
    then obtain a d where p: "r = Some (a, d)" by (cases p) auto
    then have "a \<in> set (s # S)" using ok by (simp add: pairing_ok_def)
    note at = above [OF this]
    have "ba_block_number s \<noteq> ba_block_number t" "\<forall>x \<in> set S. ba_block_number x \<noteq> ba_block_number t"
      using above by force+
    with at ok p show ?thesis by (auto simp: pairing_ok_def)
  qed
qed

lemma pairing_drop':
  assumes "sorted_wrt (<) (map ba_block_number (t # D))" and "ba_block_number s < ba_block_number t"
    and "pairing_ok S (t # D) r S' D'"
  shows "pairing_ok (s # S) (t # D) r S' D'"
proof -
  have twice: "map_option prod.swap (map_option prod.swap r) = r" by (cases r) auto
  have "pairing_ok (t # D) S (map_option prod.swap r) D' S'"
    by (rule pairing_swap) (simp only: twice assms(3))
  from pairing_swap [OF pairing_drop [OF assms(1,2) this]] show ?thesis .
qed

lemma sync_queues_pairs:
  assumes "bq_inv sq" and "bq_inv dq" and "sync_queues sq dq = (r, sq', dq')"
  shows "bq_inv sq' \<and> bq_inv dq' \<and> pairing_ok (bq_blocks sq) (bq_blocks dq) r (bq_blocks sq') (bq_blocks dq')"
  using assms
proof (induction sq dq rule: sync_queues.induct)
  case (1 sq dq)
  note simps = sync_queues.simps [of sq dq]
  show ?case
  proof (cases "bq_front dq = None \<or> bq_front sq = None")
    case True
    then have "r = None" "sq' = sq" "dq' = dq"
      using "1.prems"(3) by (auto simp: simps split: option.splits)
    moreover have "bq_blocks sq = [] \<or> bq_blocks dq = []"
      using True bq.front_None [OF "1.prems"(1)] bq.front_None [OF "1.prems"(2)] by blast
    ultimately show ?thesis using "1.prems"(1,2) by (auto simp: pairing_ok_def)
  next
    case False
    then obtain t s where t: "bq_front dq = Some t" and s: "bq_front sq = Some s" by auto
    obtain D S where D: "bq_blocks dq = t # D" and S: "bq_blocks sq = s # S"
      using bq.front_Some [OF "1.prems"(2) t] bq.front_Some [OF "1.prems"(1) s] by blast
    have srt: "sorted_wrt (<) (map ba_block_number (s # S))" "sorted_wrt (<) (map ba_block_number (t # D))"
      using bq.increasing [OF "1.prems"(1)] bq.increasing [OF "1.prems"(2)] by (simp_all add: S D)
    have pops: "bq_blocks (snd (bq_pop_front dq)) = D" "bq_inv (snd (bq_pop_front dq))" "fst (bq_pop_front dq) = Some t"
      "bq_blocks (snd (bq_pop_front sq)) = S" "bq_inv (snd (bq_pop_front sq))" "fst (bq_pop_front sq) = Some s"
      by (simp_all add: bq.pop_blocks bq.pop_inv bq.pop_front "1.prems"(1,2) D S t s)
    consider "ba_block_number t < ba_block_number s" | "ba_block_number t = ba_block_number s" | "ba_block_number s < ba_block_number t"
      by fastforce
    then show ?thesis
    proof cases
      case 1
      then have "sync_queues sq (snd (bq_pop_front dq)) = (r, sq', dq')" using "1.prems"(3) t s by (simp add: simps)
      from "1.IH"(1) [OF t s 1 "1.prems"(1) pops(2) this] pairing_drop [OF srt(1) 1] show ?thesis
        by (simp add: D S pops)
    next
      case 2
      have "r = Some (s, t)" "sq' = snd (bq_pop_front sq)" "dq' = snd (bq_pop_front dq)"
        using "1.prems"(3) t s 2 pops(3,6) by (auto simp: simps split: prod.splits)
      moreover have "\<forall>x \<in> set (s # S). ba_block_number s \<le> ba_block_number x" using srt(1) by auto
      ultimately show ?thesis using 2 pops filter_above_head [OF srt(1)] filter_above_head [OF srt(2)]
        by (simp add: pairing_ok_def D S) metis
    next
      case 3
      then have n: "\<not> ba_block_number t < ba_block_number s" "ba_block_number t \<noteq> ba_block_number s" by auto
      then have "sync_queues (snd (bq_pop_front sq)) dq = (r, sq', dq')" using "1.prems"(3) t s by (simp add: simps)
      from "1.IH"(2) [OF t s n pops(5) "1.prems"(2) this] pairing_drop' [OF srt(2) 3] show ?thesis
        by (simp add: D S pops)
    qed
  qed
qed

text \<open>
  C28. \<open>pop_cache\<close> pairs the streams at the earliest common height: it returns the status and diff batches of the least height
  both queues hold and keeps exactly the later blocks of each; when it returns nothing, no height is in both queues,
  one of them is empty, and every block it dropped lies below a block of the other queue, so that no
  later batch could have matched it.
\<close>

theorem pop_cache_pairs_earliest:
  assumes "bq_inv (ln_order_status_cache l)" and "bq_inv (ln_order_diff_cache l)" and "pop_cache l = (r, l')"
  shows "pairing_ok (bq_blocks (ln_order_status_cache l)) (bq_blocks (ln_order_diff_cache l)) r
    (bq_blocks (ln_order_status_cache l')) (bq_blocks (ln_order_diff_cache l'))"
proof -
  obtain sq dq where "sync_queues (ln_order_status_cache l) (ln_order_diff_cache l) = (r, sq, dq)"
    "l' = l\<lparr>ln_order_status_cache := sq, ln_order_diff_cache := dq\<rparr>"
    using assms(3) by (auto simp: pop_cache_def Let_def split: prod.splits)
  with sync_queues_pairs [OF assms(1,2)] show ?thesis by simp
qed

definition empty_block :: "nat \<Rightarrow> 'e batch" where
  "empty_block n = \<lparr>ba_local_time = 0, ba_block_time = 0, ba_block_number = of_nat n, ba_events = [], ba_wire_bytes = n\<rparr>"

definition sample_queue :: "nat \<Rightarrow> nat \<Rightarrow> 'e batch_queue" where
  "sample_queue a b = \<lparr>bq_deque = [(empty_block a, 0), (empty_block b, 0)], bq_last_ts = Some (of_nat b), bq_bytes = a + b\<rparr>"

theorem pop_cache_pairs_earliest_witness:
  "let l = (listener_new None False scope_default)\<lparr>ln_order_status_cache := sample_queue 5 7, ln_order_diff_cache := sample_queue 6 7\<rparr>
   in case pop_cache l of (Some (s, d), l') \<Rightarrow> ba_block_number s = 7 \<and> ba_block_number d = 7 | _ \<Rightarrow> False"
proof -
  let ?l = "(listener_new None False scope_default)\<lparr>ln_order_status_cache := sample_queue 5 7, ln_order_diff_cache := sample_queue 6 7\<rparr>"
  have inv: "bq_inv (ln_order_status_cache ?l)" "bq_inv (ln_order_diff_cache ?l)"
    by (simp_all add: sample_queue_def bq_inv_def bq_blocks_def empty_block_def word_le_nat_alt word_less_nat_alt)
  obtain r l' where p: "pop_cache ?l = (r, l')" by fastforce
  note ok = pop_cache_pairs_earliest [OF inv p]
  have "r \<noteq> None"
    using ok by (cases r) (auto simp: pairing_None sample_queue_def bq_blocks_def empty_block_def)
  then obtain s d where "r = Some (s, d)" by auto
  with ok p show ?thesis by (auto simp: pairing_ok_def sample_queue_def bq_blocks_def empty_block_def)
qed

end
