(* ===== verification/Listener_Protocol.thy ===== *)
theory Listener_Protocol
  imports Listener
begin

text \<open>
  The listener together with the snapshot request it has in flight (\<open>fetch_snapshot\<close>), as a transition system, and the
  order in which its clients see blocks.
\<close>

section \<open>The snapshot request\<close>

text \<open>
  \<open>fetch_snapshot\<close> by its critical sections. It takes the baseline before asking the node, records the request
  when the answer is in, and ends by reconciling, or by giving the attempt up when the request or the
  parsing failed. Times are arguments.
\<close>

definition fetch_begin :: "instant \<Rightarrow> u64 \<Rightarrow> int \<Rightarrow> listener \<Rightarrow> (u64 \<times> order_book_state option) \<times> listener" where
  "fetch_begin now clone_ms request_started_at_ms l =
     (let epoch = ln_recovery_epoch l;
          l = begin_caching now l;
          state = ln_order_book_state l
      in ((epoch, state),
          l\<lparr>ln_stats := (ln_stats l)\<lparr>rs_snapshot_clone_ms := clone_ms,
              rs_snapshot_requests := rs_snapshot_requests (ln_stats l) + 1,
              rs_snapshot_request_inflight_started_at_ms := request_started_at_ms\<rparr>\<rparr>))"

definition fetch_answered :: "int \<Rightarrow> u64 \<Rightarrow> int \<Rightarrow> listener \<Rightarrow> listener" where
  "fetch_answered request_started_at_ms request_ms completed_at_ms l =
     l\<lparr>ln_stats := (ln_stats l)\<lparr>rs_snapshot_request_started_at_ms := request_started_at_ms,
         rs_snapshot_request_ms := request_ms, rs_snapshot_request_completed_at_ms := completed_at_ms,
         rs_snapshot_request_inflight_started_at_ms := 0\<rparr>\<rparr>"

definition fetch_parsed :: "u64 \<Rightarrow> listener \<Rightarrow> listener" where
  "fetch_parsed parse_ms l = l\<lparr>ln_stats := (ln_stats l)\<lparr>rs_snapshot_parse_ms := parse_ms\<rparr>\<rparr>"

definition fetch_failed :: "listener \<Rightarrow> listener" where
  "fetch_failed l =
     (let l = snd (take_cache l)
      in l\<lparr>ln_stats := (ln_stats l)\<lparr>rs_snapshot_failures := rs_snapshot_failures (ln_stats l) + 1\<rparr>\<rparr>)"

text \<open>The age check of the maintenance tick.\<close>

definition expire_validation :: "instant \<Rightarrow> listener \<Rightarrow> listener" where
  "expire_validation now l =
     (case ln_snapshot_cache_started l of
        Some since \<Rightarrow>
          if elapsed now since > rl_queue_age (ln_limits l)
          then snd (take_cache (l\<lparr>ln_recovery_epoch := ln_recovery_epoch l + 1\<rparr>)) else l
      | None \<Rightarrow> l)"

text \<open>The result of \<open>process_data\<close>: on an error the caller fences, before it lets go of the lock.\<close>

definition settle :: "unit result \<times> listener \<Rightarrow> listener" where
  "settle r = (case fst r of Inl _ \<Rightarrow> fence (snd r) | Inr _ \<Rightarrow> snd r)"

section \<open>The listener and its request as a transition system\<close>

record system =
  sy_listener :: listener
  sy_task :: "(u64 \<times> order_book_state option) option"

text \<open>
  The recovery epoch is 64 bits wide and wraps; it tells an outdated request from a live one as long as it does not
  come round during one request.
\<close>

definition epoch_fresh :: "system \<Rightarrow> bool" where
  "epoch_fresh s \<longleftrightarrow> (\<forall>e st. sy_task s = Some (e, st) \<and> ln_fetched_snapshot_cache (sy_listener s) = None \<longrightarrow>
     ln_recovery_epoch (sy_listener s) \<noteq> e)"

inductive step :: "(u64 \<Rightarrow> u32) \<Rightarrow> system \<Rightarrow> system \<Rightarrow> bool" for lg where
  data: "process_data lg cd clock content src (sy_listener s) = Some r \<Longrightarrow>
    s' = s\<lparr>sy_listener := settle r\<rparr> \<Longrightarrow> epoch_fresh s' \<Longrightarrow> step lg s s'"
| gap: "s' = s\<lparr>sy_listener := fence (sy_listener s)\<rparr> \<Longrightarrow> epoch_fresh s' \<Longrightarrow> step lg s s'"
| expire: "s' = s\<lparr>sy_listener := expire_validation now (sy_listener s)\<rparr> \<Longrightarrow> epoch_fresh s' \<Longrightarrow> step lg s s'"
| request: "sy_task s = None \<Longrightarrow> fetch_begin now ms at_ms (sy_listener s) = (task, l) \<Longrightarrow>
    step lg s \<lparr>sy_listener = l, sy_task = Some task\<rparr>"
| answered: "step lg s (s\<lparr>sy_listener := fetch_answered a b c (sy_listener s)\<rparr>)"
| parsed: "step lg s (s\<lparr>sy_listener := fetch_parsed ms (sy_listener s)\<rparr>)"
| counted: "step lg s (s\<lparr>sy_listener := (sy_listener s)\<lparr>ln_stats := stats\<rparr>\<rparr>)"
| viewed: "ln_compute_l2_snapshot lg (sy_listener s) = Some (r, l) \<Longrightarrow> step lg s (s\<lparr>sy_listener := l\<rparr>)"
| outdated: "sy_task s = Some (e, st) \<Longrightarrow> ln_recovery_epoch (sy_listener s) \<noteq> e \<Longrightarrow> step lg s (s\<lparr>sy_task := None\<rparr>)"
| failed: "sy_task s = Some task \<Longrightarrow> step lg s \<lparr>sy_listener = fetch_failed (sy_listener s), sy_task = None\<rparr>"
| finished: "sy_task s = Some (e, st) \<Longrightarrow> finish_snapshot lg render ms e st snapshot height (sy_listener s) = Some r \<Longrightarrow>
    step lg s \<lparr>sy_listener = snd r, sy_task = None\<rparr>"

inductive reached :: "(u64 \<Rightarrow> u32) \<Rightarrow> system \<Rightarrow> bool" for lg where
  init: "reached lg \<lparr>sy_listener = (listener_new (Some []) ignore_spot scope)\<lparr>ln_limits := limits\<rparr>, sy_task = None\<rparr>"
| stepped: "reached lg s \<Longrightarrow> step lg s s' \<Longrightarrow> reached lg s'"

section \<open>The stream of messages\<close>

text \<open>Scanning the messages: whether each update pairs one block and the blocks were consecutive, and the last one since a gap.\<close>

fun scan :: "bool \<times> u64 option \<Rightarrow> internal_message \<Rightarrow> bool \<times> u64 option" where
  "scan (ok, h) MsgGap = (ok, None)"
| "scan (ok, h) (MsgL4BookUpdates d s) =
     (ok \<and> ba_block_number d = ba_block_number s \<and> (case h of None \<Rightarrow> True | Some k \<Rightarrow> ba_block_number s = k + 1), Some (ba_block_number s))"
| "scan (ok, h) _ = (ok, h)"

definition stream :: "internal_message list \<Rightarrow> bool \<times> u64 option" where
  "stream ms = foldl scan (True, None) ms"

lemma stream_simps [simp]: "stream [] = (True, None)" "stream (ms @ [m]) = scan (stream ms) m"
  by (simp_all add: stream_def)

lemma scan_ok: "fst (scan r m) \<Longrightarrow> fst r"
  by (cases r; cases m) auto

lemma stream_prefix: "fst (stream (xs @ ys)) \<Longrightarrow> fst (stream xs)"
  by (induction ys rule: rev_induct) (auto simp: append_assoc [symmetric] simp del: append_assoc dest: scan_ok)

fun passes :: "internal_message \<Rightarrow> bool" where
  "passes MsgGap = False"
| "passes (MsgL4BookUpdates _ _) = False"
| "passes _ = True"

lemma stream_passes: "\<forall>m \<in> set ys. passes m \<Longrightarrow> snd (stream (xs @ ys)) = snd (stream xs)"
proof (induction ys rule: rev_induct)
  case (snoc m ys)
  have "snd (scan r m) = snd r" for r using snoc.prems by (cases r; cases m) auto
  with snoc show ?case by (simp add: append_assoc [symmetric] del: append_assoc)
qed simp

lemma stream_consecutive:
  assumes "fst (stream (xs @ MsgL4BookUpdates d s # ys @ MsgL4BookUpdates d' s' # zs))" and "\<forall>m \<in> set ys. passes m"
  shows "ba_block_number s' = ba_block_number s + 1"
proof -
  let ?p = "(xs @ [MsgL4BookUpdates d s]) @ ys"
  have "snd (stream (xs @ [MsgL4BookUpdates d s])) = Some (ba_block_number s)"
    by (cases "stream xs") simp
  then have "snd (stream ?p) = Some (ba_block_number s)" using stream_passes [OF assms(2), of "xs @ [MsgL4BookUpdates d s]"] by simp
  moreover have "fst (stream (?p @ [MsgL4BookUpdates d' s']))"
    using assms(1) stream_prefix [of "?p @ [MsgL4BookUpdates d' s']" zs] by simp
  ultimately show ?thesis unfolding stream_simps by (cases "stream ?p") auto
qed

section \<open>Invariants\<close>

lemma tx_send_fields [simp]:
  "ln_order_book_state (tx_send m l) = ln_order_book_state l" "ln_recovery_epoch (tx_send m l) = ln_recovery_epoch l"
  "ln_fetched_snapshot_cache (tx_send m l) = ln_fetched_snapshot_cache l" "ln_limits (tx_send m l) = ln_limits l"
  "ln_snapshot_cache_bytes (tx_send m l) = ln_snapshot_cache_bytes l"
  "ln_order_status_cache (tx_send m l) = ln_order_status_cache l" "ln_order_diff_cache (tx_send m l) = ln_order_diff_cache l"
  "ln_internal_message_tx (tx_send m l) = map_option (\<lambda>ms. ms @ [m]) (ln_internal_message_tx l)"
  by (auto simp: tx_send_def split: option.splits)

definition tx_stream :: "listener \<Rightarrow> (bool \<times> u64 option) option" where
  "tx_stream l = map_option stream (ln_internal_message_tx l)"

text \<open>The updates sent since the last gap lead exactly to the height of the live state.\<close>

definition live_ok :: "listener \<Rightarrow> bool" where
  "live_ok l \<longleftrightarrow> (\<exists>h. tx_stream l = Some (True, h) \<and>
     (case ln_order_book_state l of None \<Rightarrow> h = None | Some st \<Rightarrow> h = None \<or> h = Some (st_height st)))"

definition sent_ok :: "listener \<Rightarrow> bool" where
  "sent_ok l \<longleftrightarrow> (\<exists>h. tx_stream l = Some (True, h))"

lemma live_sent: "live_ok l \<Longrightarrow> sent_ok l"
  by (auto simp: live_ok_def sent_ok_def)

lemma tx_stream_send: "tx_stream (tx_send m l) = map_option (\<lambda>r. scan r m) (tx_stream l)"
  by (cases "ln_internal_message_tx l") (simp_all add: tx_stream_def)

lemma live_same: "ln_internal_message_tx l' = ln_internal_message_tx l \<Longrightarrow>
    map_option st_height (ln_order_book_state l') = map_option st_height (ln_order_book_state l) \<Longrightarrow> live_ok l \<Longrightarrow> live_ok l'"
  by (auto simp: live_ok_def tx_stream_def split: option.splits)

lemma live_pass: "passes m \<Longrightarrow> live_ok l \<Longrightarrow> live_ok (tx_send m l)"
  by (cases m) (auto simp: live_ok_def tx_stream_send)

lemma fence_live: "sent_ok l \<Longrightarrow> live_ok (fence l)"
  by (auto simp: sent_ok_def live_ok_def fence_def tx_stream_send tx_stream_def)

text \<open>Consecutive blocks from one height to another.\<close>

fun chain :: "u64 \<Rightarrow> (status_batch \<times> diff_batch) list \<Rightarrow> u64 \<Rightarrow> bool" where
  "chain a [] b = (a = b)"
| "chain a ((s, d) # ps) b = (a < a + 1 \<and> ba_block_number s = a + 1 \<and> chain (a + 1) ps b)"

lemma chain_append: "chain a (ps @ qs) c \<longleftrightarrow> (\<exists>b. chain a ps b \<and> chain b qs c)"
  by (induction ps arbitrary: a) auto

lemma next_height:
  fixes n h :: u64
  assumes "\<not> h + 1 < n" and "h < n"
  shows "n = h + 1 \<and> h < h + 1"
proof (cases "h + 1 = 0")
  case True
  then have "h = - 1" by (simp add: eq_neg_iff_add_eq_0)
  with assms(2) show ?thesis by (simp add: not_less [symmetric])
next
  case False
  then have "unat (h + 1) = unat h + 1" using unatSuc [of h] by (simp add: add.commute)
  with assms show ?thesis by (simp add: word_less_nat_alt word_unat_eq_iff)
qed

lemma apply_updates_next:
  assumes "apply_updates st s d = Some (Inr u, st')" and "st_height st < ba_block_number s"
  shows "ba_block_number s = st_height st + 1 \<and> st_height st < st_height st + 1 \<and> st_height st' = st_height st + 1 \<and>
    ba_block_number d = ba_block_number s"
proof -
  have n: "\<not> st_height st + 1 < ba_block_number s" using assms(1) by (auto simp: apply_updates_def Let_def split: option.splits if_splits)
  have "st_height st' = st_height st + 1"
    using assms n by (auto simp: apply_updates_def Let_def split: option.splits if_splits bind_splits sum.splits dest!: apply_diffs_frame)
  moreover have "ba_block_number d = ba_block_number s"
    using assms(1) by (auto simp: apply_updates_def Let_def split: option.splits if_splits)
  ultimately show ?thesis using next_height [OF n assms(2)] by simp
qed

text \<open>What may happen to the validation cache while data comes in.\<close>

definition tracks :: "listener \<Rightarrow> listener \<Rightarrow> bool" where
  "tracks l l' \<longleftrightarrow> (\<forall>c'. ln_fetched_snapshot_cache l' = Some c' \<longrightarrow>
     ln_recovery_epoch l' = ln_recovery_epoch l \<and>
     (\<exists>c ext. ln_fetched_snapshot_cache l = Some c \<and> c' = c @ ext \<and>
       (case (ln_order_book_state l, ln_order_book_state l') of
          (None, None) \<Rightarrow> ext = []
        | (Some a, Some b) \<Rightarrow> chain (st_height a) ext (st_height b)
        | _ \<Rightarrow> False)))"

lemma tracks_same: "ln_fetched_snapshot_cache l' = ln_fetched_snapshot_cache l \<Longrightarrow> ln_recovery_epoch l' = ln_recovery_epoch l \<Longrightarrow>
    map_option st_height (ln_order_book_state l') = map_option st_height (ln_order_book_state l) \<Longrightarrow> tracks l l'"
  by (auto simp: tracks_def split: option.splits)

lemma tracks_trans: "tracks l1 l2 \<Longrightarrow> tracks l2 l3 \<Longrightarrow> tracks l1 l3"
  unfolding tracks_def by (fastforce simp: chain_append split: option.splits)

definition advances :: "listener \<Rightarrow> listener \<Rightarrow> bool" where
  "advances l l' \<longleftrightarrow> live_ok l' \<and> tracks l l'"

lemma live_fields [simp]:
  "live_ok (l\<lparr>ln_last_fill := a\<rparr>) = live_ok l" "live_ok (l\<lparr>ln_order_status_cache := b\<rparr>) = live_ok l"
  "live_ok (l\<lparr>ln_order_diff_cache := c\<rparr>) = live_ok l" "live_ok (l\<lparr>ln_stats := d\<rparr>) = live_ok l"
  by (simp_all add: live_ok_def tx_stream_def)

lemma queue_batch_advances: "live_ok l \<Longrightarrow> queue_batch now u l = (r, l') \<Longrightarrow> advances l l'"
  by (cases u)
    (auto simp: queue_batch_def advances_def intro!: live_pass tracks_same split: prod.splits if_splits option.splits)

lemma pop_cache_advances: "live_ok l \<Longrightarrow> pop_cache l = (r, l') \<Longrightarrow> advances l l'"
  by (auto simp: pop_cache_def advances_def Let_def intro!: tracks_same split: prod.splits)

lemma record_pair_sent: "sent_ok l \<Longrightarrow> record_pair s d l = (Inl e, l') \<Longrightarrow> sent_ok l'"
  by (auto simp: record_pair_def sent_ok_def tx_stream_def drop_validation_def Let_def split: option.splits if_splits)

text \<open>The pair that was just applied: \<open>st\<close> was the state before it.\<close>

lemma record_pair_advances:
  assumes live: "live_ok l" and st: "ln_order_book_state l = Some st"
    and b: "ba_block_number s = st_height st + 1" "st_height st < st_height st + 1" "st_height st' = st_height st + 1"
      "ba_block_number d = ba_block_number s"
    and r: "record_pair s d (l\<lparr>ln_order_book_state := Some st'\<rparr>) = (Inr u, l')"
  shows "advances l l'"
proof -
  let ?l = "l\<lparr>ln_order_book_state := Some st'\<rparr>"
  obtain h where h: "tx_stream l = Some (True, h)" "h = None \<or> h = Some (st_height st)"
    using live st by (auto simp: live_ok_def)
  have sent: "live_ok (tx_send (MsgL4BookUpdates d s) k)"
    if "ln_internal_message_tx k = ln_internal_message_tx l" "ln_order_book_state k = Some st'" for k
  proof -
    have "tx_stream k = Some (True, h)" using that(1) h(1) by (simp add: tx_stream_def)
    then show ?thesis using h(2) that(2) b by (auto simp: live_ok_def tx_stream_send)
  qed
  from r consider (none) k where "l' = tx_send (MsgL4BookUpdates d s) k" "ln_fetched_snapshot_cache k = None"
      "ln_internal_message_tx k = ln_internal_message_tx l" "ln_order_book_state k = Some st'"
    | (cached) n c where "ln_fetched_snapshot_cache l = Some c"
      "l' = tx_send (MsgL4BookUpdates d s) (?l\<lparr>ln_snapshot_cache_bytes := n, ln_fetched_snapshot_cache := Some (c @ [(s, d)])\<rparr>)"
    by (auto simp: record_pair_def drop_validation_def Let_def split: option.splits if_splits)
  then show ?thesis
  proof cases
    case none
    with sent [of k] show ?thesis by (simp add: advances_def tracks_def)
  next
    case cached
    with sent [of "?l\<lparr>ln_snapshot_cache_bytes := n, ln_fetched_snapshot_cache := Some (c @ [(s, d)])\<rparr>"] st b show ?thesis
      by (simp add: advances_def tracks_def)
  qed
qed

lemma apply_pair_advances:
  assumes live: "live_ok l" and "is_ready l" and r: "apply_pair s d l = Some (r, l')"
  shows "case r of Inr _ \<Rightarrow> advances l l' | Inl _ \<Rightarrow> sent_ok l'"
proof -
  obtain st where st: "ln_order_book_state l = Some st" using assms(2) by (auto simp: is_ready_def)
  show ?thesis
  proof (cases "ba_block_number s \<le> st_height st")
    case True
    with r st live show ?thesis by (auto simp: apply_pair_def advances_def intro: tracks_same)
  next
    case False
    with r st obtain r1 st' where a: "apply_updates st s d = Some (r1, st')"
      and rest: "(case r1 of Inl e \<Rightarrow> Some (Inl e, l\<lparr>ln_order_book_state := Some st'\<rparr>)
        | Inr _ \<Rightarrow> Some (record_pair s d (l\<lparr>ln_order_book_state := Some st'\<rparr>))) = Some (r, l')"
      by (auto simp: apply_pair_def Let_def split: bind_splits)
    have sent: "sent_ok (l\<lparr>ln_order_book_state := Some st'\<rparr>)"
      using live_sent [OF live] by (simp add: sent_ok_def tx_stream_def)
    show ?thesis
    proof (cases r1)
      case (Inl e)
      with rest sent show ?thesis by auto
    next
      case (Inr u)
      then have p: "record_pair s d (l\<lparr>ln_order_book_state := Some st'\<rparr>) = (r, l')" using rest by simp
      note nx = apply_updates_next [OF a [unfolded Inr]] 
      show ?thesis
        using record_pair_sent [OF sent, of s d] record_pair_advances [OF live st, of s st' d] p nx False
        by (cases r) auto
    qed
  qed
qed

lemma advances_trans: "advances l1 l2 \<Longrightarrow> advances l2 l3 \<Longrightarrow> advances l1 l3"
  by (auto simp: advances_def intro: tracks_trans)

lemma advances_refl: "live_ok l \<Longrightarrow> advances l l"
  by (auto simp: advances_def intro: tracks_same)

lemma receive_batch_advances:
  assumes live: "live_ok l" and r: "receive_batch now u l = Some (r, l')"
  shows "case r of Inr _ \<Rightarrow> advances l l' | Inl _ \<Rightarrow> sent_ok l'"
proof -
  obtain r1 l1 where q: "queue_batch now u l = (r1, l1)" by fastforce
  note a1 = queue_batch_advances [OF live q]
  then have live1: "live_ok l1" by (simp add: advances_def)
  show ?thesis
  proof (cases "(\<exists>e. r1 = Inl e) \<or> \<not> is_ready l1")
    case True
    with r q a1 live_sent [OF live1] show ?thesis
      by (auto simp: receive_batch_def Let_def split: sum.splits)
  next
    case False
    obtain pr l2 where pc: "pop_cache l1 = (pr, l2)" by fastforce
    note a2 = pop_cache_advances [OF live1 pc]
    then have live2: "live_ok l2" by (simp add: advances_def)
    have ready: "is_ready l2" using False pc by (auto simp: is_ready_def pop_cache_def Let_def split: prod.splits)
    from False r q pc have e: "(case pr of None \<Rightarrow> Some (Inr (), l2) | Some (s, d) \<Rightarrow> apply_pair s d l2) = Some (r, l')"
      by (auto simp: receive_batch_def Let_def split: sum.splits)
    show ?thesis
    proof (cases pr)
      case None
      with e advances_trans [OF a1 a2] show ?thesis by auto
    next
      case (Some p)
      with e obtain s d where "apply_pair s d l2 = Some (r, l')" by (cases p) auto
      from apply_pair_advances [OF live2 ready this] advances_trans [OF advances_trans [OF a1 a2]] show ?thesis
        by (auto split: sum.splits)
    qed
  qed
qed

lemma process_records_advances:
  "live_ok l \<Longrightarrow> process_records cd clock src recs l = Some (r, l') \<Longrightarrow>
    case r of Inr _ \<Rightarrow> advances l l' | Inl _ \<Rightarrow> sent_ok l'"
proof (induction cd clock src recs l rule: process_records.induct)
  case (1 cd clock src l)
  then show ?case by (auto simp: advances_refl)
next
  case (2 cd clock src rec rest l)
  show ?case
  proof (cases "last rec \<noteq> LF")
    case True
    with 2 live_sent show ?thesis by auto
  next
    case lf: False
    show ?thesis
    proof (cases "trim_line_end rec = []")
      case True
      with 2 lf show ?thesis by simp
    next
      case line: False
      show ?thesis
      proof (cases "parse_record cd src (trim_line_end rec) (ln_scope l)")
        case (Inl err)
        with 2 lf line live_sent show ?thesis by auto
      next
        case (Inr ev)
        from "2.prems"(2) lf line Inr obtain r1 l1 where rb: "receive_batch (clock 0) ev l = Some (r1, l1)"
          by (auto simp: Let_def split: option.splits)
        note adv = receive_batch_advances [OF "2.prems"(1) rb]
        show ?thesis
        proof (cases r1)
          case (Inl e)
          with adv "2.prems"(2) lf line Inr rb \<open>parse_record _ _ _ _ = Inr ev\<close> show ?thesis
            by (auto simp: sent_ok_def tx_stream_def)
        next
          case ok: (Inr w)
          then have "advances l l1" using adv by simp
          moreover have "process_records cd (\<lambda>i. clock (Suc i)) src rest l1 = Some (r, l')"
            using "2.prems"(2) lf line \<open>parse_record _ _ _ _ = Inr ev\<close> rb ok by simp
          ultimately show ?thesis
            using "2.IH"(2) [OF _ refl _ Inr rb refl ok] lf line by (auto simp: advances_def split: sum.splits intro: tracks_trans)
        qed
      qed
    qed
  qed
qed

lemma publish_advances:
  assumes "live_ok l" and "publish_l2 lg l = Some l'"
  shows "advances l l'"
proof -
  from assms(2) obtain r l1 where r: "ln_l2_snapshots lg l True = Some (r, l1)"
    and l': "l' = (case r of None \<Rightarrow> l1 | Some (time, height, views) \<Rightarrow> tx_send (MsgSnapshot views time height) l1)"
    by (auto simp: publish_l2_def split: bind_splits)
  have l1: "ln_internal_message_tx l1 = ln_internal_message_tx l"
    "map_option st_height (ln_order_book_state l1) = map_option st_height (ln_order_book_state l)"
    "ln_fetched_snapshot_cache l1 = ln_fetched_snapshot_cache l" "ln_recovery_epoch l1 = ln_recovery_epoch l"
    using r by (auto simp: ln_l2_snapshots_def st_l2_snapshots_def st_compute_l2_snapshot_def
        split: option.splits if_splits bind_splits)
  have "live_ok l1" by (rule live_same [OF l1(1,2) assms(1)])
  then have "live_ok l'" unfolding l' by (auto split: option.splits intro: live_pass)
  moreover have "tracks l l'"
  proof (rule tracks_same)
    show "ln_fetched_snapshot_cache l' = ln_fetched_snapshot_cache l" "ln_recovery_epoch l' = ln_recovery_epoch l"
      "map_option st_height (ln_order_book_state l') = map_option st_height (ln_order_book_state l)"
      unfolding l' using l1 by (auto split: option.splits)
  qed
  ultimately show ?thesis by (simp add: advances_def)
qed

lemma fence_tracks: "tracks l (fence l')"
  by (simp add: tracks_def fence_def)

lemma process_data_advances:
  assumes "live_ok l" and "process_data lg cd clock content src l = Some r"
  shows "advances l (settle r)"
proof -
  from assms(2) obtain r1 l1 where p: "process_records cd clock src (split_inclusive content) l = Some (r1, l1)"
    by (auto simp: process_data_def split: option.splits)
  note adv = process_records_advances [OF assms(1) p]
  show ?thesis
  proof (cases r1)
    case (Inl e)
    with adv p assms(2) fence_tracks show ?thesis
      by (auto simp: process_data_def settle_def advances_def intro: fence_live)
  next
    case (Inr u)
    with p assms(2) obtain l2 where "publish_l2 lg l1 = Some l2" "r = (Inr (), l2)"
      by (auto simp: process_data_def)
    moreover have "advances l l1" using adv Inr by simp
    ultimately show ?thesis using publish_advances [of l1 lg l2] advances_trans [of l l1 l2]
      by (auto simp: settle_def advances_def intro: tracks_trans)
  qed
qed

section \<open>Reconciling\<close>

lemma catch_up_chain:
  "chain (st_height st) cache b \<Longrightarrow> catch_up height st cache = Some (Inr (Some (st', cache'))) \<Longrightarrow>
    chain (st_height st') cache' b \<and> \<not> st_height st' < height"
proof (induction height st cache rule: catch_up.induct)
  case (1 height st)
  then show ?case by (auto split: if_splits)
next
  case (2 height st s d cache)
  show ?case
  proof (cases "st_height st < height")
    case True
    with "2.prems"(2) obtain u st1 where a: "apply_updates st s d = Some (Inr u, st1)"
      and rest: "catch_up height st1 cache = Some (Inr (Some (st', cache')))"
      by (auto split: option.splits sum.splits)
    have "st_height st < ba_block_number s" using "2.prems"(1) by simp
    from apply_updates_next [OF a this] "2.prems"(1) have "chain (st_height st1) cache b" by simp
    from "2.IH" [OF True a refl refl this rest] show ?thesis .
  next
    case False
    with 2 show ?thesis by auto
  qed
qed

lemma replay_cache_chain:
  "chain (st_height st) cache b \<Longrightarrow> replay_cache st cache = Some (Inr st') \<Longrightarrow> st_height st' = b"
proof (induction st cache rule: replay_cache.induct)
  case (2 st s d cache)
  from "2.prems"(2) obtain u st1 where a: "apply_updates st s d = Some (Inr u, st1)"
    and rest: "replay_cache st1 cache = Some (Inr st')" by (auto split: option.splits sum.splits)
  have "st_height st < ba_block_number s" using "2.prems"(1) by simp
  from apply_updates_next [OF a this] "2.prems"(1) have "chain (st_height st1) cache b" by simp
  from "2.IH" [OF a refl refl this rest] show ?case .
qed auto

lemma reconcile_live:
  assumes live: "live_ok l" and r: "reconcile_snapshot lg render state expected height cache l = Some (res, l')"
    and link: "case (state, ln_order_book_state l) of
      (None, None) \<Rightarrow> True | (Some a, Some b) \<Rightarrow> chain (st_height a) cache (st_height b) | _ \<Rightarrow> False"
  shows "live_ok l'"
proof (cases state)
  case None
  then have st: "ln_order_book_state l = None" using link by (auto split: option.splits)
  then have h: "tx_stream l = Some (True, None)" using live by (auto simp: live_ok_def)
  from None r have "res = Inr ()" "ln_internal_message_tx l' = ln_internal_message_tx l"
    by (auto simp: reconcile_snapshot_def init_from_snapshot_def Let_def split: bind_splits option.splits)
  then show ?thesis using h by (auto simp: live_ok_def tx_stream_def split: option.splits)
next
  case (Some a)
  then obtain b where b: "ln_order_book_state l = Some b" and ch: "chain (st_height a) cache (st_height b)"
    using link by (auto split: option.splits)
  obtain cu where cu: "catch_up height a cache = Some cu" using r Some by (auto simp: reconcile_snapshot_def split: option.splits)
  show ?thesis
  proof (cases "\<exists>st1 cache1. cu = Inr (Some (st1, cache1)) \<and> \<not> height < st_height st1 \<and>
      validate_snapshot_consistency (ts_snapshot (st_compute_snapshot st1)) expected (ln_ignore_spot l) \<noteq> Inr Equal")
    case False
    then have "l' = l"
      using r Some cu by (auto simp: reconcile_snapshot_def Let_def split: sum.splits option.splits if_splits)
    with live show ?thesis by auto
  next
    case True
    then obtain st1 cache1 where c1: "catch_up height a cache = Some (Inr (Some (st1, cache1)))" "\<not> height < st_height st1"
      and ne: "validate_snapshot_consistency (ts_snapshot (st_compute_snapshot st1)) expected (ln_ignore_spot l) \<noteq> Inr Equal"
      using cu by blast
    from catch_up_chain [OF ch c1(1)] c1(2) have ch1: "chain height cache1 (st_height b)" by (metis linorder_cases)
    define cons where "cons = validate_snapshot_consistency (ts_snapshot (st_compute_snapshot st1)) expected (ln_ignore_spot l)"
    define k where "k = (case cons of Inl err \<Rightarrow>
        l\<lparr>ln_stats := (ln_stats l)\<lparr>rs_last_snapshot_reload_reason := Some (take 512 (render err))\<rparr>\<rparr> | Inr _ \<Rightarrow> l)"
    define rec0 where "rec0 = st_from_snapshot expected height
        (if cons = Inr EmptyBooksAdded then ts_time (st_compute_snapshot st1) else 0) True (ln_ignore_spot k)"
    have k: "ln_internal_message_tx k = ln_internal_message_tx l" "ln_order_book_state k = Some b"
      using b by (auto simp: k_def split: sum.splits)
    from r Some c1 ne have r': "(case replay_cache rec0 cache1 of
          None \<Rightarrow> None
        | Some (Inl e) \<Rightarrow> Some (Inl e, k)
        | Some (Inr recovered) \<Rightarrow>
            let k = k\<lparr>ln_order_book_state := Some recovered\<rparr> in
            if cons = Inr EmptyBooksAdded
            then map_option (Pair (Inr ())) (publish_l2 lg
              (k\<lparr>ln_stats := (ln_stats k)\<lparr>rs_empty_book_refreshes := rs_empty_book_refreshes (ln_stats k) + 1\<rparr>\<rparr>))
            else Some (Inr (), tx_send MsgGap
              (k\<lparr>ln_stats := (ln_stats k)\<lparr>rs_snapshot_reloads := rs_snapshot_reloads (ln_stats k) + 1\<rparr>\<rparr>))) = Some (res, l')"
      by (simp only: reconcile_snapshot_def option.case sum.case prod.case if_False Let_def cons_def k_def rec0_def)
    obtain rc where rc: "replay_cache rec0 cache1 = Some rc" using r' by (auto split: option.splits)
    show ?thesis
    proof (cases rc)
      case (Inl e)
      with r' rc have "l' = k" by simp
      with live_same [OF _ _ live, of k] k b show ?thesis by simp
    next
      case (Inr recovered)
      have h: "st_height recovered = st_height b"
        using replay_cache_chain [OF _ rc [unfolded Inr]] ch1 by (simp add: rec0_def st_from_snapshot_def Let_def)
      let ?k = "k\<lparr>ln_order_book_state := Some recovered\<rparr>"
      have lk: "live_ok ?k" by (rule live_same [OF _ _ live]) (simp_all add: k b h)
      show ?thesis
      proof (cases "cons = Inr EmptyBooksAdded")
        case True
        with r' rc Inr have p: "res = Inr ()" "publish_l2 lg (?k\<lparr>ln_stats :=
            (ln_stats k)\<lparr>rs_empty_book_refreshes := rs_empty_book_refreshes (ln_stats k) + 1\<rparr>\<rparr>) = Some l'"
          by (auto simp: Let_def)
        from publish_advances [OF _ p(2)] lk have "live_ok l'" by (simp add: advances_def)
        then show ?thesis .
      next
        case False
        with r' rc Inr live_sent [OF lk] show ?thesis
          by (auto simp: live_ok_def sent_ok_def tx_stream_send Let_def tx_stream_def split: option.splits)
      qed
    qed
  qed
qed

definition task_linked :: "system \<Rightarrow> bool" where
  "task_linked s \<longleftrightarrow> (\<forall>e clone. sy_task s = Some (e, clone) \<and> ln_recovery_epoch (sy_listener s) = e \<longrightarrow>
     (\<exists>c. ln_fetched_snapshot_cache (sy_listener s) = Some c \<and>
       (case (clone, ln_order_book_state (sy_listener s)) of
          (None, None) \<Rightarrow> True | (Some a, Some b) \<Rightarrow> chain (st_height a) c (st_height b) | _ \<Rightarrow> False)))"

definition system_inv :: "system \<Rightarrow> bool" where
  "system_inv s \<longleftrightarrow> live_ok (sy_listener s) \<and> task_linked s"

lemma tracks_linked:
  assumes "task_linked s" and "tracks (sy_listener s) l'" and "epoch_fresh (s\<lparr>sy_listener := l'\<rparr>)"
  shows "task_linked (s\<lparr>sy_listener := l'\<rparr>)"
  unfolding task_linked_def
proof (intro allI impI)
  fix e clone assume a: "sy_task (s\<lparr>sy_listener := l'\<rparr>) = Some (e, clone) \<and> ln_recovery_epoch (sy_listener (s\<lparr>sy_listener := l'\<rparr>)) = e"
  with assms(3) obtain c' where c': "ln_fetched_snapshot_cache l' = Some c'" by (auto simp: epoch_fresh_def)
  with assms(2) obtain c ext where "ln_recovery_epoch l' = ln_recovery_epoch (sy_listener s)"
    "ln_fetched_snapshot_cache (sy_listener s) = Some c" "c' = c @ ext"
    and m: "case (ln_order_book_state (sy_listener s), ln_order_book_state l') of
        (None, None) \<Rightarrow> ext = [] | (Some a, Some b) \<Rightarrow> chain (st_height a) ext (st_height b) | _ \<Rightarrow> False"
    unfolding tracks_def by blast
  with assms(1) a have "case (clone, ln_order_book_state (sy_listener s)) of
      (None, None) \<Rightarrow> True | (Some a, Some b) \<Rightarrow> chain (st_height a) c (st_height b) | _ \<Rightarrow> False"
    by (auto simp: task_linked_def)
  with m \<open>c' = c @ ext\<close> c' show "\<exists>c. ln_fetched_snapshot_cache (sy_listener (s\<lparr>sy_listener := l'\<rparr>)) = Some c \<and>
       (case (clone, ln_order_book_state (sy_listener (s\<lparr>sy_listener := l'\<rparr>))) of
          (None, None) \<Rightarrow> True | (Some a, Some b) \<Rightarrow> chain (st_height a) c (st_height b) | _ \<Rightarrow> False)"
    by (auto simp: chain_append split: option.splits)
qed

lemma advances_inv:
  assumes "system_inv s" and "advances (sy_listener s) l'" and "epoch_fresh (s\<lparr>sy_listener := l'\<rparr>)"
  shows "system_inv (s\<lparr>sy_listener := l'\<rparr>)"
  using assms tracks_linked by (auto simp: system_inv_def advances_def)

lemma expire_advances: "live_ok l \<Longrightarrow> advances l (expire_validation now l)"
  by (auto simp: expire_validation_def take_cache_def advances_def live_ok_def tx_stream_def tracks_def intro: tracks_same
      split: option.splits)

lemma system_inv_fields:
  assumes "system_inv s" and "ln_internal_message_tx l' = ln_internal_message_tx (sy_listener s)"
    and "map_option st_height (ln_order_book_state l') = map_option st_height (ln_order_book_state (sy_listener s))"
    and "ln_recovery_epoch l' = ln_recovery_epoch (sy_listener s)"
    and "ln_fetched_snapshot_cache l' = ln_fetched_snapshot_cache (sy_listener s)"
  shows "system_inv (s\<lparr>sy_listener := l'\<rparr>)"
  using assms
  by (cases "ln_order_book_state l'"; cases "ln_order_book_state (sy_listener s)")
     (auto simp: system_inv_def task_linked_def live_ok_def tx_stream_def split: option.splits)

lemma compute_l2_fields:
  "ln_compute_l2_snapshot lg l = Some (r, l') \<Longrightarrow>
    map_option st_height (ln_order_book_state l') = map_option st_height (ln_order_book_state l) \<and>
    (\<exists>st. l' = l\<lparr>ln_order_book_state := st\<rparr>)"
  by (auto simp: ln_compute_l2_snapshot_def st_compute_l2_snapshot_def split: option.splits bind_splits) (metis listener.surjective listener.update_convs(8))

lemma no_task_inv: "live_ok l \<Longrightarrow> system_inv \<lparr>sy_listener = l, sy_task = None\<rparr>"
  by (simp add: system_inv_def task_linked_def)

lemma fetch_begin_fields:
  "fetch_begin now ms at_ms l = (task, l') \<Longrightarrow>
    task = (ln_recovery_epoch l, ln_order_book_state l) \<and> ln_recovery_epoch l' = ln_recovery_epoch l \<and>
    ln_order_book_state l' = ln_order_book_state l \<and> ln_fetched_snapshot_cache l' = Some [] \<and>
    ln_internal_message_tx l' = ln_internal_message_tx l"
  by (clarsimp simp: fetch_begin_def begin_caching_def Let_def)

lemma step_inv:
  assumes "step lg s s'" and inv: "system_inv s"
  shows "system_inv s'"
  using assms(1)
proof cases
  case (data cd clock content src r)
  from process_data_advances [OF _ data(1)] inv have "advances (sy_listener s) (settle r)" by (simp add: system_inv_def)
  with advances_inv [OF inv] data(2,3) show ?thesis by simp
next
  case gap
  have "advances (sy_listener s) (fence (sy_listener s))"
    using inv fence_live live_sent fence_tracks by (auto simp: advances_def system_inv_def)
  with advances_inv [OF inv] gap show ?thesis by simp
next
  case (expire now)
  with advances_inv [OF inv] expire_advances inv show ?thesis by (simp add: system_inv_def)
next
  case (request now ms at_ms task l)
  note f = fetch_begin_fields [OF request(3)]
  have "live_ok l" using inv f by (simp add: system_inv_def live_ok_def tx_stream_def)
  moreover have "task_linked \<lparr>sy_listener = l, sy_task = Some task\<rparr>"
    using f by (cases "ln_order_book_state (sy_listener s)") (simp_all add: task_linked_def)
  ultimately show ?thesis using request(1) by (simp add: system_inv_def)
next
  case (answered a b c)
  show ?thesis unfolding answered by (rule system_inv_fields [OF inv]) (simp_all add: fetch_answered_def)
next
  case (parsed ms)
  show ?thesis unfolding parsed by (rule system_inv_fields [OF inv]) (simp_all add: fetch_parsed_def)
next
  case (counted stats)
  show ?thesis unfolding counted by (rule system_inv_fields [OF inv]) simp_all
next
  case (viewed r l)
  show ?thesis unfolding viewed by (rule system_inv_fields [OF inv]) (use compute_l2_fields [OF viewed(2)] in auto)
next
  case (outdated e st)
  then show ?thesis using inv by (auto simp: system_inv_def task_linked_def)
next
  case (failed task)
  have "live_ok (fetch_failed (sy_listener s))"
    using inv by (auto simp: fetch_failed_def take_cache_def Let_def system_inv_def live_ok_def tx_stream_def)
  with failed no_task_inv show ?thesis by simp
next
  case (finished e st render ms snapshot height r)
  have "live_ok (snd r)"
  proof (cases "ln_recovery_epoch (sy_listener s) = e")
    case False
    with finished(3) inv show ?thesis by (auto simp: finish_snapshot_def system_inv_def)
  next
    case True
    then obtain c where c: "ln_fetched_snapshot_cache (sy_listener s) = Some c"
      "case (st, ln_order_book_state (sy_listener s)) of
          (None, None) \<Rightarrow> True | (Some a, Some b) \<Rightarrow> chain (st_height a) c (st_height b) | _ \<Rightarrow> False"
      using inv finished(2) by (auto simp: system_inv_def task_linked_def)
    obtain l0 where cache: "take_cache (sy_listener s) = (c, l0)" using c(1) by (simp add: take_cache_def)
    then have live: "live_ok l0" "ln_order_book_state l0 = ln_order_book_state (sy_listener s)"
      using inv by (auto simp: take_cache_def system_inv_def live_ok_def tx_stream_def)
    from finished(3) True cache obtain res l1 where
      rs: "reconcile_snapshot lg render st snapshot height c l0 = Some (res, l1)"
      "r = (res, l1\<lparr>ln_stats := (ln_stats l1)\<lparr>rs_snapshot_reconcile_ms := ms\<rparr>\<rparr>)"
      by (auto simp: finish_snapshot_def Let_def split: bind_splits)
    from reconcile_live [OF live(1) rs(1)] c(2) live(2) have "live_ok l1" by simp
    then show ?thesis using rs(2) by simp
  qed
  with finished no_task_inv show ?thesis by simp
qed

lemma reached_inv: "reached lg s \<Longrightarrow> system_inv s"
proof (induction rule: reached.induct)
  case (init ignore_spot scope limits)
  show ?case by (rule no_task_inv) (simp add: listener_new_def live_ok_def tx_stream_def)
qed (rule step_inv)

text \<open>
  C2. Clients never miss a block silently: in every state the listener reaches, whatever data arrives, however requests for
  validation snapshots start, finish, fail or are overtaken, and whatever the node's snapshots contain, two L4 updates sent one
  after the other without a gap notice between them are for consecutive blocks; and the last update sent since a gap notice
  is for the height of the live books.
\<close>

theorem updates_are_gapless:
  assumes "reached lg s" and "ln_internal_message_tx (sy_listener s) = Some sent"
  shows "(\<forall>xs d b ys d' b' zs.
      sent = xs @ MsgL4BookUpdates d b # ys @ MsgL4BookUpdates d' b' # zs \<and> (\<forall>m \<in> set ys. passes m) \<longrightarrow>
        ba_block_number b' = ba_block_number b + 1) \<and>
    (\<forall>xs d b ys st. sent = xs @ MsgL4BookUpdates d b # ys \<and> (\<forall>m \<in> set ys. passes m) \<and>
        ln_order_book_state (sy_listener s) = Some st \<longrightarrow> st_height st = ba_block_number b)"
proof -
  obtain h where h: "stream sent = (True, h)"
    "case ln_order_book_state (sy_listener s) of None \<Rightarrow> h = None | Some st \<Rightarrow> h = None \<or> h = Some (st_height st)"
    using reached_inv [OF assms(1)] assms(2) by (auto simp: system_inv_def live_ok_def tx_stream_def)
  have "st_height st = ba_block_number b"
    if "sent = xs @ MsgL4BookUpdates d b # ys" "\<forall>m \<in> set ys. passes m" "ln_order_book_state (sy_listener s) = Some st" for xs d b ys st
  proof -
    have "snd (stream (xs @ [MsgL4BookUpdates d b])) = Some (ba_block_number b)" by (cases "stream xs") simp
    then have "h = Some (ba_block_number b)"
      using stream_passes [OF that(2), of "xs @ [MsgL4BookUpdates d b]"] h(1) that(1) by simp
    with h(2) that(3) show ?thesis by simp
  qed
  moreover have "fst (stream sent)" using h(1) by simp
  ultimately show ?thesis using stream_consecutive by blast
qed

section \<open>A run\<close>

text \<open>A codec that reads a record's length as its height, and the run of a fresh listener over two blocks.\<close>

definition length_codec :: "'e serde" where
  "length_codec =
     \<lparr>sd_batch = (\<lambda>line. Inr \<lparr>ba_local_time = 0, ba_block_time = 0, ba_block_number = of_nat (length line), ba_events = [], ba_wire_bytes = 0\<rparr>),
      sd_raw_batch = (\<lambda>_. Inl IncompleteRecord), sd_coin = (\<lambda>_. Inl IncompleteRecord), sd_event = (\<lambda>_. Inl IncompleteRecord)\<rparr>"

definition demo_codecs :: codecs where
  "demo_codecs = \<lparr>cd_fills = length_codec, cd_statuses = length_codec, cd_diffs = length_codec\<rparr>"

definition demo_limits :: resource_limits where
  "demo_limits = \<lparr>rl_dirty_files = 2, rl_turn_bytes = 9, rl_record_bytes = 9, rl_queue_bytes = 99, rl_queue_heights = 9,
     rl_queue_age = 9, rl_snapshot_timeout = 9, rl_snapshot_interval = 9\<rparr>"

definition demo0 :: system where
  "demo0 = \<lparr>sy_listener = (listener_new (Some []) False scope_all)\<lparr>ln_limits := demo_limits\<rparr>, sy_task = None\<rparr>"

definition demo1 :: system where
  "demo1 = (let (task, l) = fetch_begin 0 0 0 (sy_listener demo0) in \<lparr>sy_listener = l, sy_task = Some task\<rparr>)"

definition demo2 :: system where
  "demo2 = \<lparr>sy_listener = snd (the (finish_snapshot int_log10 (\<lambda>_. '''') 0 0 None [] 7 (sy_listener demo1))), sy_task = None\<rparr>"


lemmas demo_defs = demo0_def demo_codecs_def length_codec_def demo_limits_def listener_new_def scope_all_def
  fetch_begin_def begin_caching_def Let_def

lemma demo2_eq: "demo2 = \<lparr>sy_listener = (sy_listener demo0)\<lparr>ln_order_book_state := Some (st_from_snapshot [] 7 0 True False),
   ln_stats := (ln_stats (sy_listener demo0))\<lparr>rs_snapshot_requests := 1\<rparr>\<rparr>, sy_task = None\<rparr>"
  by (simp add: demo2_def demo1_def demo_defs finish_snapshot_def take_cache_def reconcile_snapshot_def
    init_from_snapshot_def replay_queues.simps sync_queues.simps bq_front_def bq_new_def settle_def EMPTY_STATS_def)

definition demo_text :: string where
  "demo_text = ''aaaaaaaa'' @ [LF] @ ''aaaaaaaaa'' @ [LF]"

definition demo_state :: "u64 \<Rightarrow> bool \<Rightarrow> order_book_state" where
  "demo_state h snapped = (st_from_snapshot [] h 0 True False)\<lparr>st_snapped := snapped\<rparr>"

definition demo_listener :: "u64 \<Rightarrow> bool \<Rightarrow> node_data_order_status batch_queue \<Rightarrow> node_data_order_diff batch_queue \<Rightarrow> internal_message list \<Rightarrow> listener" where
  "demo_listener h snapped sq dq sent = (sy_listener demo0)\<lparr>ln_order_book_state := Some (demo_state h snapped),
     ln_stats := EMPTY_STATS\<lparr>rs_snapshot_requests := 1\<rparr>, ln_order_status_cache := sq, ln_order_diff_cache := dq,
     ln_internal_message_tx := Some sent\<rparr>"

lemmas demo_run = demo_text_def trim_line_end_def parse_record_def demo_defs parse_in_scope_def with_wire_bytes_def
   process_data_def receive_batch_def queue_batch_def bq_push_def bq_new_def checked_add_def is_ready_def pop_cache_def
   sync_queues.simps bq_front_def bq_pop_front_def usize_minus_def empty_block_def demo_listener_def elapsed_def
   apply_pair_def apply_updates_def block_time_def record_pair_def tx_send_def
   publish_l2_def ln_l2_snapshots_def st_l2_snapshots_def st_compute_l2_snapshot_def refresh_l2_snapshots_def
   demo_state_def st_from_snapshot_def from_snapshots_def

lemma demo_statuses:
  "process_data int_log10 demo_codecs (\<lambda>_. 0) demo_text OrderStatuses (demo_listener 7 False bq_new bq_new []) =
    Some (Inr (), demo_listener 7 True \<lparr>bq_deque = [(empty_block 8, 0), (empty_block 9, 0)], bq_last_ts = Some 9, bq_bytes = 17\<rparr> bq_new
      [MsgSnapshot Map.empty 0 7])"
  by (simp add: demo_run)

lemma demo_diffs:
  "process_data int_log10 demo_codecs (\<lambda>_. 0) demo_text OrderDiffs
     (demo_listener 7 True \<lparr>bq_deque = [(empty_block 8, 0), (empty_block 9, 0)], bq_last_ts = Some 9, bq_bytes = 17\<rparr> bq_new
      [MsgSnapshot Map.empty 0 7]) =
    Some (Inr (), demo_listener 9 True \<lparr>bq_deque = [], bq_last_ts = Some 9, bq_bytes = 0\<rparr> \<lparr>bq_deque = [], bq_last_ts = Some 9, bq_bytes = 0\<rparr>
      [MsgSnapshot Map.empty 0 7, MsgL4BookUpdates (empty_block 8) (empty_block 8), MsgL4BookUpdates (empty_block 9) (empty_block 9),
       MsgSnapshot Map.empty 0 9])"
  by (simp add: demo_run)

lemma demo2_listener: "demo2 = \<lparr>sy_listener = demo_listener 7 False bq_new bq_new [], sy_task = None\<rparr>"
  by (simp add: demo2_eq demo_listener_def demo_state_def demo_defs st_from_snapshot_def)

lemma demo_reached:
  "reached int_log10 \<lparr>sy_listener = demo_listener 9 True \<lparr>bq_deque = [], bq_last_ts = Some 9, bq_bytes = 0\<rparr>
      \<lparr>bq_deque = [], bq_last_ts = Some 9, bq_bytes = 0\<rparr>
      [MsgSnapshot Map.empty 0 7, MsgL4BookUpdates (empty_block 8) (empty_block 8), MsgL4BookUpdates (empty_block 9) (empty_block 9),
       MsgSnapshot Map.empty 0 9], sy_task = None\<rparr>"
proof -
  have "reached int_log10 demo0" unfolding demo0_def by (rule reached.init)
  moreover have "step int_log10 demo0 demo1"
    unfolding demo1_def by (auto split: prod.splits intro!: step.request) (simp add: demo0_def)
  moreover have "step int_log10 demo1 demo2"
  proof -
    have t: "sy_task demo1 = Some (0, None)" by (simp add: demo1_def demo_defs)
    have "finish_snapshot int_log10 (\<lambda>_. '''') 0 0 None [] 7 (sy_listener demo1) =
        Some (the (finish_snapshot int_log10 (\<lambda>_. '''') 0 0 None [] 7 (sy_listener demo1)))"
      by (simp add: demo1_def demo_defs finish_snapshot_def take_cache_def reconcile_snapshot_def
        init_from_snapshot_def replay_queues.simps sync_queues.simps bq_front_def bq_new_def)
    from step.finished [OF t this] show ?thesis unfolding demo2_def .
  qed
  ultimately have r2: "reached int_log10 demo2" by (blast intro: reached.stepped)
  let ?sq = "\<lparr>bq_deque = [(empty_block 8, 0), (empty_block 9, 0)], bq_last_ts = Some 9, bq_bytes = 17\<rparr>"
  have d2: "process_data int_log10 demo_codecs (\<lambda>_. 0) demo_text OrderStatuses (sy_listener demo2) =
      Some (Inr (), demo_listener 7 True ?sq bq_new [MsgSnapshot Map.empty 0 7])" by (simp add: demo2_listener demo_statuses)
  have "step int_log10 demo2 \<lparr>sy_listener = demo_listener 7 True ?sq bq_new [MsgSnapshot Map.empty 0 7], sy_task = None\<rparr>"
    by (rule step.data [OF d2]) (simp_all add: demo2_listener settle_def epoch_fresh_def)
  with r2 have r3: "reached int_log10 \<lparr>sy_listener = demo_listener 7 True ?sq bq_new [MsgSnapshot Map.empty 0 7], sy_task = None\<rparr>"
    by (rule reached.stepped)
  have d: "process_data int_log10 demo_codecs (\<lambda>_. 0) demo_text OrderDiffs
      (sy_listener \<lparr>sy_listener = demo_listener 7 True ?sq bq_new [MsgSnapshot Map.empty 0 7], sy_task = None\<rparr>) = Some
      (Inr (), demo_listener 9 True \<lparr>bq_deque = [], bq_last_ts = Some 9, bq_bytes = 0\<rparr> \<lparr>bq_deque = [], bq_last_ts = Some 9, bq_bytes = 0\<rparr>
      [MsgSnapshot Map.empty 0 7, MsgL4BookUpdates (empty_block 8) (empty_block 8), MsgL4BookUpdates (empty_block 9) (empty_block 9),
       MsgSnapshot Map.empty 0 9])" by (simp add: demo_diffs)
  show ?thesis by (rule reached.stepped [OF r3 step.data [OF d]]) (simp_all add: settle_def epoch_fresh_def)
qed

theorem updates_are_gapless_witness:
  "\<exists>s. reached int_log10 s \<and>
     ln_internal_message_tx (sy_listener s) =
       Some [MsgSnapshot Map.empty 0 7, MsgL4BookUpdates (empty_block 8) (empty_block 8), MsgL4BookUpdates (empty_block 9) (empty_block 9),
         MsgSnapshot Map.empty 0 9] \<and>
     ba_block_number (empty_block 9 :: status_batch) = ba_block_number (empty_block 8 :: status_batch) + 1"
proof -
  let ?sent = "[MsgSnapshot Map.empty 0 7, MsgL4BookUpdates (empty_block 8) (empty_block 8),
      MsgL4BookUpdates (empty_block 9) (empty_block 9), MsgSnapshot Map.empty 0 9]"
  obtain s where s: "reached int_log10 s" "ln_internal_message_tx (sy_listener s) = Some ?sent"
    using demo_reached by (auto simp: demo_listener_def)
  from updates_are_gapless [OF s, THEN conjunct1, rule_format, of "[MsgSnapshot Map.empty 0 7]" "empty_block 8" "empty_block 8" "[]"
      "empty_block 9" "empty_block 9" "[MsgSnapshot Map.empty 0 9]"]
  have "ba_block_number (empty_block 9 :: status_batch) = ba_block_number (empty_block 8 :: status_batch) + 1" by simp
  with s show ?thesis by blast
qed

end
