(* ===== verification/Listener_Bounds.thy ===== *)
theory Listener_Bounds
  imports Listener_Protocol
begin

text \<open>
  The listener's use of memory in every state it reaches, and its recovery from a snapshot.
\<close>

section \<open>Bounded memory\<close>

definition queue_within :: "resource_limits \<Rightarrow> 'e batch_queue \<Rightarrow> bool" where
  "queue_within limits q \<longleftrightarrow> bq_inv q \<and> bq_bytes q \<le> rl_queue_bytes limits \<and> length (bq_deque q) \<le> rl_queue_heights limits"

definition pair_bytes :: "(status_batch \<times> diff_batch) list \<Rightarrow> nat" where
  "pair_bytes ps = sum_list (map (\<lambda>(s, d). ba_wire_bytes s + ba_wire_bytes d) ps)"

definition within_limits :: "listener \<Rightarrow> bool" where
  "within_limits l \<longleftrightarrow>
     queue_within (ln_limits l) (ln_order_status_cache l) \<and> queue_within (ln_limits l) (ln_order_diff_cache l) \<and>
     (\<forall>c. ln_fetched_snapshot_cache l = Some c \<longrightarrow>
        ln_snapshot_cache_bytes l = pair_bytes c \<and> pair_bytes c \<le> rl_queue_bytes (ln_limits l) \<and>
        length c \<le> rl_queue_heights (ln_limits l))"

lemma pair_bytes_simps [simp]: "pair_bytes [] = 0" "pair_bytes (c @ [(s, d)]) = pair_bytes c + (ba_wire_bytes s + ba_wire_bytes d)"
  by (simp_all add: pair_bytes_def)

lemma queue_within_new [simp]: "queue_within limits bq_new"
  by (simp add: queue_within_def) (simp add: bq_new_def)

lemma within_same: "within_limits l \<Longrightarrow> ln_limits l' = ln_limits l \<Longrightarrow>
    ln_order_status_cache l' = ln_order_status_cache l \<Longrightarrow> ln_order_diff_cache l' = ln_order_diff_cache l \<Longrightarrow>
    ln_fetched_snapshot_cache l' = ln_fetched_snapshot_cache l \<Longrightarrow> ln_snapshot_cache_bytes l' = ln_snapshot_cache_bytes l \<Longrightarrow>
    within_limits l'"
  by (simp add: within_limits_def)

lemma within_send [simp]: "within_limits (tx_send m l) = within_limits l"
  by (simp add: within_limits_def)

lemma within_fields [simp]:
  "within_limits (l\<lparr>ln_order_book_state := a\<rparr>) = within_limits l" "within_limits (l\<lparr>ln_stats := b\<rparr>) = within_limits l"
  "within_limits (l\<lparr>ln_last_fill := c\<rparr>) = within_limits l"
  by (simp_all add: within_limits_def)

lemma push_within: "queue_within limits q \<Longrightarrow> queue_within limits (snd (bq_push now q b limits))"
proof -
  assume q: "queue_within limits q"
  then have inv: "bq_inv (snd (bq_push now q b limits))" by (simp add: queue_within_def bq_push_inv)
  show ?thesis
  proof (cases rule: bq_push_cases [of q b now limits])
    case accepted
    with inv show ?thesis by (simp add: queue_within_def)
  qed (use q in simp_all)
qed

lemma queued_bytes_filter: "queued_bytes (filter P bs) \<le> queued_bytes bs"
  by (induction bs) auto

lemma shrunk_within:
  assumes "queue_within limits q" and "bq_inv q'" and "(\<exists>as. bq_blocks q = as @ bq_blocks q') \<or> (\<exists>P. bq_blocks q' = filter P (bq_blocks q))"
  shows "queue_within limits q'"
proof -
  have "queued_bytes (bq_blocks q') \<le> queued_bytes (bq_blocks q) \<and> length (bq_blocks q') \<le> length (bq_blocks q)"
    using assms(3) queued_bytes_filter by (auto simp: length_filter_le)
  with assms(1,2) show ?thesis by (simp add: queue_within_def bq_inv_def bq_blocks_def)
qed

lemma sync_within:
  assumes "queue_within limits sq" and "queue_within limits dq" and "sync_queues sq dq = (r, sq', dq')"
  shows "queue_within limits sq' \<and> queue_within limits dq'"
proof -
  have inv: "bq_inv sq" "bq_inv dq" using assms(1,2) by (simp_all add: queue_within_def)
  note p = sync_queues_pairs [OF inv assms(3)]
  have "((\<exists>as. bq_blocks sq = as @ bq_blocks sq') \<or> (\<exists>P. bq_blocks sq' = filter P (bq_blocks sq))) \<and>
    ((\<exists>as. bq_blocks dq = as @ bq_blocks dq') \<or> (\<exists>P. bq_blocks dq' = filter P (bq_blocks dq)))"
  proof (cases r)
    case None
    with p show ?thesis unfolding None pairing_None by blast
  next
    case (Some x)
    with p show ?thesis by (cases x) (simp add: pairing_ok_def, blast)
  qed
  with p show ?thesis using shrunk_within [OF assms(1)] shrunk_within [OF assms(2)] by blast
qed

lemma fence_within: "within_limits (fence l)"
  by (simp add: fence_def) (simp add: within_limits_def)

lemma queue_batch_within: "within_limits l \<Longrightarrow> within_limits (snd (queue_batch now u l))"
  by (cases u) (auto simp: queue_batch_def within_limits_def case_prod_beta push_within)

lemma pop_cache_within: "within_limits l \<Longrightarrow> within_limits (snd (pop_cache l))"
  using sync_within [of "ln_limits l" "ln_order_status_cache l" "ln_order_diff_cache l"]
  by (auto simp: pop_cache_def within_limits_def Let_def split: prod.splits)

lemma record_pair_within: "record_pair s d l = (r, l') \<Longrightarrow> within_limits l \<Longrightarrow> within_limits l'"
  by (auto simp: record_pair_def drop_validation_def within_limits_def checked_add_def Let_def split: option.splits if_splits)

lemma apply_pair_within: "within_limits l \<Longrightarrow> apply_pair s d l = Some (r, l') \<Longrightarrow> within_limits l'"
  by (auto simp: apply_pair_def Let_def split: option.splits if_splits bind_splits sum.splits dest!: record_pair_within)

lemma receive_batch_within:
  assumes "within_limits l" and "receive_batch now u l = Some (r, l')"
  shows "within_limits l'"
proof -
  have "within_limits (snd (queue_batch now u l))" by (rule queue_batch_within [OF assms(1)])
  moreover from pop_cache_within [OF this] have "within_limits (snd (pop_cache (snd (queue_batch now u l))))" .
  ultimately show ?thesis using assms(2)
    by (auto simp: receive_batch_def Let_def split: sum.splits if_splits option.splits prod.splits dest!: apply_pair_within [rotated])
qed

lemma process_records_within:
  "within_limits l \<Longrightarrow> process_records cd clock src recs l = Some (r, l') \<Longrightarrow> within_limits l'"
proof (induction recs arbitrary: clock l)
  case (Cons rc recs)
  then show ?case
    by (auto simp: Let_def split: if_splits sum.splits option.splits dest!: receive_batch_within [rotated])
qed simp

lemma publish_within: "within_limits l \<Longrightarrow> publish_l2 lg l = Some l' \<Longrightarrow> within_limits l'"
  by (auto simp: publish_l2_def ln_l2_snapshots_def split: bind_splits option.splits)

lemma settle_within: "within_limits (snd r) \<Longrightarrow> within_limits (settle r)"
  by (auto simp: settle_def fence_within split: sum.splits)

lemma process_data_within: "within_limits l \<Longrightarrow> process_data lg cd clock content src l = Some r \<Longrightarrow> within_limits (settle r)"
  by (rule settle_within)
    (auto simp: process_data_def split: option.splits sum.splits dest!: process_records_within [rotated] publish_within [rotated])

lemma take_cache_within: "within_limits l \<Longrightarrow> within_limits (snd (take_cache l))"
  by (simp add: take_cache_def within_limits_def)

lemma replay_queues_within:
  "queue_within limits sq \<Longrightarrow> queue_within limits dq \<Longrightarrow> replay_queues sq dq st = Some (r, sq', dq') \<Longrightarrow>
    queue_within limits sq' \<and> queue_within limits dq'"
proof (induction sq dq st rule: replay_queues.induct)
  case (1 sq dq st)
  obtain p sq1 dq1 where sy: "sync_queues sq dq = (p, sq1, dq1)" by (metis prod_cases3)
  note w = sync_within [OF "1.prems"(1,2) sy]
  show ?case
  proof (cases p)
    case None
    with sy "1.prems"(3) w show ?thesis by (simp add: replay_queues.simps [of sq dq st])
  next
    case (Some sd)
    obtain s d where sd: "sd = (s, d)" by fastforce
    from "1.prems"(3) Some sy sd obtain r1 st1 where a: "apply_updates st s d = Some (r1, st1)"
      by (auto simp: replay_queues.simps [of sq dq st] split: option.splits)
    show ?thesis
    proof (cases r1)
      case (Inl e)
      with "1.prems"(3) Some sy sd a w show ?thesis by (simp add: replay_queues.simps [of sq dq st])
    next
      case (Inr u)
      then have "replay_queues sq1 dq1 st1 = Some (r, sq', dq')"
        using "1.prems"(3) Some sy sd a by (simp add: replay_queues.simps [of sq dq st])
      with "1.IH" [OF sy [symmetric] Some sd [symmetric] refl a refl Inr] w show ?thesis by simp
    qed
  qed
qed

lemma init_within: "within_limits l \<Longrightarrow> init_from_snapshot ss h l = Some l' \<Longrightarrow> within_limits l'"
  by (auto simp: init_from_snapshot_def Let_def within_limits_def split: bind_splits option.splits dest!: replay_queues_within [rotated 2])

lemma reconcile_within:
  "within_limits l \<Longrightarrow> reconcile_snapshot lg render st ss h c l = Some (r, l') \<Longrightarrow> within_limits l'"
  by (auto simp: reconcile_snapshot_def Let_def split: option.splits sum.splits if_splits dest!: init_within [rotated] publish_within [rotated])

lemma step_within: "step lg s s' \<Longrightarrow> within_limits (sy_listener s) \<Longrightarrow> within_limits (sy_listener s')"
proof (induction rule: step.induct)
  case (data cd clock content src s r s')
  then show ?case by (simp add: process_data_within)
next
  case (gap s' s)
  then show ?case by (simp add: fence_within)
next
  case (expire s' now s)
  have "within_limits (expire_validation now (sy_listener s))"
    using expire.prems by (auto simp: expire_validation_def take_cache_def within_limits_def split: option.splits)
  with expire show ?case by simp
next
  case (request s now ms at_ms task l)
  then show ?case by (auto simp: fetch_begin_def begin_caching_def Let_def within_limits_def)
next
  case (answered s a b c)
  then show ?case by (simp add: fetch_answered_def)
next
  case (parsed s ms)
  then show ?case by (simp add: fetch_parsed_def)
next
  case (failed s task)
  then show ?case using take_cache_within by (simp add: fetch_failed_def Let_def)
next
  case (finished s e st render ms snapshot height r)
  have "within_limits (snd r)"
    using finished.hyps(2) finished.prems take_cache_within [OF finished.prems]
    by (auto simp: finish_snapshot_def Let_def split: if_splits prod.splits bind_splits dest!: reconcile_within [rotated])
  then show ?case by simp
next
  case (viewed s r l)
  with compute_l2_fields [OF viewed.hyps] show ?case by auto
qed simp_all

text \<open>
  C29. The listener's memory is bounded by its configuration: in every state it reaches, the two queues of unmatched batches and
  the validation cache each hold at most the configured number of blocks and bytes, and the byte counters, which are what the resource report
  shows, are exact.
\<close>

theorem listener_memory_bounded:
  assumes "reached lg s"
  shows "queue_within (ln_limits (sy_listener s)) (ln_order_status_cache (sy_listener s)) \<and>
    queue_within (ln_limits (sy_listener s)) (ln_order_diff_cache (sy_listener s)) \<and>
    (\<forall>c. ln_fetched_snapshot_cache (sy_listener s) = Some c \<longrightarrow>
       ln_snapshot_cache_bytes (sy_listener s) = pair_bytes c \<and>
       pair_bytes c \<le> rl_queue_bytes (ln_limits (sy_listener s)) \<and> length c \<le> rl_queue_heights (ln_limits (sy_listener s))) \<and>
    (let r = resource_status (sy_listener s); limit = rl_queue_bytes (ln_limits (sy_listener s))
     in rr_unmatched_status_bytes r = queued_bytes (bq_blocks (ln_order_status_cache (sy_listener s))) \<and>
        rr_unmatched_diff_bytes r = queued_bytes (bq_blocks (ln_order_diff_cache (sy_listener s))) \<and>
        rr_unmatched_status_bytes r \<le> limit \<and> rr_unmatched_diff_bytes r \<le> limit \<and>
        (rr_snapshot_cache_active r \<longrightarrow> rr_snapshot_cache_bytes r \<le> limit))"
proof -
  have "within_limits (sy_listener s)" using assms
  proof (induction rule: reached.induct)
    case (init ignore_spot scope limits)
    show ?case by (simp add: listener_new_def within_limits_def)
  qed (rule step_within)
  then show ?thesis by (auto simp: within_limits_def resource_status_def queue_within_def bq_inv_def)
qed

theorem listener_memory_bounded_witness:
  "\<exists>s. reached int_log10 s \<and> is_ready (sy_listener s) \<and>
     length (bq_deque (ln_order_status_cache (sy_listener s))) \<le> rl_queue_heights (ln_limits (sy_listener s))"
  using listener_memory_bounded [OF demo_reached] demo_reached
  by (intro exI conjI) (assumption, simp_all add: queue_within_def is_ready_def demo_listener_def)

section \<open>Recovery\<close>

text \<open>The pairs the two queues hold: the blocks of each height that is in both, in order of height.\<close>

definition paired_with :: "'b batch list \<Rightarrow> 'a batch \<Rightarrow> ('a batch \<times> 'b batch) list" where
  "paired_with D s = map (Pair s) (filter (\<lambda>d. ba_block_number d = ba_block_number s) D)"

definition queued_pairs :: "'a batch list \<Rightarrow> 'b batch list \<Rightarrow> ('a batch \<times> 'b batch) list" where
  "queued_pairs S D = concat (map (paired_with D) S)"

lemma queued_pairs_none:
  "ba_block_number ` set S \<inter> ba_block_number ` set D = {} \<Longrightarrow> queued_pairs S D = []"
  by (fastforce simp: queued_pairs_def paired_with_def filter_empty_conv)

lemma sorted_split:
  assumes "sorted_wrt (<) (map ba_block_number S)" and "s \<in> set S"
  obtains A where "S = A @ s # filter (\<lambda>x. ba_block_number s < ba_block_number x) S"
    and "\<forall>x \<in> set A. ba_block_number x < ba_block_number s"
proof -
  from split_list [OF assms(2)] obtain A B where S: "S = A @ s # B" by blast
  have a: "\<forall>x \<in> set A. ba_block_number x < ba_block_number s" "\<forall>x \<in> set B. ba_block_number s < ba_block_number x"
    using assms(1) by (auto simp: S sorted_wrt_append)
  then have "filter (\<lambda>x. ba_block_number s < ba_block_number x) A = []" by (auto simp: filter_empty_conv dest: order.asym)
  with a have "filter (\<lambda>x. ba_block_number s < ba_block_number x) S = B" by (simp add: S)
  with that S a(1) show thesis by metis
qed

lemma queued_pairs_next:
  assumes srt: "sorted_wrt (<) (map ba_block_number S)" "sorted_wrt (<) (map ba_block_number D)"
    and ok: "pairing_ok S D (Some (s, d)) S' D'"
  shows "queued_pairs S D = (s, d) # queued_pairs S' D'"
proof -
  note ok = ok [unfolded pairing_ok_def option.case prod.case]
  have in_both: "s \<in> set S" "d \<in> set D" and same: "ba_block_number s = ba_block_number d"
    and least: "\<forall>x \<in> set S. \<forall>y \<in> set D. ba_block_number x = ba_block_number y \<longrightarrow> ba_block_number s \<le> ba_block_number x"
    and S': "S' = filter (\<lambda>x. ba_block_number s < ba_block_number x) S"
    and D': "D' = filter (\<lambda>y. ba_block_number d < ba_block_number y) D"
    using ok by blast+
  obtain A where A: "S = A @ s # S'" "\<forall>x \<in> set A. ba_block_number x < ba_block_number s"
    using sorted_split [OF srt(1) in_both(1)] S' by metis
  obtain B where B: "D = B @ d # D'" "\<forall>x \<in> set B. ba_block_number x < ba_block_number d"
    using sorted_split [OF srt(2) in_both(2)] D' by metis
  have "paired_with D x = []" if "x \<in> set A" for x
    using that A least by (fastforce simp: paired_with_def filter_empty_conv)
  moreover have "paired_with D s = [(s, d)]"
  proof -
    have "filter (\<lambda>y. ba_block_number y = ba_block_number s) B = []" "filter (\<lambda>y. ba_block_number y = ba_block_number s) D' = []"
      using B(2) by (auto simp: filter_empty_conv same D')
    then show ?thesis by (simp add: paired_with_def B(1) same)
  qed
  moreover have "paired_with D x = paired_with D' x" if "x \<in> set S'" for x
  proof -
    have gt: "ba_block_number d < ba_block_number x" using that by (simp add: S' same)
    then have "filter (\<lambda>y. ba_block_number y = ba_block_number x) B = []" using B(2) by (auto simp: filter_empty_conv)
    then show ?thesis using gt by (simp add: paired_with_def B(1))
  qed
  moreover have "concat (map f A) = []" if "\<And>x. x \<in> set A \<Longrightarrow> f x = []" for f :: "'a batch \<Rightarrow> ('a batch \<times> 'b batch) list"
    using that by simp
  ultimately show ?thesis by (simp add: queued_pairs_def A(1) cong: map_cong)
qed

lemma queued_pairs_in: "(s, d) \<in> set (queued_pairs S D) \<Longrightarrow> s \<in> set S \<and> ba_block_number d = ba_block_number s"
  by (auto simp: queued_pairs_def paired_with_def)

lemma queued_pairs_increasing:
  assumes "sorted_wrt (<) (map ba_block_number S)" and "sorted_wrt (<) (map ba_block_number D)"
  shows "sorted_wrt (\<lambda>p q. ba_block_number (fst p) < ba_block_number (fst q)) (queued_pairs S D)"
  using assms(1)
proof (induction S)
  case (Cons s S)
  have "sorted_wrt (\<lambda>p q. ba_block_number (fst p) < ba_block_number (fst q)) (paired_with D s)"
  proof -
    have f: "sorted_wrt (<) (map ba_block_number (filter (\<lambda>d. ba_block_number d = ba_block_number s) D))"
      using assms(2) by (induction D) auto
    have "length (filter (\<lambda>d. ba_block_number d = ba_block_number s) D) \<le> 1"
    proof (cases "filter (\<lambda>d. ba_block_number d = ba_block_number s) D")
      case (Cons a xs)
      then have "\<forall>x \<in> set (a # xs). ba_block_number x = ba_block_number s"
        by (metis (mono_tags, lifting) filter_eq_ConsD Cons_eq_filterD set_filter mem_Collect_eq)
      with f Cons show ?thesis by (cases xs) auto
    qed simp
    then show ?thesis unfolding paired_with_def
      by (cases "filter (\<lambda>d. ba_block_number d = ba_block_number s) D") auto
  qed
  with Cons show ?case
    by (auto simp: queued_pairs_def sorted_wrt_append paired_with_def)
qed (simp add: queued_pairs_def)

text \<open>The replay from the queues is the replay of their pairs.\<close>

lemma replay_queued_pairs:
  "bq_inv sq \<Longrightarrow> bq_inv dq \<Longrightarrow>
    case replay_cache st (queued_pairs (bq_blocks sq) (bq_blocks dq)) of
      None \<Rightarrow> replay_queues sq dq st = None
    | Some (Inl e) \<Rightarrow> \<exists>sq' dq'. replay_queues sq dq st = Some (None, sq', dq')
    | Some (Inr st') \<Rightarrow> \<exists>sq' dq'. replay_queues sq dq st = Some (Some st', sq', dq')"
proof (induction sq dq st rule: replay_queues.induct)
  case (1 sq dq st)
  obtain p sq1 dq1 where sy: "sync_queues sq dq = (p, sq1, dq1)" by (metis prod_cases3)
  note pr = sync_queues_pairs [OF "1.prems" sy]
  have srt: "sorted_wrt (<) (map ba_block_number (bq_blocks sq))" "sorted_wrt (<) (map ba_block_number (bq_blocks dq))"
    using "1.prems" by (simp_all add: bq.increasing)
  show ?case
  proof (cases p)
    case None
    with pr have "queued_pairs (bq_blocks sq) (bq_blocks dq) = []"
      by (intro queued_pairs_none) (simp add: pairing_ok_def)
    with None sy show ?thesis by (simp add: replay_queues.simps [of sq dq st])
  next
    case (Some sd)
    obtain s d where sd: "sd = (s, d)" by fastforce
    have qp: "queued_pairs (bq_blocks sq) (bq_blocks dq) = (s, d) # queued_pairs (bq_blocks sq1) (bq_blocks dq1)"
      using pr Some sd by (intro queued_pairs_next srt) simp
    show ?thesis
    proof (cases "apply_updates st s d")
      case None
      with sy Some sd qp show ?thesis by (simp add: replay_queues.simps [of sq dq st])
    next
      case (Some rs)
      obtain r st1 where rs: "rs = (r, st1)" by fastforce
      show ?thesis
      proof (cases r)
        case (Inl e)
        with sy \<open>p = Some sd\<close> sd qp Some rs show ?thesis by (simp add: replay_queues.simps [of sq dq st])
      next
        case (Inr u)
        note ih = "1.IH" [OF sy [symmetric] \<open>p = Some sd\<close> sd [symmetric] refl Some rs [symmetric] Inr]
        from Inr sy \<open>p = Some sd\<close> sd Some rs have loop: "replay_queues sq dq st = replay_queues sq1 dq1 st1"
          by (simp add: replay_queues.simps [of sq dq st])
        have fold: "replay_cache st ((s, d) # ps) = replay_cache st1 ps" for ps using Some rs Inr by simp
        from ih pr show ?thesis unfolding qp loop fold by blast
      qed
    qed
  qed
qed

text \<open>Pairs at or below the state's height are passed over; the others must continue it one by one.\<close>

lemma replay_cache_newer:
  "sorted_wrt (\<lambda>p q. ba_block_number (fst p) < ba_block_number (fst q)) ps \<Longrightarrow>
    \<forall>(s, d) \<in> set ps. ba_block_number d = ba_block_number s \<and> block_time s \<noteq> None \<Longrightarrow> st_height st < st_height st + 1 \<Longrightarrow>
    replay_cache st ps = replay_cache st (filter (\<lambda>(s, d). st_height st < ba_block_number s) ps)"
proof (induction ps)
  case (Cons p ps)
  obtain s d where p: "p = (s, d)" by fastforce
  show ?case
  proof (cases "st_height st < ba_block_number s")
    case True
    then have "filter (\<lambda>(s, d). st_height st < ba_block_number s) ps = ps"
      using Cons.prems(1) by (intro filter_True) (auto simp: p intro: less_trans)
    with True show ?thesis by (simp add: p)
  next
    case False
    then have up: "\<not> st_height st + 1 < ba_block_number s" using Cons.prems(3) by order
    have "apply_updates st s d = Some (Inr (), st)"
      using False up Cons.prems(2) by (auto simp: p apply_updates_def Let_def)
    with Cons False show ?thesis by (simp add: p)
  qed
qed simp


lemma apply_updates_height:
  assumes "apply_updates st s d = Some (Inr (), st')" and "st_height st < ba_block_number s"
  shows "st_height st' = st_height st + 1"
  using assms by (auto simp: apply_updates_def Let_def split: option.splits if_splits bind_splits sum.splits dest!: apply_diffs_frame)

lemma replay_cache_height:
  "sorted_wrt (\<lambda>p q. ba_block_number (fst p) < ba_block_number (fst q)) ps \<Longrightarrow>
    \<forall>(s, d) \<in> set ps. st_height st < ba_block_number s \<Longrightarrow> replay_cache st ps = Some (Inr st') \<Longrightarrow>
    st_height st' = st_height st + of_nat (length ps)"
proof (induction ps arbitrary: st)
  case (Cons p ps)
  obtain s d where p: "p = (s, d)" by fastforce
  obtain st1 where a: "apply_updates st s d = Some (Inr (), st1)" and rest: "replay_cache st1 ps = Some (Inr st')"
    using Cons.prems(3) by (auto simp: p split: option.splits prod.splits sum.splits)
  have gt: "st_height st < ba_block_number s" using Cons.prems(2) by (simp add: p)
  note h = apply_updates_height [OF a gt]
  have "\<forall>(s', d') \<in> set ps. st_height st1 < ba_block_number s'"
    using Cons.prems(1) inc_le [OF gt] by (auto simp: p h intro: le_less_trans)
  then have "st_height st' = st_height st1 + of_nat (length ps)" using Cons.prems(1) by (intro Cons.IH rest) simp_all
  then show ?case by (simp add: h)
qed simp

lemma finish_first_snapshot:
  assumes "ln_recovery_epoch l = epoch"
  shows "finish_snapshot lg render ms epoch None snapshot height l =
    (case replay_queues (ln_order_status_cache l) (ln_order_diff_cache l) (st_from_snapshot snapshot height 0 True (ln_ignore_spot l)) of
       None \<Rightarrow> None
     | Some (st, sq, dq) \<Rightarrow>
         Some (Inr (), l\<lparr>ln_snapshot_cache_started := None, ln_snapshot_cache_bytes := 0, ln_fetched_snapshot_cache := None,
           ln_order_status_cache := sq, ln_order_diff_cache := dq,
           ln_order_book_state := (case st of None \<Rightarrow> ln_order_book_state l | Some st \<Rightarrow> Some st),
           ln_stats := (ln_stats l)\<lparr>rs_snapshot_reconcile_ms := ms\<rparr>\<rparr>))"
  using assms
  by (auto simp: finish_snapshot_def take_cache_def reconcile_snapshot_def init_from_snapshot_def Let_def
      split: option.splits bind_splits)

text \<open>
  C30. A fenced listener recovers. When a snapshot requested while no state was live is finished in its epoch, the
  outcome is that of replaying, on the books of the snapshot, the block pairs that wait in the two queues above the
  snapshot's height: the heights both queues hold, in order. If each of them applies, the listener is ready with
  exactly that state, one height further per pair; if one is refused (a gap above the snapshot), the state is left as
  it was and the next snapshot is awaited, without an error; pairs at or below the height are passed over. The
  validation cache is closed in either case. A panic of the replay is a panic of the call. Assumed: the queued statuses
  have block times in range.
\<close>

theorem snapshot_restores_service:
  assumes "ln_recovery_epoch l = epoch" and "bq_inv (ln_order_status_cache l)" and "bq_inv (ln_order_diff_cache l)"
    and "\<forall>b \<in> set (bq_blocks (ln_order_status_cache l)). block_time b \<noteq> None" and "height < height + 1"
  shows "let start = st_from_snapshot snapshot height 0 True (ln_ignore_spot l);
      newer = filter (\<lambda>(s, d). height < ba_block_number s)
        (queued_pairs (bq_blocks (ln_order_status_cache l)) (bq_blocks (ln_order_diff_cache l)));
      result = finish_snapshot lg render ms epoch None snapshot height l
    in case replay_cache start newer of
         None \<Rightarrow> result = None
       | Some (Inl e) \<Rightarrow> \<exists>l'. result = Some (Inr (), l') \<and> ln_order_book_state l' = ln_order_book_state l \<and>
           ln_fetched_snapshot_cache l' = None
       | Some (Inr st) \<Rightarrow> \<exists>l'. result = Some (Inr (), l') \<and> is_ready l' \<and> ln_order_book_state l' = Some st \<and>
           st_height st = height + of_nat (length newer) \<and> ln_fetched_snapshot_cache l' = None"
proof -
  let ?S = "bq_blocks (ln_order_status_cache l)" and ?D = "bq_blocks (ln_order_diff_cache l)"
  let ?start = "st_from_snapshot snapshot height 0 True (ln_ignore_spot l)"
  let ?newer = "filter (\<lambda>(s, d). height < ba_block_number s) (queued_pairs ?S ?D)"
  have h: "st_height ?start = height" by (simp add: st_from_snapshot_def Let_def)
  have inc: "sorted_wrt (\<lambda>p q. ba_block_number (fst p) < ba_block_number (fst q)) (queued_pairs ?S ?D)"
    using assms(2,3) by (intro queued_pairs_increasing bq.increasing)
  have "replay_cache ?start (queued_pairs ?S ?D) = replay_cache ?start ?newer"
    using replay_cache_newer [OF inc, of ?start] assms(4,5) by (auto simp: h dest!: queued_pairs_in)
  note replay = replay_queued_pairs [OF assms(2,3), of ?start, unfolded this]
  have height: "st_height st = height + of_nat (length ?newer)" if "replay_cache ?start ?newer = Some (Inr st)" for st
    using replay_cache_height [OF sorted_wrt_filter [OF inc] _ that] by (simp add: h)
  show ?thesis unfolding Let_def finish_first_snapshot [OF assms(1)]
    using replay height by (auto simp: is_ready_def split: option.splits sum.splits)
qed


text \<open>Three blocks wait while a snapshot at height 7 arrives; block 8 cancels an order of the snapshot.\<close>

definition waiting_listener :: listener where
  "waiting_listener = (sy_listener demo0)\<lparr>
     ln_order_status_cache := \<lparr>bq_deque = [(empty_block 7, 0), (sample_statuses, 0), (empty_block 9, 0)], bq_last_ts = Some 9, bq_bytes = 16\<rparr>,
     ln_order_diff_cache := \<lparr>bq_deque = [(empty_block 7, 0), (sample_diffs, 0), (empty_block 9, 0)], bq_last_ts = Some 9, bq_bytes = 16\<rparr>\<rparr>"

theorem snapshot_restores_service_witness:
  "\<exists>l' st. finish_snapshot int_log10 (\<lambda>_. []) 0 0 None [(Coin ''BTC'', to_snapshot sample_book)] 7 waiting_listener = Some (Inr (), l') \<and>
     is_ready l' \<and> ln_order_book_state l' = Some st \<and> st_height st = 9 \<and>
     snap_bids (to_snapshot (book_of (st_order_book st) (Coin ''BTC''))) = []"
proof -
  let ?snap = "[(Coin ''BTC'', to_snapshot sample_book)]"
  have f: "ln_recovery_epoch waiting_listener = 0" "bq_inv (ln_order_status_cache waiting_listener)" "bq_inv (ln_order_diff_cache waiting_listener)"
    "\<forall>b \<in> set (bq_blocks (ln_order_status_cache waiting_listener)). block_time b \<noteq> None" "(7::u64) < 7 + 1"
    by (simp_all add: waiting_listener_def demo_defs bq_inv_def bq_blocks_def empty_block_def sample_statuses_def sample_diffs_def block_time_def)
  have newer: "filter (\<lambda>(s, d). 7 < ba_block_number s)
      (queued_pairs (bq_blocks (ln_order_status_cache waiting_listener)) (bq_blocks (ln_order_diff_cache waiting_listener))) =
      [(sample_statuses, sample_diffs), (empty_block 9, empty_block 9)]"
    by (simp add: waiting_listener_def bq_blocks_def queued_pairs_def paired_with_def empty_block_def sample_statuses_def sample_diffs_def)
  have ig: "ln_ignore_spot waiting_listener = False" by (simp add: waiting_listener_def demo_defs)
  have "remove_triggers (to_snapshot sample_book) = to_snapshot sample_book"
    by code_simp
  moreover have "from_snapshot (to_snapshot sample_book) False = sample_book"
    by (intro from_to_snapshot)
      (simp_all add: sample_inv uncrossed_def mk_order_def less_px_def snap_orders_def live_def sz_is_positive_def)
  ultimately have books: "from_snapshots ?snap True = \<lparr>order_books = [(Coin ''BTC'', sample_book)]\<rparr>"
    by (simp add: from_snapshots_def from_snapshot_def)
  obtain b where b: "cancel_order sample_book (Oid 1) = (True, b)" "snap_bids (to_snapshot b) = []"
  proof
    have "fst (cancel_order sample_book (Oid 1))" by code_simp
    then show "cancel_order sample_book (Oid 1) = (True, snd (cancel_order sample_book (Oid 1)))" by (simp add: prod_eq_iff)
    show "snap_bids (to_snapshot (snd (cancel_order sample_book (Oid 1)))) = []" by code_simp
  qed
  have om: "opening_statuses [] = Map.empty" by (simp add: opening_statuses_def)
  obtain st where st: "replay_cache (st_from_snapshot ?snap 7 0 True False)
      [(sample_statuses, sample_diffs), (empty_block 9, empty_block 9)] = Some (Inr st)"
    "st_order_book st = \<lparr>order_books = [(Coin ''BTC'', b)]\<rparr>"
    by (simp add: st_from_snapshot_def books apply_updates_def sample_statuses_def sample_diffs_def empty_block_def block_time_def
        om apply_diff_def inner_of_diff_def diff_coin_def diff_oid_def obs_cancel_order_def b(1) Let_def is_spot_def)
  show ?thesis
    using snapshot_restores_service [OF f, of ?snap int_log10 "\<lambda>_. []" 0, unfolded Let_def newer ig st(1)] st(2) b(2) by (auto simp: book_of_def bt_get_or_def)
qed

end
