(* ===== verification/Ingestion.thy ===== *)
theory Ingestion
  imports Listener
begin

text \<open>
  Reading the node's files (\<open>listeners/order_book/ingestion.rs\<close>): the bounded queue of paths with pending notifications
  (\<open>DirtyFiles\<close>), the cursor that turns bounded reads into whole newline-terminated records (\<open>FileCursor\<close>) and the choice of the
  cursor to drop when a new hourly file needs room (\<open>evict_retired_cursor\<close>). What the operating system answers to a call is an
  argument (\<open>file_env\<close>), and so is the clock.
\<close>

section \<open>Paths\<close>

text \<open>
  A canonical path is the list of its components, each a byte string; \<open>starts_with\<close> compares whole components.
\<close>

type_synonym path = "string list"

definition path_starts_with :: "path \<Rightarrow> path \<Rightarrow> bool" where
  "path_starts_with p src_root \<longleftrightarrow> take (length src_root) p = src_root"

definition path_file_name :: "path \<Rightarrow> string option" where
  "path_file_name p = (if p = [] then None else Some (last p))"

definition path_parent :: "path \<Rightarrow> path option" where
  "path_parent p = (if p = [] then None else Some (butlast p))"

text \<open>UTF-8 as \<open>String::from_utf8\<close> and \<open>OsStr::to_str\<close> accept it.\<close>

definition byte_in :: "nat \<Rightarrow> nat \<Rightarrow> char \<Rightarrow> bool" where
  "byte_in lo hi c \<longleftrightarrow> lo \<le> of_char c \<and> of_char c \<le> hi"

abbreviation cont :: "char \<Rightarrow> bool" where
  "cont \<equiv> byte_in 0x80 0xBF"

definition utf8_len :: "string \<Rightarrow> nat option" where
  "utf8_len s =
     (case s of
        [] \<Rightarrow> None
      | a # r \<Rightarrow>
          if byte_in 0 0x7F a then Some 1
          else (case r of
                  [] \<Rightarrow> None
                | b # r \<Rightarrow>
                    if byte_in 0xC2 0xDF a \<and> cont b then Some 2
                    else (case r of
                            [] \<Rightarrow> None
                          | c # r \<Rightarrow>
                              if cont c \<and> (byte_in 0xE0 0xE0 a \<and> byte_in 0xA0 0xBF b \<or> byte_in 0xE1 0xEC a \<and> cont b \<or>
                                 byte_in 0xED 0xED a \<and> byte_in 0x80 0x9F b \<or> byte_in 0xEE 0xEF a \<and> cont b) then Some 3
                              else (case r of
                                      [] \<Rightarrow> None
                                    | d # _ \<Rightarrow>
                                        if cont c \<and> cont d \<and> (byte_in 0xF0 0xF0 a \<and> byte_in 0x90 0xBF b \<or>
                                           byte_in 0xF1 0xF3 a \<and> cont b \<or> byte_in 0xF4 0xF4 a \<and> byte_in 0x80 0x8F b) then Some 4
                                        else None))))"

lemma utf8_len_pos: "utf8_len s = Some n \<Longrightarrow> s \<noteq> [] \<and> 0 < n"
  by (auto simp: utf8_len_def split: list.splits if_splits)

function valid_utf8 :: "string \<Rightarrow> bool" where
  "valid_utf8 s = (if s = [] then True else (case utf8_len s of None \<Rightarrow> False | Some n \<Rightarrow> valid_utf8 (drop n s)))"
  by pat_completeness auto
termination
  by (relation "measure length") (auto dest: utf8_len_pos)

declare valid_utf8.simps [simp del]

lemma valid_utf8_Nil [simp]: "valid_utf8 []"
  by (simp add: valid_utf8.simps)

lemma valid_utf8_ascii [simp]: "byte_in 0 0x7F a \<Longrightarrow> valid_utf8 (a # r) = valid_utf8 r"
  by (subst valid_utf8.simps) (simp add: utf8_len_def)

definition to_str :: "string \<Rightarrow> string option" where
  "to_str s = (if valid_utf8 s then Some s else None)"

section \<open>Dirty files\<close>

record dirty_files =
  df_paths :: "path list"
  df_created :: "path \<rightharpoonup> bool"
  df_limit :: usize
  df_overflow :: bool

definition df_new :: "usize \<Rightarrow> dirty_files" where
  "df_new limit = \<lparr>df_paths = [], df_created = Map.empty, df_limit = limit, df_overflow = False\<rparr>"

definition df_push :: "path \<Rightarrow> bool \<Rightarrow> dirty_files \<Rightarrow> dirty_files" where
  "df_push p created q =
     (case df_created q p of
        Some existing \<Rightarrow> q\<lparr>df_created := (df_created q)(p \<mapsto> existing \<or> created)\<rparr>
      | None \<Rightarrow>
          if length (df_paths q) \<ge> df_limit q then q\<lparr>df_overflow := True\<rparr>
          else q\<lparr>df_created := (df_created q)(p \<mapsto> created), df_paths := df_paths q @ [p]\<rparr>)"

definition df_pop :: "dirty_files \<Rightarrow> (path \<times> bool) option \<times> dirty_files" where
  "df_pop q =
     (case df_paths q of
        [] \<Rightarrow> (None, q)
      | p # rest \<Rightarrow>
          let created = (case df_created q p of Some c \<Rightarrow> c | None \<Rightarrow> False)
          in (Some (p, created), q\<lparr>df_paths := rest, df_created := (df_created q)(p := None)\<rparr>))"

definition df_mark_overflow :: "dirty_files \<Rightarrow> dirty_files" where
  "df_mark_overflow q = q\<lparr>df_overflow := True\<rparr>"

definition df_take_overflow :: "dirty_files \<Rightarrow> bool \<times> dirty_files" where
  "df_take_overflow q = (df_overflow q, q\<lparr>df_overflow := False\<rparr>)"

section \<open>Cursors\<close>

text \<open>
  What the operating system answers during one call: the metadata of the open file and of the path (device, inode, length), the
  length found by seeking to the end, and a read into a buffer of the given size.
\<close>

record metadata =
  md_dev :: u64
  md_ino :: u64
  md_len :: u64

record file_env =
  fe_open :: "unit result"
  fe_seek_end :: "u64 result"
  fe_file :: "metadata result"
  fe_path :: "metadata result"
  fe_read :: "usize \<Rightarrow> string result"

record file_cursor =
  fc_offset :: u64
  fc_partial :: string
  fc_max_record_bytes :: usize
  fc_partial_record_bytes :: usize
  fc_partial_since :: "instant option"
  fc_max_partial_age :: duration

definition fc_open :: "file_env \<Rightarrow> bool \<Rightarrow> usize \<Rightarrow> file_cursor result" where
  "fc_open env from_end max_record_bytes =
     and_then (fe_open env) (\<lambda>_.
     and_then (if from_end then fe_seek_end env else Inr 0) (\<lambda>offset.
       Inr \<lparr>fc_offset = offset, fc_partial = [], fc_max_record_bytes = max_record_bytes, fc_partial_record_bytes = 0,
            fc_partial_since = None, fc_max_partial_age = from_secs 120\<rparr>))"

definition backlog_bytes :: "file_env \<Rightarrow> file_cursor \<Rightarrow> u64" where
  "backlog_bytes env c =
     (case fe_file env of Inl _ \<Rightarrow> 0 | Inr md \<Rightarrow> u64_saturating_sub (md_len md) (fc_offset c)) + of_nat (length (fc_partial c))"

definition drained :: "file_env \<Rightarrow> file_cursor \<Rightarrow> bool" where
  "drained env c \<longleftrightarrow> fc_partial c = [] \<and> (case fe_file env of Inl _ \<Rightarrow> False | Inr md \<Rightarrow> md_len md = fc_offset c)"

definition with_max_age :: "file_cursor \<Rightarrow> duration \<Rightarrow> file_cursor" where
  "with_max_age c age = c\<lparr>fc_max_partial_age := age\<rparr>"

definition partial_expired :: "instant \<Rightarrow> file_cursor \<Rightarrow> bool" where
  "partial_expired now c = (case fc_partial_since c of None \<Rightarrow> False | Some since \<Rightarrow> elapsed now since > fc_max_partial_age c)"

definition verify_file :: "file_env \<Rightarrow> file_cursor \<Rightarrow> metadata result" where
  "verify_file env c =
     and_then (fe_file env) (\<lambda>md.
     and_then (fe_path env) (\<lambda>current.
       if (md_dev md, md_ino md) \<noteq> (md_dev current, md_ino current) then Inl FileReplaced
       else if md_len md < fc_offset c then Inl FileTruncated
       else Inr md))"

definition needs_attention :: "instant \<Rightarrow> file_env \<Rightarrow> file_cursor \<Rightarrow> bool" where
  "needs_attention now env c \<longleftrightarrow>
     partial_expired now c \<or> (case verify_file env c of Inl _ \<Rightarrow> True | Inr md \<Rightarrow> md_len md > fc_offset c)"

text \<open>
  The scan of the bytes just read: the running record length, the position after the last newline and whether the
  limit was exceeded (the loop then returns with the counter as it stands).
\<close>

fun scan_bytes :: "usize \<Rightarrow> nat \<Rightarrow> usize \<Rightarrow> nat option \<Rightarrow> string \<Rightarrow> (nat option) option \<times> usize" where
  "scan_bytes limit pos count complete_end [] = (Some complete_end, count)"
| "scan_bytes limit pos count complete_end (b # bs) =
     (let count = count + 1 in
      if count > limit then (None, count)
      else if b = LF then scan_bytes limit (pos + 1) 0 (Some (pos + 1)) bs
      else scan_bytes limit (pos + 1) count complete_end bs)"

definition read_turn ::
    "instant \<Rightarrow> file_env \<Rightarrow> usize \<Rightarrow> file_cursor \<Rightarrow> (string \<times> bool \<times> usize) result \<times> file_cursor" where
  "read_turn now env budget c =
     (case verify_file env c of
        Inl e \<Rightarrow> (Inl e, c)
      | Inr _ \<Rightarrow>
          if partial_expired now c then (Inl PartialTooOld, c)
          else (case fe_read env budget of
                  Inl e \<Rightarrow> (Inl e, c)
                | Inr bytes \<Rightarrow>
                    let c = c\<lparr>fc_offset := fc_offset c + of_nat (length bytes)\<rparr>;
                        (ends, count) = scan_bytes (fc_max_record_bytes c) (length (fc_partial c)) (fc_partial_record_bytes c) None bytes;
                        c = c\<lparr>fc_partial_record_bytes := count\<rparr>
                    in (case ends of
                          None \<Rightarrow> (Inl RecordTooLarge, c)
                        | Some complete_end \<Rightarrow>
                            let c = c\<lparr>fc_partial := fc_partial c @ bytes\<rparr>;
                                (data, c) = (case complete_end of
                                    Some e \<Rightarrow> (take e (fc_partial c), c\<lparr>fc_partial := drop e (fc_partial c)\<rparr>)
                                  | None \<Rightarrow> ([], c))
                            in if \<not> valid_utf8 data then (Inl InvalidUtf8, c)
                               else (Inr (data, length bytes > 0, length bytes),
                                     c\<lparr>fc_partial_since :=
                                         (if fc_partial c = [] then None
                                          else if complete_end \<noteq> None \<or> fc_partial_since c = None then Some now
                                          else fc_partial_since c)\<rparr>))))"

section \<open>Evicting a finished file\<close>

definition hourly_position :: "path \<Rightarrow> (u32 \<times> u32) option" where
  "hourly_position p = do {
     name \<leftarrow> path_file_name p;
     name \<leftarrow> to_str name;
     hour \<leftarrow> (case parse_unsigned 32 name of Inr h \<Rightarrow> Some h | Inl _ \<Rightarrow> None);
     date_path \<leftarrow> path_parent p;
     date \<leftarrow> path_file_name date_path;
     date \<leftarrow> to_str date;
     if hour > 23 \<or> length date \<noteq> 8 then None
     else do {
       parent \<leftarrow> path_parent date_path;
       dir \<leftarrow> path_file_name parent;
       if dir \<noteq> ''hourly'' then None
       else (case parse_unsigned 32 date of Inr d \<Rightarrow> Some (d, hour) | Inl _ \<Rightarrow> None)
     }
   }"

definition position_less :: "u32 \<times> u32 \<Rightarrow> u32 \<times> u32 \<Rightarrow> bool" where
  "position_less a b \<longleftrightarrow> fst a < fst b \<or> fst a = fst b \<and> snd a < snd b"

text \<open>\<open>min_by_key\<close>: the first of the least elements.\<close>

fun least_position :: "((u32 \<times> u32) \<times> path) list \<Rightarrow> ((u32 \<times> u32) \<times> path) option" where
  "least_position [] = None"
| "least_position (x # xs) =
     (case least_position xs of None \<Rightarrow> Some x | Some y \<Rightarrow> if position_less (fst y) (fst x) then Some y else Some x)"

definition evict_candidates ::
    "instant \<Rightarrow> (path \<Rightarrow> file_env) \<Rightarrow> (path \<times> file_cursor) list \<Rightarrow> path \<Rightarrow> u32 \<times> u32 \<Rightarrow> ((u32 \<times> u32) \<times> path) list" where
  "evict_candidates now env cursors src_root new_position =
     List.map_filter (\<lambda>(p, c).
       if path_starts_with p src_root \<and> drained (env p) c \<and> \<not> needs_attention now (env p) c
       then (case hourly_position p of
               Some position \<Rightarrow> if position_less position new_position then Some (position, p) else None
             | None \<Rightarrow> None)
       else None) cursors"

definition evict_retired_cursor ::
    "instant \<Rightarrow> (path \<Rightarrow> file_env) \<Rightarrow> (path \<times> file_cursor) list \<Rightarrow> path \<Rightarrow> path \<Rightarrow> bool \<times> (path \<times> file_cursor) list" where
  "evict_retired_cursor now env cursors src_root incoming =
     (case hourly_position incoming of
        None \<Rightarrow> (False, cursors)
      | Some new_position \<Rightarrow>
          (case least_position (evict_candidates now env cursors src_root new_position) of
             None \<Rightarrow> (False, cursors)
           | Some (_, p) \<Rightarrow> (True, AList.delete p cursors)))"

section \<open>Framing\<close>

lemma scan_bytes_split:
  "scan_bytes limit pos count ce bs = (Some ce', count') \<Longrightarrow> count \<le> limit \<Longrightarrow>
    \<exists>a b. bs = a @ b \<and> LF \<notin> set b \<and> count' \<le> limit \<and>
      (if a = [] then ce' = ce \<and> count' = count + length b
       else last a = LF \<and> ce' = Some (pos + length a) \<and> count' = length b)"
proof (induction limit pos count ce bs rule: scan_bytes.induct)
  case (1 limit pos count ce)
  then show ?case by auto
next
  case (2 limit pos count ce b bs)
  show ?case
  proof (cases "b = LF")
    case True
    with "2.prems" have r: "scan_bytes limit (pos + 1) 0 (Some (pos + 1)) bs = (Some ce', count')" and le: "\<not> count + 1 > limit"
      by (auto split: if_splits)
    from "2.IH"(1) [OF refl le True r] obtain a c where "bs = a @ c" "LF \<notin> set c" "count' \<le> limit"
      "if a = [] then ce' = Some (pos + 1) \<and> count' = length c else last a = LF \<and> ce' = Some (pos + 1 + length a) \<and> count' = length c"
      by auto
    with True show ?thesis by (intro exI [of _ "b # a"] exI [of _ c]) (auto split: if_splits)
  next
    case False
    with "2.prems" have r: "scan_bytes limit (pos + 1) (count + 1) ce bs = (Some ce', count')" and le: "\<not> count + 1 > limit"
      by (auto split: if_splits)
    from "2.IH"(2) [OF refl le False r] le obtain a c where ac: "bs = a @ c" "LF \<notin> set c" "count' \<le> limit"
      "if a = [] then ce' = ce \<and> count' = count + 1 + length c else last a = LF \<and> ce' = Some (pos + 1 + length a) \<and> count' = length c"
      by auto
    show ?thesis
    proof (cases "a = []")
      case True
      with ac False show ?thesis by (intro exI [of _ "[]"] exI [of _ "b # c"]) auto
    next
      case a: False
      with ac show ?thesis by (intro exI [of _ "b # a"] exI [of _ c]) auto
    qed
  qed
qed

definition framed :: "file_cursor \<Rightarrow> bool" where
  "framed c \<longleftrightarrow> LF \<notin> set (fc_partial c) \<and> fc_partial_record_bytes c = length (fc_partial c) \<and>
     length (fc_partial c) \<le> fc_max_record_bytes c"

definition whole_records :: "string \<Rightarrow> bool" where
  "whole_records d \<longleftrightarrow> d = [] \<or> last d = LF"

lemma read_turn_ok:
  assumes f: "framed c" and r: "read_turn now env budget c = (Inr (data, more', n), c')" and b: "fe_read env budget = Inr bytes"
  shows "data @ fc_partial c' = fc_partial c @ bytes \<and> whole_records data \<and> framed c' \<and> n = length bytes \<and>
    fc_offset c' = fc_offset c + of_nat (length bytes) \<and> fc_max_record_bytes c' = fc_max_record_bytes c"
proof -
  obtain ends count where sc: "scan_bytes (fc_max_record_bytes c) (length (fc_partial c)) (fc_partial_record_bytes c) None bytes = (ends, count)"
    by fastforce
  from r b sc obtain ce where ce: "ends = Some ce"
    by (cases ends) (auto simp: read_turn_def Let_def split: sum.splits if_splits)
  from scan_bytes_split [OF sc [unfolded ce]] f obtain u v where uv: "bytes = u @ v" "LF \<notin> set v" "count \<le> fc_max_record_bytes c"
    and e: "if u = [] then ce = None \<and> count = length (fc_partial c) + length v
      else last u = LF \<and> ce = Some (length (fc_partial c) + length u) \<and> count = length v"
    by (auto simp: framed_def)
  show ?thesis
  proof (cases "u = []")
    case True
    with r b sc ce e uv f show ?thesis
      by (auto simp: read_turn_def Let_def framed_def whole_records_def split: sum.splits if_splits)
  next
    case False
    with r b sc ce e uv f show ?thesis
      by (auto simp: read_turn_def Let_def framed_def whole_records_def split: sum.splits if_splits)
  qed
qed

text \<open>Successful turns in a row, each at its instant, with what the system answers and the budget: the data and the bytes read.\<close>

fun read_turns :: "(instant \<times> file_env \<times> usize) list \<Rightarrow> file_cursor \<Rightarrow> (string list \<times> string list \<times> file_cursor) option" where
  "read_turns [] c = Some ([], [], c)"
| "read_turns ((now, env, budget) # turns) c =
     (case (read_turn now env budget c, fe_read env budget) of
        ((Inr (data, _, _), c'), Inr bytes) \<Rightarrow>
          map_option (\<lambda>(ds, bs, c''). (data # ds, bytes # bs, c'')) (read_turns turns c')
      | _ \<Rightarrow> None)"

lemma read_turns_ok:
  "framed c \<Longrightarrow> read_turns turns c = Some (ds, bs, c') \<Longrightarrow>
    concat ds @ fc_partial c' = fc_partial c @ concat bs \<and> (\<forall>d \<in> set ds. whole_records d) \<and> framed c' \<and>
    fc_offset c' = fc_offset c + of_nat (length (concat bs)) \<and> fc_max_record_bytes c' = fc_max_record_bytes c"
proof (induction turns arbitrary: c ds bs)
  case (Cons t turns)
  obtain now env budget where t: "t = (now, env, budget)" by (cases t)
  from Cons.prems(2) obtain data m n c1 bytes ds1 bs1 where
    r: "read_turn now env budget c = (Inr (data, m, n), c1)" "fe_read env budget = Inr bytes"
    and rest: "read_turns turns c1 = Some (ds1, bs1, c')" "ds = data # ds1" "bs = bytes # bs1"
    by (auto simp: t split: prod.splits sum.splits)
  note one = read_turn_ok [OF Cons.prems(1) r]
  then have "framed c1" by blast
  from Cons.IH [OF this rest(1)] one rest(2,3) show ?case
    by (auto simp: algebra_simps)
qed auto

lemma split_inclusive_concat: "concat (split_inclusive s) = s"
  by (induction s) (auto split: list.splits)

lemma split_inclusive_pieces: "w \<in> set (split_inclusive s) \<Longrightarrow> w \<noteq> []"
  by (induction s arbitrary: w) (auto split: list.splits if_splits)

lemma split_inclusive_whole: "whole_records s \<Longrightarrow> w \<in> set (split_inclusive s) \<Longrightarrow> last w = LF"
proof (induction s arbitrary: w)
  case (Cons c s)
  show ?case
  proof (cases "s = []")
    case True
    with Cons show ?thesis by (auto simp: whole_records_def split: if_splits)
  next
    case False
    then have w: "whole_records s" using Cons.prems(1) by (simp add: whole_records_def)
    have ne: "split_inclusive s \<noteq> []" using False by (metis concat.simps(1) split_inclusive_concat)
    then obtain x xs where "split_inclusive s = x # xs" by (cases "split_inclusive s") auto
    with Cons.IH [OF w] Cons.prems(2) split_inclusive_pieces [of x s] show ?thesis by (auto split: if_splits)
  qed
qed simp

section \<open>Properties\<close>

text \<open>
  C32. A cursor hands on every byte once, in order and in whole records: over any successful turns from a fresh cursor, whatever
  the sizes of the reads, the data delivered followed by the partial record kept is what was read; each delivery splits into
  newline-terminated records, so the listener never sees an incomplete one; the partial record has no newline and is within
  the record limit; and the offset has moved by the bytes read.
\<close>

theorem cursor_delivers_whole_records:
  assumes "fc_open env from_end max_record_bytes = Inr c" and "read_turns turns (with_max_age c age) = Some (ds, bs, c')"
  shows "concat ds @ fc_partial c' = concat bs \<and>
    (\<forall>d \<in> set ds. concat (split_inclusive d) = d \<and> (\<forall>w \<in> set (split_inclusive d). last w = LF)) \<and>
    LF \<notin> set (fc_partial c') \<and> length (fc_partial c') \<le> max_record_bytes \<and>
    fc_offset c' = fc_offset c + of_nat (length (concat bs))"
proof -
  have c: "framed (with_max_age c age)" "fc_partial c = []" "fc_max_record_bytes c = max_record_bytes"
    using assms(1) by (auto simp: fc_open_def framed_def with_max_age_def)
  from read_turns_ok [OF c(1) assms(2)] c(2,3) show ?thesis
    by (auto simp: with_max_age_def framed_def split_inclusive_concat split_inclusive_whole)
qed

definition sample_env :: "string \<Rightarrow> file_env" where
  "sample_env bytes = \<lparr>fe_open = Inr (), fe_seek_end = Inr 0, fe_file = Inr \<lparr>md_dev = 1, md_ino = 2, md_len = 9\<rparr>,
     fe_path = Inr \<lparr>md_dev = 1, md_ino = 2, md_len = 9\<rparr>, fe_read = (\<lambda>_. Inr bytes)\<rparr>"

definition sample_cursor :: "u64 \<Rightarrow> string \<Rightarrow> instant option \<Rightarrow> duration \<Rightarrow> file_cursor" where
  "sample_cursor off part since age = \<lparr>fc_offset = off, fc_partial = part, fc_max_record_bytes = 8,
     fc_partial_record_bytes = length part, fc_partial_since = since, fc_max_partial_age = age\<rparr>"

lemma sample_turns:
  "read_turns [(0, sample_env ''ab'', 4), (1, sample_env (''c'' @ [LF] @ ''de''), 4)] (sample_cursor 0 [] None 5) =
    Some ([[], ''abc'' @ [LF]], [''ab'', ''c'' @ [LF] @ ''de''], sample_cursor 6 ''de'' (Some 1) 5)"
proof -
  have "read_turn 0 (sample_env ''ab'') 4 (sample_cursor 0 [] None 5) =
      (Inr ([], True, 2), sample_cursor 2 ''ab'' (Some 0) 5)"
    by (simp add: sample_cursor_def sample_env_def read_turn_def verify_file_def partial_expired_def)
  moreover have "read_turn 1 (sample_env (''c'' @ [LF] @ ''de'')) 4 (sample_cursor 2 ''ab'' (Some 0) 5) =
      (Inr (''abc'' @ [LF], True, 4), sample_cursor 6 ''de'' (Some 1) 5)"
    by (simp add: sample_cursor_def sample_env_def read_turn_def verify_file_def partial_expired_def elapsed_def byte_in_def)
  ultimately show ?thesis by (simp add: sample_env_def)
qed

theorem cursor_delivers_whole_records_witness:
  "\<exists>c. fc_open (sample_env []) False 8 = Inr c \<and>
     (case read_turns [(0, sample_env ''ab'', 4), (1, sample_env (''c'' @ [LF] @ ''de''), 4)] (with_max_age c 5) of
        None \<Rightarrow> False
      | Some (ds, bs, c') \<Rightarrow> ds = [[], ''abc'' @ [LF]] \<and> fc_partial c' = ''de'' \<and> concat ds @ fc_partial c' = concat bs)"
proof -
  have c: "fc_open (sample_env []) False 8 = Inr (sample_cursor 0 [] None (from_secs 120))"
    by (simp add: fc_open_def sample_env_def sample_cursor_def)
  have t: "read_turns [(0, sample_env ''ab'', 4), (1, sample_env (''c'' @ [LF] @ ''de''), 4)]
      (with_max_age (sample_cursor 0 [] None (from_secs 120)) 5) =
      Some ([[], ''abc'' @ [LF]], [''ab'', ''c'' @ [LF] @ ''de''], sample_cursor 6 ''de'' (Some 1) 5)"
    using sample_turns by (simp add: with_max_age_def sample_cursor_def)
  from cursor_delivers_whole_records [OF c t] have
    "concat [[], ''abc'' @ [LF]] @ fc_partial (sample_cursor 6 ''de'' (Some 1) 5) = concat [''ab'', ''c'' @ [LF] @ ''de'']" by blast
  with c t show ?thesis by (simp add: sample_cursor_def)
qed

subsection \<open>Notifications\<close>

text \<open>
  The reference: an unbounded queue of distinct paths, each with the disjunction of its flags; a run keeps what the pops returned, the
  queue and the longest it has been.
\<close>

datatype dirty_op = Push path bool | Pop

fun pend :: "path \<Rightarrow> bool \<Rightarrow> (path \<times> bool) list \<Rightarrow> (path \<times> bool) list" where
  "pend p b [] = [(p, b)]"
| "pend p b ((p', b') # xs) = (if p' = p then (p', b' \<or> b) # xs else (p', b') # pend p b xs)"

definition ref_step ::
    "dirty_op \<Rightarrow> (path \<times> bool) option list \<times> (path \<times> bool) list \<times> nat \<Rightarrow> (path \<times> bool) option list \<times> (path \<times> bool) list \<times> nat" where
  "ref_step op s =
     (case s of (outs, xs, peak) \<Rightarrow>
       (case op of
          Push p b \<Rightarrow> (outs, pend p b xs, max peak (length (pend p b xs)))
        | Pop \<Rightarrow> (case xs of [] \<Rightarrow> (outs @ [None], [], peak) | x # xs \<Rightarrow> (outs @ [Some x], xs, peak))))"

definition df_step :: "dirty_op \<Rightarrow> (path \<times> bool) option list \<times> dirty_files \<Rightarrow> (path \<times> bool) option list \<times> dirty_files" where
  "df_step op s =
     (case s of (outs, q) \<Rightarrow>
       (case op of
          Push p b \<Rightarrow> (outs, df_push p b q)
        | Pop \<Rightarrow> (let (r, q') = df_pop q in (outs @ [r], q'))))"

definition df_ok :: "dirty_files \<Rightarrow> bool" where
  "df_ok q \<longleftrightarrow> distinct (df_paths q) \<and> dom (df_created q) = set (df_paths q) \<and> length (df_paths q) \<le> df_limit q"

definition df_pending :: "dirty_files \<Rightarrow> (path \<times> bool) list" where
  "df_pending q = map (\<lambda>p. (p, the (df_created q p))) (df_paths q)"

lemma pend_new: "p \<notin> fst ` set xs \<Longrightarrow> pend p b xs = xs @ [(p, b)]"
  by (induction xs) auto

lemma pend_old:
  "distinct ps \<Longrightarrow> p \<in> set ps \<Longrightarrow>
    pend p b (map (\<lambda>p. (p, f p)) ps) = map (\<lambda>q. (q, (f(p := f p \<or> b)) q)) ps"
  by (induction ps) (auto simp: pend_new)

lemma df_push_ok: "df_ok q \<Longrightarrow> df_ok (df_push p b q) \<and> df_limit (df_push p b q) = df_limit q"
  by (auto simp: df_ok_def df_push_def split: option.splits)

lemma df_pop_ok: "df_ok q \<Longrightarrow> df_ok (snd (df_pop q)) \<and> df_limit (snd (df_pop q)) = df_limit q"
  by (auto simp: df_ok_def df_pop_def Let_def split: list.splits)

lemma df_push_pending:
  assumes "df_ok q" "\<not> df_overflow q"
  shows "df_overflow (df_push p b q) \<longleftrightarrow> length (pend p b (df_pending q)) > df_limit q"
    and "\<not> df_overflow (df_push p b q) \<Longrightarrow> df_pending (df_push p b q) = pend p b (df_pending q)"
proof -
  have "p \<notin> set (df_paths q) \<Longrightarrow> pend p b (df_pending q) = df_pending q @ [(p, b)]"
    by (rule pend_new) (auto simp: df_pending_def)
  moreover have "df_created q p = Some c \<Longrightarrow> pend p b (df_pending q) = df_pending (df_push p b q)" for c
    using assms pend_old [of "df_paths q" p b "\<lambda>p. the (df_created q p)"] domI [of "df_created q" p c]
    by (auto simp: df_ok_def df_pending_def df_push_def fun_upd_def intro: map_cong)
  moreover have "df_created q p = None \<longleftrightarrow> p \<notin> set (df_paths q)" using assms(1) by (auto simp: df_ok_def)
  ultimately show "df_overflow (df_push p b q) \<longleftrightarrow> length (pend p b (df_pending q)) > df_limit q"
    and "\<not> df_overflow (df_push p b q) \<Longrightarrow> df_pending (df_push p b q) = pend p b (df_pending q)"
    using assms by (auto simp: df_push_def df_pending_def df_ok_def split: option.splits if_splits)
qed

lemma df_push_overflow_sticky: "df_overflow q \<Longrightarrow> df_overflow (df_push p b q)"
  by (auto simp: df_push_def split: option.splits)

lemma df_pop_overflow: "df_overflow (snd (df_pop q)) = df_overflow q"
  by (auto simp: df_pop_def Let_def split: list.splits)

lemma df_pop_pending:
  "df_ok q \<Longrightarrow> fst (df_pop q) = (case df_pending q of [] \<Rightarrow> None | x # _ \<Rightarrow> Some x) \<and>
    df_pending (snd (df_pop q)) = tl (df_pending q)"
proof (cases "df_paths q")
  case (Cons p ps)
  moreover assume q: "df_ok q"
  ultimately obtain c where "df_created q p = Some c" by (auto simp: df_ok_def dom_def set_eq_iff)
  with Cons q show ?thesis by (auto simp: df_ok_def df_pop_def df_pending_def Let_def)
qed (simp add: df_pop_def df_pending_def)

lemma df_run:
  "fold ref_step ops ([], [], 0) = (outs', xs, peak) \<Longrightarrow> fold df_step ops ([], df_new limit) = (outs, q) \<Longrightarrow>
    df_ok q \<and> df_limit q = limit \<and> (df_overflow q \<longleftrightarrow> peak > limit) \<and>
    (\<not> df_overflow q \<longrightarrow> outs = outs' \<and> df_pending q = xs)"
proof (induction ops arbitrary: outs' xs peak outs q rule: rev_induct)
  case Nil
  then show ?case by (auto simp: df_new_def df_ok_def df_pending_def)
next
  case (snoc op ops)
  obtain o1 x1 k1 o2 q1 where a: "fold ref_step ops ([], [], 0) = (o1, x1, k1)" "fold df_step ops ([], df_new limit) = (o2, q1)"
    by (metis prod_cases3 surj_pair)
  note ih = snoc.IH [OF a]
  from snoc.prems a have st: "ref_step op (o1, x1, k1) = (outs', xs, peak)" "df_step op (o2, q1) = (outs, q)" by simp_all
  show ?case
  proof (cases op)
    case (Push p b)
    with st have e: "outs' = o1" "xs = pend p b x1" "peak = max k1 (length (pend p b x1))" "outs = o2" "q = df_push p b q1"
      by (auto simp: ref_step_def df_step_def)
    show ?thesis
    proof (cases "df_overflow q1")
      case True
      with ih e df_push_ok [of q1 p b] df_push_overflow_sticky show ?thesis by auto
    next
      case False
      with ih e df_push_ok [of q1 p b] df_push_pending [of q1 p b] show ?thesis by auto
    qed
  next
    case Pop
    with st have e: "outs = o2 @ [fst (df_pop q1)]" "q = snd (df_pop q1)" "peak = k1" "xs = tl x1"
      "outs' = o1 @ [case x1 of [] \<Rightarrow> None | x # _ \<Rightarrow> Some x]"
      by (auto simp: ref_step_def df_step_def split: prod.splits list.splits)
    with ih df_pop_ok [of q1] df_pop_pending [of q1] df_pop_overflow [of q1] show ?thesis by auto
  qed
qed

text \<open>
  C33. The notification queue is the unbounded queue of distinct paths until it says it is not: over any pushes and pops, the
  paths it holds are distinct and within the limit, the overflow flag is raised exactly when the unbounded queue would at some
  moment have been longer than the limit, and while it is down the pops and the paths pending, in order and with the
  \<open>created\<close> hint of every coalesced notification, are the unbounded queue's: no notification is lost silently.
\<close>

theorem notifications_never_lost_silently:
  assumes "fold ref_step ops ([], [], 0) = (outs', xs, peak)" and "fold df_step ops ([], df_new limit) = (outs, q)"
  shows "distinct (df_paths q) \<and> length (df_paths q) \<le> limit \<and> dom (df_created q) = set (df_paths q) \<and>
    (df_overflow q \<longleftrightarrow> peak > limit) \<and> (\<not> df_overflow q \<longrightarrow> outs = outs' \<and> df_pending q = xs)"
  using df_run [OF assms] by (simp add: df_ok_def)

theorem notifications_never_lost_silently_witness:
  "case fold df_step [Push [''a''] False, Push [''b''] False, Push [''a''] True, Pop] ([], df_new 2) of
     (outs, q) \<Rightarrow> outs = [Some ([''a''], True)] \<and> df_pending q = [([''b''], False)] \<and> \<not> df_overflow q"
proof -
  let ?ops = "[Push [''a''] False, Push [''b''] False, Push [''a''] True, Pop]"
  obtain outs q where q: "fold df_step ?ops ([], df_new 2) = (outs, q)" by fastforce
  have r: "fold ref_step ?ops ([], [], 0) = ([Some ([''a''], True)], [([''b''], False)], 2)" by (simp add: ref_step_def)
  from notifications_never_lost_silently [OF r q] q show ?thesis by simp
qed

subsection \<open>Eviction\<close>

lemma position_less_irrefl [simp]: "\<not> position_less a a"
  by (simp add: position_less_def)

lemma position_less_trans: "position_less a b \<Longrightarrow> position_less b c \<Longrightarrow> position_less a c"
  by (auto simp: position_less_def)

lemma position_less_neg: "\<not> position_less a b \<Longrightarrow> \<not> position_less b c \<Longrightarrow> \<not> position_less a c"
  by (auto simp: position_less_def)

lemma least_position_None [simp]: "least_position xs = None \<longleftrightarrow> xs = []"
  by (cases xs) (auto split: option.splits)

lemma least_position_Some:
  "least_position xs = Some x \<Longrightarrow> x \<in> set xs \<and> (\<forall>y \<in> set xs. \<not> position_less (fst y) (fst x))"
proof (induction xs arbitrary: x)
  case (Cons y ys)
  show ?case
  proof (cases "least_position ys")
    case None
    with Cons.prems show ?thesis by auto
  next
    case (Some z)
    note z = Cons.IH [OF this]
    from Some Cons.prems have "x = (if position_less (fst z) (fst y) then z else y)" by (auto split: if_splits)
    with z show ?thesis by (auto dest: position_less_neg position_less_trans)
  qed
qed simp

text \<open>A cursor that may go: a caught-up file of the stream at \<open>src_root\<close>, from an hour before the incoming file's.\<close>

definition retired :: "instant \<Rightarrow> (path \<Rightarrow> file_env) \<Rightarrow> path \<Rightarrow> path \<Rightarrow> path \<Rightarrow> file_cursor \<Rightarrow> bool" where
  "retired now env src_root incoming p c \<longleftrightarrow>
     path_starts_with p src_root \<and> fc_partial c = [] \<and>
     (case fe_file (env p) of Inl _ \<Rightarrow> False | Inr md \<Rightarrow> md_len md = fc_offset c) \<and> \<not> needs_attention now (env p) c \<and>
     (\<exists>old new. hourly_position p = Some old \<and> hourly_position incoming = Some new \<and> position_less old new)"

lemma evict_candidates_iff:
  "hourly_position incoming = Some new \<Longrightarrow>
    (pos, p) \<in> set (evict_candidates now env cursors src_root new) \<longleftrightarrow>
    hourly_position p = Some pos \<and> (\<exists>c. (p, c) \<in> set cursors \<and> retired now env src_root incoming p c)"
  by (auto simp: evict_candidates_def List.map_filter_def retired_def drained_def image_iff split: if_splits option.splits prod.splits)
     force+

text \<open>
  C34. Room for a new hourly file is made only by dropping a finished one: when the eviction answers true it removed exactly one
  cursor, and that one has no partial record, has read its whole file, is the file at its path, lies under the stream's
  directory and is of an hour strictly before the incoming file's, and no other such cursor is of an earlier hour; when it answers false nothing changed
  and there was no such cursor. Both happen for every map of cursors.
\<close>

theorem evict_only_finished_files:
  assumes "distinct (map fst cursors)" and "evict_retired_cursor now env cursors src_root incoming = (evicted, cursors')"
  shows "if evicted
    then \<exists>p c. map_of cursors p = Some c \<and> retired now env src_root incoming p c \<and>
           map_of cursors' = (map_of cursors)(p := None) \<and> length cursors' + 1 = length cursors \<and>
           (\<forall>p' c'. map_of cursors p' = Some c' \<and> retired now env src_root incoming p' c' \<longrightarrow>
              \<not> position_less (the (hourly_position p')) (the (hourly_position p)))
    else cursors' = cursors \<and> (\<forall>p c. map_of cursors p = Some c \<longrightarrow> \<not> retired now env src_root incoming p c)"
proof (cases "hourly_position incoming")
  case None
  with assms(2) show ?thesis by (auto simp: evict_retired_cursor_def retired_def)
next
  case (Some new)
  note cand = evict_candidates_iff [OF Some]
  show ?thesis
  proof (cases "least_position (evict_candidates now env cursors src_root new)")
    case None
    then have "evict_candidates now env cursors src_root new = []" by simp
    then have "\<not> retired now env src_root incoming p c" if "map_of cursors p = Some c" for p c
      using cand [of "the (hourly_position p)" p now env cursors src_root] map_of_SomeD [OF that]
      by (metis empty_iff empty_set option.sel retired_def)
    with None Some assms(2) show ?thesis by (auto simp: evict_retired_cursor_def)
  next
    case (Some x)
    obtain pos p where x: "x = (pos, p)" by (cases x)
    from least_position_Some [OF Some] obtain c where c: "(p, c) \<in> set cursors" "retired now env src_root incoming p c"
      "hourly_position p = Some pos" by (auto simp: x cand)
    have "\<not> position_less (the (hourly_position p')) pos"
      if "map_of cursors p' = Some c'" "retired now env src_root incoming p' c'" for p' c'
    proof -
      from that(2) obtain old where "hourly_position p' = Some old" by (auto simp: retired_def)
      with least_position_Some [OF Some] cand [of old p' now env cursors src_root] map_of_SomeD [OF that(1)] that(2)
      show ?thesis by (auto simp: x)
    qed
    moreover have "map_of cursors p = Some c" using c(1) assms(1) by simp
    moreover have "length (AList.delete p cursors) + 1 = length cursors"
      using c(1) assms(1) by (induction cursors) (auto simp: delete_id image_iff)
    ultimately show ?thesis using Some \<open>hourly_position incoming = Some new\<close> assms(2) c
      by (auto simp: evict_retired_cursor_def x delete_conv' intro!: exI [of _ p])
  qed
qed

definition day_path :: "string \<Rightarrow> path" where
  "day_path hour = [''data'', ''hourly'', ''20250101'', hour]"

theorem evict_only_finished_files_witness:
  "case evict_retired_cursor 0 (\<lambda>_. sample_env []) [(day_path ''7'', sample_cursor 9 [] None 5), (day_path ''8'', sample_cursor 3 [] None 5)]
       [''data''] (day_path ''9'') of
     (evicted, cursors') \<Rightarrow> evicted \<and> length cursors' = 1"
proof -
  let ?cs = "[(day_path ''7'', sample_cursor 9 [] None 5), (day_path ''8'', sample_cursor 3 [] None 5)]"
  obtain evicted cursors' where e: "evict_retired_cursor 0 (\<lambda>_. sample_env []) ?cs [''data''] (day_path ''9'') = (evicted, cursors')"
    by fastforce
  have d: "distinct (map fst ?cs)" by (simp add: day_path_def)
  have p: "hourly_position (day_path ''7'') = Some (20250101, 7)" "hourly_position (day_path ''9'') = Some (20250101, 9)"
    by (simp_all add: hourly_position_def day_path_def path_file_name_def path_parent_def to_str_def byte_in_def
        parse_unsigned_def is_digit_def digits_value_def digit_value_def)
  have r: "retired 0 (\<lambda>_. sample_env []) [''data''] (day_path ''9'') (day_path ''7'') (sample_cursor 9 [] None 5)"
    by (simp add: retired_def p [unfolded day_path_def] sample_env_def sample_cursor_def needs_attention_def verify_file_def partial_expired_def
        path_starts_with_def day_path_def position_less_def)
  from evict_only_finished_files [OF d e] r e show ?thesis by (auto split: if_splits)
qed

end
