(* ===== verification/Listener_Turns.thy ===== *)
theory Listener_Turns
  imports Listener_Protocol
begin

text \<open>
  What may happen to the listener while a snapshot request is in flight, as a relation that counts the recovery epochs that end: as long as
  fewer than \<open>2^64\<close> do, the listener and its request stay within the protocol of \<open>Listener_Protocol\<close>.
\<close>

section \<open>Epochs\<close>

text \<open>Data drops the running validation at most once, and then ends its epoch.\<close>

definition drops :: "listener \<Rightarrow> listener \<Rightarrow> bool" where
  "drops l l' \<longleftrightarrow>
     ln_recovery_epoch l' = ln_recovery_epoch l \<and> (ln_fetched_snapshot_cache l' = None \<longleftrightarrow> ln_fetched_snapshot_cache l = None) \<or>
     ln_recovery_epoch l' = ln_recovery_epoch l + 1 \<and> ln_fetched_snapshot_cache l \<noteq> None \<and> ln_fetched_snapshot_cache l' = None"

lemma drops_trans: "drops a b \<Longrightarrow> drops b c \<Longrightarrow> drops a c"
  unfolding drops_def by metis

lemma drops_same:
  "ln_recovery_epoch l' = ln_recovery_epoch l \<Longrightarrow> ln_fetched_snapshot_cache l' = ln_fetched_snapshot_cache l \<Longrightarrow> drops l l'"
  by (simp add: drops_def)

lemma record_pair_drops: "drops l (snd (record_pair s d l))"
  by (auto simp: record_pair_def drops_def drop_validation_def Let_def split: option.splits)

lemma apply_pair_drops:
  assumes "apply_pair s d l = Some (r, l')"
  shows "drops l l'"
proof -
  have book: "drops l (l\<lparr>ln_order_book_state := st\<rparr>)" for st by (rule drops_same) simp_all
  have pair: "record_pair s d k = (r, l') \<Longrightarrow> drops k l'" for k using record_pair_drops [of k s d] by simp
  show ?thesis using assms pair book drops_trans [OF book pair] drops_same [OF refl refl, of l]
    by (auto simp: apply_pair_def Let_def split: option.splits sum.splits if_splits bind_splits)
qed

lemma queue_batch_drops: "queue_batch now u l = (r, l') \<Longrightarrow> drops l l'"
  by (auto simp: queue_batch_def drops_def split: event_batch.splits prod.splits if_splits)

lemma receive_batch_drops:
  assumes "receive_batch now u l = Some (r, l')"
  shows "drops l l'"
proof -
  obtain q l1 where q: "queue_batch now u l = (q, l1)" by fastforce
  obtain p l2 where p: "pop_cache l1 = (p, l2)" by fastforce
  then have "drops l1 l2" by (auto simp: pop_cache_def Let_def split: prod.splits intro: drops_same)
  with queue_batch_drops [OF q] have "drops l l2" by (rule drops_trans)
  with assms q p queue_batch_drops [OF q] apply_pair_drops show ?thesis
    by (auto simp: receive_batch_def split: sum.splits if_splits option.splits intro: drops_trans)
qed

lemma process_records_drops: "process_records cd clock src rs l = Some (r, l') \<Longrightarrow> drops l l'"
proof (induction rs arbitrary: clock l)
  case (Cons x rs)
  from Cons.prems consider "l' = l" | "process_records cd (\<lambda>i. clock (Suc i)) src rs l = Some (r, l')"
    | u e k where "receive_batch (clock 0) u l = Some (e, k)" "l' = k\<lparr>ln_order_book_state := None\<rparr>"
    | u k where "receive_batch (clock 0) u l = Some (Inr (), k)" "process_records cd (\<lambda>i. clock (Suc i)) src rs k = Some (r, l')"
    by (auto simp: Let_def split: if_splits option.splits sum.splits prod.splits)
  then show ?case
  proof cases
    case 3
    from receive_batch_drops [OF 3(1)] 3(2) show ?thesis by (simp add: drops_def)
  next
    case 4
    from drops_trans [OF receive_batch_drops [OF 4(1)] Cons.IH [OF 4(2)]] show ?thesis .
  qed (use Cons.IH in \<open>auto intro: drops_same\<close>)
qed (simp add: drops_same)

lemma process_data_drops:
  assumes "process_data lg cd clock content src l = Some (r, l')"
  shows "drops l l'"
proof -
  have pub: "publish_l2 lg k = Some k' \<Longrightarrow> drops k k'" for k k'
    by (auto simp: publish_l2_def ln_l2_snapshots_def intro!: drops_same split: bind_splits option.splits)
  from assms process_records_drops pub show ?thesis
    by (auto simp: process_data_def split: option.splits sum.splits) (metis drops_trans process_records_drops)
qed

section \<open>Turns of the program\<close>

text \<open>
  What the rest of the program does to the listener while a snapshot task runs: fences, data, the end of an old validation, counters and views for clients; \<open>n\<close>
  bounds the epochs this ends.
\<close>

inductive evolves :: "(u64 \<Rightarrow> u32) \<Rightarrow> nat \<Rightarrow> listener \<Rightarrow> listener \<Rightarrow> bool" for lg where
  same: "evolves lg n l l"
| fenced: "evolves lg n l l' \<Longrightarrow> evolves lg (n + 1) l (fence l')"
| fed: "evolves lg n l l' \<Longrightarrow> process_data lg cd clock content src l' = Some r \<Longrightarrow> evolves lg (n + 2) l (settle r)"
| expired: "evolves lg n l l' \<Longrightarrow> evolves lg (n + 1) l (expire_validation now l')"
| counted: "evolves lg n l l' \<Longrightarrow> evolves lg n l (l'\<lparr>ln_stats := stats\<rparr>)"
| viewed: "evolves lg n l l' \<Longrightarrow> ln_compute_l2_snapshot lg l' = Some (r, l'') \<Longrightarrow> evolves lg n l l''"

lemma evolves_mono: "evolves lg n l l' \<Longrightarrow> n \<le> m \<Longrightarrow> evolves lg m l l'"
proof (induction arbitrary: m rule: evolves.induct)
  case (fenced n l l')
  from evolves.fenced [OF fenced.IH [of "m - 1"]] fenced.prems show ?case by simp
next
  case (fed n l l' cd clock content src r)
  from fed.prems obtain k where "m = k + 2" "n \<le> k" by (metis add_le_cancel_right le_add_diff_inverse2 le_trans le_add2)
  with evolves.fed [OF fed.IH fed.hyps(2)] show ?case by blast
next
  case (expired n l l' now)
  from evolves.expired [OF expired.IH [of "m - 1"]] expired.prems show ?case by simp
qed (auto intro: evolves.same evolves.counted evolves.viewed)

lemma evolves_trans: "evolves lg m b c \<Longrightarrow> evolves lg n a b \<Longrightarrow> evolves lg (n + m) a c"
proof (induction rule: evolves.induct)
  case (same m b)
  then show ?case by (rule evolves_mono) simp
next
  case (fenced m b c)
  from evolves.fenced [OF fenced.IH [OF fenced.prems]] show ?case by (simp add: add.assoc)
next
  case (fed m b c cd clock content src r)
  from evolves.fed [OF fed.IH [OF fed.prems] fed.hyps(2)] show ?case by (simp add: add.assoc)
next
  case (expired m b c now)
  from evolves.expired [OF expired.IH [OF expired.prems]] show ?case by (simp add: add.assoc)
qed (auto intro: evolves.counted evolves.viewed)

text \<open>The epochs ended; when the validation is gone, at least one ended since it ran.\<close>

definition ended :: "nat \<Rightarrow> listener \<Rightarrow> listener \<Rightarrow> bool" where
  "ended n l l' \<longleftrightarrow> (\<exists>k \<le> n. ln_recovery_epoch l' = ln_recovery_epoch l + of_nat k \<and>
     (ln_fetched_snapshot_cache l' = None \<longrightarrow> ln_fetched_snapshot_cache l = None \<or> 0 < k))"

lemma ended_then:
  assumes "ended n a b" and "ended m b c"
  shows "ended (n + m) a c"
proof -
  obtain j k where "j \<le> n" "ln_recovery_epoch b = ln_recovery_epoch a + of_nat j"
    "ln_fetched_snapshot_cache b = None \<longrightarrow> ln_fetched_snapshot_cache a = None \<or> 0 < j"
    "k \<le> m" "ln_recovery_epoch c = ln_recovery_epoch b + of_nat k"
    "ln_fetched_snapshot_cache c = None \<longrightarrow> ln_fetched_snapshot_cache b = None \<or> 0 < k"
    using assms by (auto simp: ended_def)
  then show ?thesis unfolding ended_def by (intro exI [of _ "j + k"]) auto
qed

lemma ended_same: "ln_recovery_epoch l' = ln_recovery_epoch l \<Longrightarrow> ln_fetched_snapshot_cache l' = ln_fetched_snapshot_cache l \<Longrightarrow> ended 0 l l'"
  by (simp add: ended_def)

lemma ended_fence: "ended 1 l (fence l)"
  unfolding ended_def by (intro exI [of _ 1]) (simp add: fence_def tx_send_def split: option.split)

lemma ended_expire: "ended 1 l (expire_validation now l)"
proof -
  have "ended 1 l l" by (auto simp: ended_def)
  moreover have "ended 1 l (snd (take_cache (l\<lparr>ln_recovery_epoch := ln_recovery_epoch l + 1\<rparr>)))"
    unfolding ended_def by (intro exI [of _ 1]) (simp add: take_cache_def)
  ultimately show ?thesis by (auto simp: expire_validation_def split: option.split)
qed

lemma ended_drops: "drops l l' \<Longrightarrow> ended 1 l l'"
  by (auto simp: drops_def ended_def intro: exI [of _ 0] exI [of _ 1])

lemma ended_data: "process_data lg cd clock content src l = Some r \<Longrightarrow> ended 2 l (settle r)"
proof -
  assume "process_data lg cd clock content src l = Some r"
  then have "ended 1 l (snd r)" by (intro ended_drops process_data_drops [of lg cd clock content src l "fst r" "snd r"]) simp
  moreover have "ended 1 (snd r) (settle r)"
    using ended_fence [of "snd r"] by (auto simp: settle_def ended_def split: sum.split)
  ultimately show ?thesis using ended_then [of 1 l "snd r" 1] by (simp add: numeral_2_eq_2)
qed

lemma evolves_ended: "evolves lg n l l' \<Longrightarrow> ended n l l'"
proof (induction rule: evolves.induct)
  case (same n l)
  then show ?case by (auto simp: ended_def intro: exI [of _ 0])
next
  case (fenced n l l')
  from ended_then [OF fenced.IH ended_fence] show ?case .
next
  case (fed n l l' cd clock content src r)
  from ended_then [OF fed.IH ended_data [OF fed.hyps(2)]] show ?case .
next
  case (expired n l l' now)
  from ended_then [OF expired.IH ended_expire] show ?case .
next
  case (counted n l l' stats)
  from ended_then [OF counted.IH ended_same [of "l'\<lparr>ln_stats := stats\<rparr>" l']] show ?case by simp
next
  case (viewed n l l' r l'')
  from ended_then [OF viewed.IH ended_same [of l'' l']] compute_l2_fields [OF viewed.hyps(2)] show ?case by auto
qed

lemma reached_fresh: "reached lg s \<Longrightarrow> epoch_fresh s"
  using reached_inv [of lg s] by (auto simp: system_inv_def task_linked_def epoch_fresh_def)

lemma ended_fresh:
  assumes "epoch_fresh \<lparr>sy_listener = l, sy_task = Some (e, st)\<rparr>" and "ended n l l'"
    and "unat (ln_recovery_epoch l - e) + n < 2 ^ 64"
  shows "epoch_fresh \<lparr>sy_listener = l', sy_task = Some (e, st)\<rparr>"
proof (rule ccontr)
  assume "\<not> ?thesis"
  then have gone: "ln_fetched_snapshot_cache l' = None" "ln_recovery_epoch l' = e" by (auto simp: epoch_fresh_def)
  from assms(2) obtain k where k: "k \<le> n" "ln_recovery_epoch l' = ln_recovery_epoch l + of_nat k"
    "ln_fetched_snapshot_cache l = None \<or> 0 < k" using gone(1) by (auto simp: ended_def)
  have d: "ln_recovery_epoch l - e = - of_nat k" using gone(2) k(2) by (simp add: algebra_simps)
  have "k < 2 ^ 64" using k(1) assms(3) by simp
  have "0 < unat (ln_recovery_epoch l - e) + k"
  proof (cases "0 < k")
    case False
    then have "ln_recovery_epoch l \<noteq> e" using k(3) assms(1) by (auto simp: epoch_fresh_def)
    then show ?thesis by (simp add: unat_gt_0)
  qed simp
  moreover have "(of_nat (unat (ln_recovery_epoch l - e) + k) :: u64) = 0" using d by simp
  then have "2 ^ LENGTH(64) dvd unat (ln_recovery_epoch l - e) + k" unfolding word_of_nat_eq_0_iff .
  then have "2 ^ 64 dvd unat (ln_recovery_epoch l - e) + k" by simp
  ultimately show False using k(1) assms(3) by (auto dest: dvd_imp_le)
qed

lemma evolves_reached:
  assumes "evolves lg n l l'" and "reached lg \<lparr>sy_listener = l, sy_task = Some (e, st)\<rparr>" and "unat (ln_recovery_epoch l - e) + n < 2 ^ 64"
  shows "reached lg \<lparr>sy_listener = l', sy_task = Some (e, st)\<rparr>"
  using assms
proof (induction rule: evolves.induct)
  case (fenced n l l')
  then have "reached lg \<lparr>sy_listener = l', sy_task = Some (e, st)\<rparr>" by simp
  moreover have "epoch_fresh \<lparr>sy_listener = fence l', sy_task = Some (e, st)\<rparr>"
    by (rule ended_fresh [OF reached_fresh [OF fenced.prems(1)] ended_then [OF evolves_ended [OF fenced.hyps] ended_fence]]) (use fenced.prems in simp)
  ultimately show ?case using reached.stepped [OF _ step.gap [OF refl], of lg "\<lparr>sy_listener = l', sy_task = Some (e, st)\<rparr>"] by simp
next
  case (fed n l l' cd clock content src r)
  then have "reached lg \<lparr>sy_listener = l', sy_task = Some (e, st)\<rparr>" by simp
  moreover have "epoch_fresh \<lparr>sy_listener = settle r, sy_task = Some (e, st)\<rparr>"
    by (rule ended_fresh [OF reached_fresh [OF fed.prems(1)] ended_then [OF evolves_ended [OF fed.hyps(1)] ended_data [OF fed.hyps(2)]]]) (use fed.prems in simp)
  ultimately show ?case using reached.stepped [OF _ step.data [OF _ refl], of lg "\<lparr>sy_listener = l', sy_task = Some (e, st)\<rparr>"] fed.hyps(2) by simp
next
  case (expired n l l' now)
  then have "reached lg \<lparr>sy_listener = l', sy_task = Some (e, st)\<rparr>" by simp
  moreover have "epoch_fresh \<lparr>sy_listener = expire_validation now l', sy_task = Some (e, st)\<rparr>"
    by (rule ended_fresh [OF reached_fresh [OF expired.prems(1)] ended_then [OF evolves_ended [OF expired.hyps] ended_expire]]) (use expired.prems in simp)
  ultimately show ?case using reached.stepped [OF _ step.expire [OF refl], of lg "\<lparr>sy_listener = l', sy_task = Some (e, st)\<rparr>"] by simp
next
  case (counted n l l' stats)
  then have "reached lg \<lparr>sy_listener = l', sy_task = Some (e, st)\<rparr>" by simp
  from reached.stepped [OF this step.counted [of lg _ stats]] show ?case by simp
next
  case (viewed n l l' r l'')
  then have "reached lg \<lparr>sy_listener = l', sy_task = Some (e, st)\<rparr>" by simp
  from reached.stepped [OF this step.viewed] viewed.hyps(2) show ?case by simp
qed simp

lemma evolves_idle:
  "evolves lg n l l' \<Longrightarrow> reached lg \<lparr>sy_listener = l, sy_task = None\<rparr> \<Longrightarrow> reached lg \<lparr>sy_listener = l', sy_task = None\<rparr>"
proof (induction rule: evolves.induct)
  case (fenced n l l')
  from reached.stepped [OF fenced.IH [OF fenced.prems] step.gap [OF refl]] show ?case by (simp add: epoch_fresh_def)
next
  case (fed n l l' cd clock content src r)
  from reached.stepped [OF fed.IH [OF fed.prems] step.data [OF _ refl]] fed.hyps(2) show ?case by (simp add: epoch_fresh_def)
next
  case (expired n l l' now)
  from reached.stepped [OF expired.IH [OF expired.prems] step.expire [OF refl]] show ?case by (simp add: epoch_fresh_def)
next
  case (counted n l l' stats)
  from reached.stepped [OF counted.IH [OF counted.prems] step.counted [of lg _ stats]] show ?case by simp
next
  case (viewed n l l' r l'')
  from reached.stepped [OF viewed.IH [OF viewed.prems] step.viewed] viewed.hyps(2) show ?case by simp
qed simp

end
