(* ===== verification/Listen_Loop.thy ===== *)
theory Listen_Loop
  imports Ingestion Listener_Turns
begin

text \<open>
  The loop that feeds the listener (\<open>hl_listen_with_source\<close> of \<open>listeners/order_book/mod.rs\<close>): the notification callback, the one-second
  maintenance, the wake-up that visits one path, and the start and end of the snapshot task. Each branch of the \<open>select!\<close> is a function on
  the loop's state; which branch runs when is left open. What the file system answers, the clock and the measured times are arguments.
\<close>

section \<open>State\<close>

text \<open>
  What the loop owns: the notifications pending, the open files, whether a wake-up is pending, the snapshot tasks running and the earliest time of the next recovery; and the
  listener, which it shares with the connections. \<open>limits\<close> below are the limits the listener was given when the loop started.
\<close>

record listen_loop =
  lp_listener :: listener
  lp_dirty :: dirty_files
  lp_cursors :: "(path \<times> file_cursor) list"
  lp_wake :: bool
  lp_snapshots :: nat
  lp_recovery_retry_at :: instant

text \<open>
  What the file system answers during one turn. Whether the path is a file is asked twice.
\<close>

record fs_view =
  fv_exists :: "path \<Rightarrow> bool"
  fv_is_file :: "path \<Rightarrow> bool"
  fv_still_file :: "path \<Rightarrow> bool"
  fv_env :: "path \<Rightarrow> file_env"
  fv_reopen :: "path \<Rightarrow> file_env"

section \<open>Notifications\<close>

datatype event_kind = KindCreate | KindModify (is_metadata: bool) | KindOther

datatype notification = FsEvent event_kind "path list" | FsError

definition on_notification :: "notification \<Rightarrow> dirty_files \<Rightarrow> dirty_files \<times> bool" where
  "on_notification res queue =
     (case res of
        FsEvent kind paths \<Rightarrow>
          if kind = KindCreate \<or> kind = KindModify False
          then (fold (\<lambda>p q. df_push p (kind = KindCreate) q) paths queue, True)
          else (queue, False)
      | FsError \<Rightarrow> (df_mark_overflow queue, True))"

section \<open>Maintenance\<close>

definition retain_cursors :: "fs_view \<Rightarrow> (path \<times> file_cursor) list \<Rightarrow> (path \<times> file_cursor) list" where
  "retain_cursors fs cursors = filter (\<lambda>(p, c). fv_exists fs p \<or> \<not> drained (fv_env fs p) c) cursors"

definition fence_expired :: "instant \<Rightarrow> resource_limits \<Rightarrow> listener \<Rightarrow> listener" where
  "fence_expired now limits l =
     (if bq_expired now (ln_order_status_cache l) limits \<or> bq_expired now (ln_order_diff_cache l) limits then fence l else l)"

definition maintenance :: "instant \<Rightarrow> resource_limits \<Rightarrow> fs_view \<Rightarrow> listen_loop \<Rightarrow> listen_loop" where
  "maintenance now limits fs lp =
     (let cursors = retain_cursors fs (lp_cursors lp);
          pending_file_bytes = sum_list (map (\<lambda>(p, c). backlog_bytes (fv_env fs p) c) cursors);
          queue = fold (\<lambda>(p, c) q. if needs_attention now (fv_env fs p) c then df_push p False q else q) cursors (lp_dirty lp);
          dirty_files = length (df_paths queue);
          l = lp_listener lp;
          l = l\<lparr>ln_stats := (ln_stats l)\<lparr>rs_pending_file_bytes := pending_file_bytes, rs_dirty_files := dirty_files\<rparr>\<rparr>;
          l = fence_expired now limits (expire_validation now l);
          needs_recovery = (\<not> is_ready l);
          spawn = (needs_recovery \<and> lp_snapshots lp = 0 \<and> now \<ge> lp_recovery_retry_at lp)
      in lp\<lparr>lp_listener := l, lp_dirty := queue, lp_cursors := cursors, lp_wake := lp_wake lp \<or> dirty_files > 0,
            lp_snapshots := (if spawn then 1 else lp_snapshots lp)\<rparr>)"

section \<open>Reading one file\<close>

definition open_cursor :: "resource_limits \<Rightarrow> file_env \<Rightarrow> bool \<Rightarrow> file_cursor result" where
  "open_cursor limits env from_end =
     and_then (fc_open env from_end (rl_record_bytes limits)) (\<lambda>c. Inr (with_max_age c (rl_queue_age limits)))"

text \<open>Attaching to a file that is not open yet, making room first.\<close>

definition make_room :: "instant \<Rightarrow> resource_limits \<Rightarrow> fs_view \<Rightarrow> path \<Rightarrow> path \<Rightarrow> (path \<times> file_cursor) list \<Rightarrow> (path \<times> file_cursor) list" where
  "make_room now limits fs src_root p cursors =
     (let cursors = retain_cursors fs cursors
      in if length cursors \<ge> rl_dirty_files limits then snd (evict_retired_cursor now (fv_env fs) cursors src_root p) else cursors)"

definition attach_file :: "instant \<Rightarrow> resource_limits \<Rightarrow> fs_view \<Rightarrow> path \<Rightarrow> path \<Rightarrow> bool \<Rightarrow> listen_loop \<Rightarrow> listen_loop" where
  "attach_file now limits fs src_root p created lp =
     (let tracking_source = list_ex (\<lambda>(known, _). path_starts_with known src_root) (lp_cursors lp);
          cursors = make_room now limits fs src_root p (lp_cursors lp);
          full = (length cursors \<ge> rl_dirty_files limits);
          l = (if full then fence (lp_listener lp) else lp_listener lp);
          cursors = (if full then [] else cursors);
          from_end = (\<not> created \<and> \<not> tracking_source);
          l = (if from_end then fence l else l)
      in (case open_cursor limits (fv_env fs p) from_end of
            Inr cursor \<Rightarrow> lp\<lparr>lp_listener := l, lp_cursors := AList.update p cursor cursors\<rparr>
          | Inl _ \<Rightarrow> lp\<lparr>lp_listener := fence l, lp_cursors := cursors\<rparr>))"

text \<open>The times spent waiting for the lock, reading and processing, in microseconds.\<close>

record turn_times =
  tt_lock_wait :: u64
  tt_read :: u64
  tt_process :: u64

definition count_read :: "turn_times \<Rightarrow> usize \<Rightarrow> listener \<Rightarrow> listener" where
  "count_read spent read_bytes l =
     l\<lparr>ln_stats := (ln_stats l)\<lparr>rs_lock_wait_us := rs_lock_wait_us (ln_stats l) + tt_lock_wait spent,
         rs_read_bytes := rs_read_bytes (ln_stats l) + of_nat read_bytes,
         rs_read_time_us := rs_read_time_us (ln_stats l) + tt_read spent\<rparr>\<rparr>"

definition count_process :: "turn_times \<Rightarrow> listener \<Rightarrow> listener" where
  "count_process spent l =
     l\<lparr>ln_stats := (ln_stats l)\<lparr>rs_process_time_us := rs_process_time_us (ln_stats l) + tt_process spent\<rparr>\<rparr>"

definition read_file ::
    "(u64 \<Rightarrow> u32) \<Rightarrow> codecs \<Rightarrow> instant \<Rightarrow> (nat \<Rightarrow> instant) \<Rightarrow> turn_times \<Rightarrow> resource_limits \<Rightarrow> fs_view \<Rightarrow> path \<Rightarrow> event_source
     \<Rightarrow> listen_loop \<Rightarrow> listen_loop option" where
  "read_file lg cd now clock spent limits fs p src lp =
     (case map_of (lp_cursors lp) p of
        None \<Rightarrow> Some lp
      | Some cursor \<Rightarrow>
          (case read_turn now (fv_env fs p) (rl_turn_bytes limits) cursor of
             (Inr (data, more_data, read_bytes), cursor') \<Rightarrow> do {
               let l = count_read spent read_bytes (lp_listener lp);
               l \<leftarrow> (if data = [] then Some l else map_option settle (process_data lg cd clock data src l));
               let l = count_process spent l;
               Some (lp\<lparr>lp_listener := l, lp_cursors := AList.update p cursor' (lp_cursors lp),
                        lp_dirty := (if more_data then df_push p False (lp_dirty lp) else lp_dirty lp)\<rparr>)
             }
           | (Inl _, _) \<Rightarrow>
               let cursors = AList.delete p (lp_cursors lp);
                   cursors = (case open_cursor limits (fv_reopen fs p) True of Inr c \<Rightarrow> AList.update p c cursors | Inl _ \<Rightarrow> cursors)
               in Some (lp\<lparr>lp_listener := fence (lp_listener lp), lp_cursors := cursors\<rparr>)))"

text \<open>A path that is no longer a file is forgotten.\<close>

definition forget_gone :: "fs_view \<Rightarrow> path \<Rightarrow> listen_loop \<Rightarrow> listen_loop" where
  "forget_gone fs p lp =
     (if fv_is_file fs p then lp
      else lp\<lparr>lp_listener :=
                (case map_of (lp_cursors lp) p of
                   Some c \<Rightarrow> if drained (fv_env fs p) c then lp_listener lp else fence (lp_listener lp)
                 | None \<Rightarrow> lp_listener lp),
              lp_cursors := AList.delete p (lp_cursors lp)\<rparr>)"

definition visit_path ::
    "(u64 \<Rightarrow> u32) \<Rightarrow> codecs \<Rightarrow> instant \<Rightarrow> (nat \<Rightarrow> instant) \<Rightarrow> turn_times \<Rightarrow> resource_limits \<Rightarrow> fs_view \<Rightarrow> (path \<times> event_source) list
     \<Rightarrow> path \<Rightarrow> bool \<Rightarrow> listen_loop \<Rightarrow> listen_loop option" where
  "visit_path lg cd now clock spent limits fs roots p created lp =
     (case find (\<lambda>(src_root, _). path_starts_with p src_root) roots of
        None \<Rightarrow> Some lp
      | Some (src_root, src) \<Rightarrow>
          let lp = forget_gone fs p lp
          in if fv_still_file fs p
             then
               let lp = (if map_of (lp_cursors lp) p = None then attach_file now limits fs src_root p created lp else lp)
               in read_file lg cd now clock spent limits fs p src lp
             else Some lp)"

section \<open>The branches of the loop\<close>

definition wake_turn ::
    "(u64 \<Rightarrow> u32) \<Rightarrow> codecs \<Rightarrow> instant \<Rightarrow> (nat \<Rightarrow> instant) \<Rightarrow> turn_times \<Rightarrow> resource_limits \<Rightarrow> fs_view \<Rightarrow> (path \<times> event_source) list
     \<Rightarrow> listen_loop \<Rightarrow> listen_loop option" where
  "wake_turn lg cd now clock spent limits fs roots lp =
     (let (overflow, queue) = df_take_overflow (lp_dirty lp);
          (next_path, queue) = df_pop queue;
          lp = lp\<lparr>lp_dirty := queue\<rparr>;
          lp = (if overflow then lp\<lparr>lp_listener := fence (lp_listener lp), lp_cursors := []\<rparr> else lp)
      in do {
        lp \<leftarrow> (case next_path of
           Some (p, created) \<Rightarrow> visit_path lg cd now clock spent limits fs roots p created lp
         | None \<Rightarrow> Some lp);
        Some (lp\<lparr>lp_wake := df_paths (lp_dirty lp) \<noteq> []\<rparr>)
      })"

text \<open>
  A finished snapshot task: what it returned, or that it failed; \<open>None\<close> is the answer of an empty task set.
\<close>

definition snapshot_joined :: "instant \<Rightarrow> unit result option \<Rightarrow> listen_loop \<Rightarrow> listen_loop result" where
  "snapshot_joined now result lp =
     (case result of
        None \<Rightarrow> Inl TaskDisappeared
      | Some r \<Rightarrow>
          Inr (lp\<lparr>lp_listener := (case r of Inl _ \<Rightarrow> fence (lp_listener lp) | Inr _ \<Rightarrow> lp_listener lp),
                  lp_snapshots := lp_snapshots lp - 1, lp_recovery_retry_at := now + from_secs 10\<rparr>))"

definition snapshot_tick :: "listen_loop \<Rightarrow> listen_loop" where
  "snapshot_tick lp = (if lp_snapshots lp = 0 then lp\<lparr>lp_snapshots := 1\<rparr> else lp)"

text \<open>The directories of the three streams, in the order they are matched against a path.\<close>

definition source_roots :: "(string \<Rightarrow> path result) \<Rightarrow> (string \<Rightarrow> string \<Rightarrow> string) \<Rightarrow> string \<Rightarrow> (path \<times> event_source) list result" where
  "source_roots canonicalize join dir =
     map_result (\<lambda>src. and_then (canonicalize (event_source_dir src join dir)) (\<lambda>p. Inr (p, src))) [OrderStatuses, OrderDiffs, Fills]"

definition listen_start :: "instant \<Rightarrow> resource_limits \<Rightarrow> listener \<Rightarrow> listen_loop" where
  "listen_start now limits l =
     \<lparr>lp_listener = l\<lparr>ln_limits := limits\<rparr>, lp_dirty = df_new (rl_dirty_files limits), lp_cursors = [], lp_wake = False,
      lp_snapshots = 0, lp_recovery_retry_at = now + from_secs 5\<rparr>"

section \<open>Readiness\<close>

lemma fence_not_ready [simp]: "\<not> is_ready (fence l)"
  by (simp add: fence_def is_ready_def tx_send_def split: option.splits)

lemma receive_batch_not_ready:
  "\<not> is_ready l \<Longrightarrow> receive_batch now u l = Some (r, l') \<Longrightarrow> \<not> is_ready l'"
  by (cases u) (auto simp: receive_batch_def queue_batch_def is_ready_def tx_send_def Let_def split: prod.splits sum.splits if_splits option.splits)

lemma process_records_not_ready:
  "\<not> is_ready l \<Longrightarrow> process_records cd clock src rs l = Some (r, l') \<Longrightarrow> \<not> is_ready l'"
proof (induction rs arbitrary: clock l)
  case (Cons rec rs)
  from Cons.prems consider "l' = l" | "process_records cd (\<lambda>i. clock (Suc i)) src rs l = Some (r, l')"
    | k where "l' = k\<lparr>ln_order_book_state := None\<rparr>"
    | u k where "receive_batch (clock 0) u l = Some (Inr (), k)" "process_records cd (\<lambda>i. clock (Suc i)) src rs k = Some (r, l')"
    by (auto simp: Let_def split: if_splits option.splits sum.splits prod.splits)
  then show ?case
    by cases (use Cons receive_batch_not_ready in \<open>auto simp: is_ready_def\<close>, use Cons.IH Cons.prems(1) receive_batch_not_ready in \<open>force simp: is_ready_def\<close>)
qed simp

lemma publish_l2_not_ready: "\<not> is_ready l \<Longrightarrow> publish_l2 lg l = Some l' \<Longrightarrow> \<not> is_ready l'"
  by (auto simp: publish_l2_def ln_l2_snapshots_def is_ready_def)

lemma process_data_not_ready:
  "\<not> is_ready l \<Longrightarrow> process_data lg cd clock data src l = Some (r, l') \<Longrightarrow> \<not> is_ready l'"
  by (auto simp: process_data_def split: option.splits sum.splits)
     (metis process_records_not_ready publish_l2_not_ready)+

lemma settle_ready: "is_ready (settle r) \<Longrightarrow> \<exists>l. r = (Inr (), l) \<and> settle r = l \<and> is_ready l"
  by (cases r) (auto simp: settle_def split: sum.splits)

lemma count_ready [simp]: "is_ready (count_read t n l) = is_ready l" "is_ready (count_process t l) = is_ready l"
  by (simp_all add: count_read_def count_process_def is_ready_def)

section \<open>What happens to an open file\<close>

text \<open>
  The cursor of \<open>p\<close> read on from \<open>c\<close> to \<open>c'\<close>, and the listener took every record that this completed, going from \<open>l\<close> to \<open>l'\<close>.
\<close>

definition read_on ::
    "(u64 \<Rightarrow> u32) \<Rightarrow> codecs \<Rightarrow> instant \<Rightarrow> (nat \<Rightarrow> instant) \<Rightarrow> turn_times \<Rightarrow> resource_limits \<Rightarrow> fs_view \<Rightarrow> event_source
     \<Rightarrow> path \<Rightarrow> file_cursor \<Rightarrow> file_cursor \<Rightarrow> listener \<Rightarrow> listener \<Rightarrow> bool" where
  "read_on lg cd now clock spent limits fs src p c c' l l' \<longleftrightarrow>
     (\<exists>data m n k. read_turn now (fv_env fs p) (rl_turn_bytes limits) c = (Inr (data, m, n), c') \<and>
        (if data = [] then k = count_read spent n l else process_data lg cd clock data src (count_read spent n l) = Some (Inr (), k)) \<and>
        l' = count_process spent k)"

lemma map_of_retain:
  "distinct (map fst cs) \<Longrightarrow>
    map_of (retain_cursors fs cs) p =
      (case map_of cs p of Some c \<Rightarrow> if fv_exists fs p \<or> \<not> drained (fv_env fs p) c then Some c else None | None \<Rightarrow> None)"
  by (induction cs) (auto simp: retain_cursors_def map_of_eq_None_iff split: option.splits if_splits)

lemma retain_distinct: "distinct (map fst cs) \<Longrightarrow> distinct (map fst (retain_cursors fs cs))"
  by (auto simp: retain_cursors_def distinct_map_filter)

text \<open>Making room drops only files that are read to their end.\<close>

definition only_drained :: "fs_view \<Rightarrow> (path \<times> file_cursor) list \<Rightarrow> (path \<times> file_cursor) list \<Rightarrow> bool" where
  "only_drained fs cs cs' \<longleftrightarrow>
     (\<forall>p c. map_of cs p = Some c \<longrightarrow> map_of cs' p = Some c \<or> map_of cs' p = None \<and> drained (fv_env fs p) c) \<and>
     (\<forall>p. map_of cs p = None \<longrightarrow> map_of cs' p = None)"

lemma only_drained_trans: "only_drained fs a b \<Longrightarrow> only_drained fs b c \<Longrightarrow> only_drained fs a c"
  unfolding only_drained_def by metis

lemma only_drained_refl [simp]: "only_drained fs a a"
  by (simp add: only_drained_def)

lemma retain_only_drained: "distinct (map fst cs) \<Longrightarrow> only_drained fs cs (retain_cursors fs cs)"
  by (auto simp: only_drained_def map_of_retain)

lemma delete_only_drained: "(\<And>c. map_of cs p = Some c \<Longrightarrow> drained (fv_env fs p) c) \<Longrightarrow> only_drained fs cs (AList.delete p cs)"
  by (auto simp: only_drained_def delete_conv')

lemma evict_shape:
  "\<exists>p. snd (evict_retired_cursor now env cs src_root incoming) = (if fst (evict_retired_cursor now env cs src_root incoming) then AList.delete p cs else cs) \<and>
    (fst (evict_retired_cursor now env cs src_root incoming) \<longrightarrow> (\<exists>c. (p, c) \<in> set cs \<and> drained (env p) c))"
proof (cases "hourly_position incoming")
  case (Some new)
  show ?thesis
  proof (cases "least_position (evict_candidates now env cs src_root new)")
    case (Some x)
    obtain pos p where x: "x = (pos, p)" by (cases x)
    from least_position_Some [OF Some] obtain c where "(p, c) \<in> set cs" "retired now env src_root incoming p c"
      by (auto simp: x evict_candidates_iff [OF \<open>hourly_position incoming = Some new\<close>])
    then show ?thesis using Some \<open>hourly_position incoming = Some new\<close>
      by (auto simp: evict_retired_cursor_def x retired_def drained_def intro!: exI [of _ p] exI [of _ c])
  qed (simp add: evict_retired_cursor_def Some)
qed (simp add: evict_retired_cursor_def)

lemma evict_only_drained:
  assumes "distinct (map fst cs)"
  shows "only_drained fs cs (snd (evict_retired_cursor now (fv_env fs) cs src_root incoming))"
    and "distinct (map fst (snd (evict_retired_cursor now (fv_env fs) cs src_root incoming)))"
    and "length (snd (evict_retired_cursor now (fv_env fs) cs src_root incoming)) \<le> length cs"
proof -
  obtain p where p: "snd (evict_retired_cursor now (fv_env fs) cs src_root incoming) =
      (if fst (evict_retired_cursor now (fv_env fs) cs src_root incoming) then AList.delete p cs else cs)"
    "fst (evict_retired_cursor now (fv_env fs) cs src_root incoming) \<longrightarrow> (\<exists>c. (p, c) \<in> set cs \<and> drained (fv_env fs p) c)"
    using evict_shape by blast
  show "only_drained fs cs (snd (evict_retired_cursor now (fv_env fs) cs src_root incoming))"
    using p assms by (auto simp: only_drained_def delete_conv' dest: eq_key_imp_eq_value)
  show "distinct (map fst (snd (evict_retired_cursor now (fv_env fs) cs src_root incoming)))"
    using p(1) assms by (simp add: distinct_delete)
  show "length (snd (evict_retired_cursor now (fv_env fs) cs src_root incoming)) \<le> length cs"
    using p(1) by (simp add: length_delete_le)
qed

lemma make_room_drained:
  assumes "distinct (map fst cs)"
  shows "only_drained fs cs (make_room now limits fs src_root p cs)" and "distinct (map fst (make_room now limits fs src_root p cs))"
  using retain_only_drained [OF assms, of fs] retain_distinct [OF assms, of fs] evict_only_drained(1,2) [OF retain_distinct [OF assms, of fs]]
    only_drained_trans [OF retain_only_drained [OF assms, of fs]]
  by (simp_all add: make_room_def Let_def)

lemma attach_ready:
  assumes "distinct (map fst (lp_cursors lp))" and "is_ready (lp_listener (attach_file now limits fs src_root p created lp))"
    and "map_of (lp_cursors lp) p = None"
  shows "lp_listener (attach_file now limits fs src_root p created lp) = lp_listener lp \<and>
    (\<exists>cs c0. only_drained fs (lp_cursors lp) cs \<and> open_cursor limits (fv_env fs p) False = Inr c0 \<and>
      lp_cursors (attach_file now limits fs src_root p created lp) = AList.update p c0 cs)"
proof -
  define cs where "cs = make_room now limits fs src_root p (lp_cursors lp)"
  define full where "full = (length cs \<ge> rl_dirty_files limits)"
  define e where "e = (\<not> created \<and> \<not> list_ex (\<lambda>(known, _). path_starts_with known src_root) (lp_cursors lp))"
  have o: "only_drained fs (lp_cursors lp) cs" unfolding cs_def by (rule make_room_drained [OF assms(1)])
  have a: "attach_file now limits fs src_root p created lp =
      (let l = (if full then fence (lp_listener lp) else lp_listener lp); l = (if e then fence l else l); cs = (if full then [] else cs)
       in (case open_cursor limits (fv_env fs p) e of
             Inr cursor \<Rightarrow> lp\<lparr>lp_listener := l, lp_cursors := AList.update p cursor cs\<rparr>
           | Inl _ \<Rightarrow> lp\<lparr>lp_listener := fence l, lp_cursors := cs\<rparr>))"
    unfolding attach_file_def Let_def cs_def [symmetric] full_def [symmetric] e_def [symmetric] ..
  with assms(2) have "\<not> e" "\<not> full" by (auto simp: Let_def split: sum.splits if_splits)
  with a assms(2) o show ?thesis by (auto simp: Let_def split: sum.splits)
qed

lemma read_file_ready:
  assumes "read_file lg cd now clock spent limits fs p src lp = Some lp'" and "is_ready (lp_listener lp')" and "map_of (lp_cursors lp) p = Some c"
  shows "is_ready (lp_listener lp) \<and>
    (\<exists>c'. read_on lg cd now clock spent limits fs src p c c' (lp_listener lp) (lp_listener lp') \<and>
      lp_cursors lp' = AList.update p c' (lp_cursors lp))"
proof -
  obtain r c' where r: "read_turn now (fv_env fs p) (rl_turn_bytes limits) c = (r, c')" by fastforce
  show ?thesis
  proof (cases r)
    case (Inl e)
    with assms r show ?thesis by (auto simp: read_file_def Let_def)
  next
    case (Inr x)
    obtain data m n where x: "x = (data, m, n)" by (cases x)
    let ?l = "count_read spent n (lp_listener lp)"
    from assms r Inr x obtain l where l: "(if data = [] then Some ?l else map_option settle (process_data lg cd clock data src ?l)) = Some l"
      and lp': "lp' = lp\<lparr>lp_listener := count_process spent l, lp_cursors := AList.update p c' (lp_cursors lp),
                        lp_dirty := (if m then df_push p False (lp_dirty lp) else lp_dirty lp)\<rparr>"
      by (auto simp: read_file_def Let_def split: bind_splits)
    have rl: "is_ready l" using assms(2) lp' by simp
    show ?thesis
    proof (cases "data = []")
      case True
      with l rl r Inr x lp' show ?thesis by (auto simp: read_on_def)
    next
      case False
      with l obtain q where q: "process_data lg cd clock data src ?l = Some q" "settle q = l" by auto
      with settle_ready [of q] rl obtain k where k: "q = (Inr (), k)" "is_ready k" "l = k" by blast
      have "is_ready ?l" using process_data_not_ready [of ?l lg cd clock data src "Inr ()" k] q(1) k by blast
      with q(1) k False r Inr x lp' show ?thesis by (auto simp: read_on_def)
    qed
  qed
qed

text \<open>
  No unread data is lost: an open file stays open where it was, or is read on, or had been read to its end; a file opened now is read from its start.
\<close>

definition nothing_skipped ::
    "(path \<Rightarrow> file_cursor \<Rightarrow> file_cursor \<Rightarrow> bool) \<Rightarrow> resource_limits \<Rightarrow> fs_view \<Rightarrow> (path \<times> file_cursor) list
     \<Rightarrow> (path \<times> file_cursor) list \<Rightarrow> bool" where
  "nothing_skipped R limits fs cs cs' \<longleftrightarrow>
     (\<forall>p c. map_of cs p = Some c \<longrightarrow> drained (fv_env fs p) c \<or> (\<exists>c'. map_of cs' p = Some c' \<and> (c' = c \<or> R p c c'))) \<and>
     (\<forall>p c'. map_of cs' p = Some c' \<and> map_of cs p = None \<longrightarrow> (\<exists>c. open_cursor limits (fv_env fs p) False = Inr c \<and> R p c c'))"

definition source_of :: "(path \<times> event_source) list \<Rightarrow> path \<Rightarrow> event_source option" where
  "source_of roots p = map_option snd (find (\<lambda>(src_root, _). path_starts_with p src_root) roots)"

definition reads ::
    "(u64 \<Rightarrow> u32) \<Rightarrow> codecs \<Rightarrow> instant \<Rightarrow> (nat \<Rightarrow> instant) \<Rightarrow> turn_times \<Rightarrow> resource_limits \<Rightarrow> fs_view \<Rightarrow> (path \<times> event_source) list
     \<Rightarrow> listen_loop \<Rightarrow> listen_loop \<Rightarrow> path \<Rightarrow> file_cursor \<Rightarrow> file_cursor \<Rightarrow> bool" where
  "reads lg cd now clock spent limits fs roots lp lp' p c c' \<longleftrightarrow>
     (\<exists>src. source_of roots p = Some src \<and>
        read_on lg cd now clock spent limits fs src p c c' (lp_listener lp) (lp_listener lp'))"

lemma nothing_skipped_drained: "only_drained fs cs cs' \<Longrightarrow> nothing_skipped R limits fs cs cs'"
  by (auto simp: only_drained_def nothing_skipped_def)

lemma nothing_skipped_before:
  assumes "only_drained fs cs cs'" and "nothing_skipped R limits fs cs' cs''"
  shows "nothing_skipped R limits fs cs cs''"
  using assms unfolding only_drained_def nothing_skipped_def by (metis option.distinct(1))

lemma forget_gone_ready:
  assumes "is_ready (lp_listener (forget_gone fs p lp))"
  shows "lp_listener (forget_gone fs p lp) = lp_listener lp" and "only_drained fs (lp_cursors lp) (lp_cursors (forget_gone fs p lp))"
proof -
  have dr: "drained (fv_env fs p) c" if "map_of (lp_cursors lp) p = Some c" "\<not> fv_is_file fs p" for c
    using assms that by (auto simp: forget_gone_def split: if_splits)
  then show "lp_listener (forget_gone fs p lp) = lp_listener lp"
    by (auto simp: forget_gone_def split: option.splits)
  show "only_drained fs (lp_cursors lp) (lp_cursors (forget_gone fs p lp))"
  proof (cases "fv_is_file fs p")
    case False
    then have "only_drained fs (lp_cursors lp) (AList.delete p (lp_cursors lp))" using dr by (intro delete_only_drained) blast
    with False show ?thesis by (simp add: forget_gone_def)
  qed (simp add: forget_gone_def)
qed

lemma forget_gone_distinct: "distinct (map fst (lp_cursors lp)) \<Longrightarrow> distinct (map fst (lp_cursors (forget_gone fs p lp)))"
  by (simp add: forget_gone_def distinct_delete)

lemma visit_open_ready:
  assumes r: "read_file lg cd now clock spent limits fs p src lp = Some lp'" and "is_ready (lp_listener lp')"
    and c: "map_of (lp_cursors lp) p = Some c" and s: "source_of roots p = Some src"
  shows "is_ready (lp_listener lp) \<and> nothing_skipped (reads lg cd now clock spent limits fs roots lp lp') limits fs (lp_cursors lp) (lp_cursors lp')"
proof -
  from read_file_ready [OF r assms(2) c] obtain c' where c': "is_ready (lp_listener lp)"
    "reads lg cd now clock spent limits fs roots lp lp' p c c'" "map_of (lp_cursors lp') = (map_of (lp_cursors lp))(p \<mapsto> c')"
    using s by (auto simp: reads_def update_conv')
  with c show ?thesis by (auto simp: nothing_skipped_def)
qed

lemma visit_new_ready:
  assumes r: "read_file lg cd now clock spent limits fs p src (attach_file now limits fs src_root p created lp) = Some lp'"
    and rl: "is_ready (lp_listener lp')" and n: "map_of (lp_cursors lp) p = None" and s: "source_of roots p = Some src"
    and d: "distinct (map fst (lp_cursors lp))"
  shows "is_ready (lp_listener lp) \<and> nothing_skipped (reads lg cd now clock spent limits fs roots lp lp') limits fs (lp_cursors lp) (lp_cursors lp')"
proof -
  let ?a = "attach_file now limits fs src_root p created lp"
  have ready: "is_ready (lp_listener ?a)"
  proof (cases "map_of (lp_cursors ?a) p")
    case None
    with r rl show ?thesis by (simp add: read_file_def)
  qed (use read_file_ready [OF r rl] in blast)
  from attach_ready [OF d ready n] obtain cs c0 where a: "lp_listener ?a = lp_listener lp" "only_drained fs (lp_cursors lp) cs"
    "open_cursor limits (fv_env fs p) False = Inr c0" "lp_cursors ?a = AList.update p c0 cs" by blast
  have "map_of (lp_cursors ?a) p = Some c0" unfolding a(4) by (simp add: update_conv')
  from read_file_ready [OF r rl this] a obtain c' where
    c': "read_on lg cd now clock spent limits fs src p c0 c' (lp_listener lp) (lp_listener lp')"
      "map_of (lp_cursors lp') = (map_of cs)(p \<mapsto> c')" by (auto simp: update_conv')
  have "map_of cs p = None" using a(2) n by (auto simp: only_drained_def)
  with c' a(3) s have "nothing_skipped (reads lg cd now clock spent limits fs roots lp lp') limits fs cs (lp_cursors lp')"
    by (auto simp: nothing_skipped_def reads_def)
  with a(2) have "nothing_skipped (reads lg cd now clock spent limits fs roots lp lp') limits fs (lp_cursors lp) (lp_cursors lp')"
    by (rule nothing_skipped_before)
  with ready a(1) show ?thesis by simp
qed

lemma visit_ready:
  assumes v: "visit_path lg cd now clock spent limits fs roots p created lp = Some lp'" and rl: "is_ready (lp_listener lp')"
    and "distinct (map fst (lp_cursors lp))"
  shows "is_ready (lp_listener lp) \<and> nothing_skipped (reads lg cd now clock spent limits fs roots lp lp') limits fs (lp_cursors lp) (lp_cursors lp')"
proof (cases "find (\<lambda>(src_root, _). path_starts_with p src_root) roots")
  case None
  with v rl show ?thesis by (simp add: visit_path_def nothing_skipped_drained)
next
  case (Some x)
  obtain src_root src where x: "x = (src_root, src)" by (cases x)
  with Some have s: "source_of roots p = Some src" by (simp add: source_of_def)
  let ?g = "forget_gone fs p lp"
  note d = forget_gone_distinct [OF assms(3), of fs p]
  have step: "is_ready (lp_listener ?g) \<and> nothing_skipped (reads lg cd now clock spent limits fs roots ?g lp') limits fs (lp_cursors ?g) (lp_cursors lp')"
  proof (cases "fv_still_file fs p")
    case False
    with v Some x rl show ?thesis by (simp add: visit_path_def nothing_skipped_drained)
  next
    case True
    with v Some x have r: "read_file lg cd now clock spent limits fs p src
        (if map_of (lp_cursors ?g) p = None then attach_file now limits fs src_root p created ?g else ?g) = Some lp'"
      by (simp add: visit_path_def Let_def)
    show ?thesis
    proof (cases "map_of (lp_cursors ?g) p")
      case None
      with r show ?thesis using visit_new_ready [OF _ rl None s d] by simp
    next
      case (Some c)
      with r show ?thesis using visit_open_ready [OF _ rl Some s] by simp
    qed
  qed
  note g = forget_gone_ready [OF conjunct1 [OF step]]
  have "reads lg cd now clock spent limits fs roots ?g lp' = reads lg cd now clock spent limits fs roots lp lp'"
    by (simp add: fun_eq_iff reads_def g(1))
  with step g(1) show ?thesis by (simp add: nothing_skipped_before [OF g(2)])
qed

section \<open>Bounds\<close>

definition loop_ok :: "resource_limits \<Rightarrow> listen_loop \<Rightarrow> bool" where
  "loop_ok limits lp \<longleftrightarrow> distinct (map fst (lp_cursors lp)) \<and> length (lp_cursors lp) \<le> rl_dirty_files limits \<and>
     df_ok (lp_dirty lp) \<and> df_limit (lp_dirty lp) = rl_dirty_files limits \<and> lp_snapshots lp \<le> 1"

lemma length_update: "length (AList.update k v xs) = (if k \<in> fst ` set xs then length xs else Suc (length xs))"
  by (induction xs) auto

lemma length_delete_less: "k \<in> fst ` set xs \<Longrightarrow> length (AList.delete k xs) < length xs"
  by (induction xs) (auto intro: le_imp_less_Suc length_delete_le)

lemma retain_length: "length (retain_cursors fs cs) \<le> length cs"
  by (simp add: retain_cursors_def)

lemma fold_push_ok:
  "df_ok q \<Longrightarrow> df_ok (fold (\<lambda>x q. if P x then df_push (f x) b q else q) xs q) \<and>
    df_limit (fold (\<lambda>x q. if P x then df_push (f x) b q else q) xs q) = df_limit q"
  by (induction xs arbitrary: q) (auto simp: df_push_ok)

lemma df_mark_overflow_ok: "df_ok q \<Longrightarrow> df_ok (df_mark_overflow q)" "df_limit (df_mark_overflow q) = df_limit q"
  by (simp_all add: df_ok_def df_mark_overflow_def)

lemma on_notification_ok: "df_ok q \<Longrightarrow> df_ok (fst (on_notification r q)) \<and> df_limit (fst (on_notification r q)) = df_limit q"
  using fold_push_ok [of q "\<lambda>_. True" "\<lambda>p. p" True] fold_push_ok [of q "\<lambda>_. True" "\<lambda>p. p" False]
  by (auto simp: on_notification_def df_mark_overflow_ok split: notification.split)

lemma maintenance_ok: "loop_ok limits lp \<Longrightarrow> loop_ok limits (maintenance now limits fs lp)"
  using fold_push_ok [of "lp_dirty lp" "\<lambda>(p, c). needs_attention now (fv_env fs p) c" fst False] retain_length [of fs "lp_cursors lp"]
    retain_distinct [of "lp_cursors lp" fs]
  by (auto simp: loop_ok_def maintenance_def Let_def case_prod_beta')

lemma attach_ok:
  assumes "loop_ok limits lp" and "0 < rl_dirty_files limits" and "map_of (lp_cursors lp) p = None"
  shows "loop_ok limits (attach_file now limits fs src_root p created lp)"
proof -
  define cs where "cs = make_room now limits fs src_root p (lp_cursors lp)"
  define cs' where "cs' = (if length cs \<ge> rl_dirty_files limits then [] else cs)"
  have "distinct (map fst cs)" unfolding cs_def using assms(1) by (intro make_room_drained) (simp add: loop_ok_def)
  then have "distinct (map fst cs')" "length cs' < rl_dirty_files limits" using assms(2) by (simp_all add: cs'_def)
  then have "distinct (map fst (AList.update p c cs'))" "length (AList.update p c cs') \<le> rl_dirty_files limits" for c
    by (simp_all add: distinct_update length_update)
  then show ?thesis using assms(1) \<open>distinct (map fst cs')\<close> \<open>length cs' < rl_dirty_files limits\<close>
    unfolding attach_file_def Let_def cs_def [symmetric] cs'_def [symmetric] by (auto simp: loop_ok_def split: sum.splits)
qed

lemma delete_ok: "loop_ok limits lp \<Longrightarrow> loop_ok limits (lp\<lparr>lp_listener := l, lp_cursors := AList.delete p (lp_cursors lp)\<rparr>)"
  using length_delete_le [of p "lp_cursors lp"] by (auto simp: loop_ok_def distinct_delete)

lemma loop_ok_cursors:
  "loop_ok limits lp \<Longrightarrow> distinct (map fst cs) \<Longrightarrow> length cs \<le> rl_dirty_files limits \<Longrightarrow>
    loop_ok limits (lp\<lparr>lp_listener := l, lp_cursors := cs\<rparr>)"
  by (simp add: loop_ok_def)

lemma loop_ok_push: "loop_ok limits lp \<Longrightarrow> loop_ok limits (lp\<lparr>lp_dirty := if b then df_push p False (lp_dirty lp) else lp_dirty lp\<rparr>)"
  using df_push_ok [of "lp_dirty lp" p False] by (simp add: loop_ok_def)

lemma read_file_ok:
  assumes ok: "loop_ok limits lp" and r: "read_file lg cd now clock spent limits fs p src lp = Some lp'"
  shows "loop_ok limits lp'"
proof (cases "map_of (lp_cursors lp) p")
  case (Some c)
  then have p: "p \<in> fst ` set (lp_cursors lp)" by (metis map_of_eq_None_iff option.distinct(1))
  have d: "distinct (map fst (lp_cursors lp))" and n: "length (lp_cursors lp) \<le> rl_dirty_files limits" using ok by (simp_all add: loop_ok_def)
  have up: "loop_ok limits (lp\<lparr>lp_listener := l, lp_cursors := AList.update p c' (lp_cursors lp)\<rparr>)" for l c'
    by (rule loop_ok_cursors [OF ok]) (use d n p in \<open>simp_all add: distinct_update length_update\<close>)
  have re: "loop_ok limits (lp\<lparr>lp_listener := l, lp_cursors := AList.update p c' (AList.delete p (lp_cursors lp))\<rparr>)" for l c'
    by (rule loop_ok_cursors [OF ok]) (use d n length_delete_less [OF p] in \<open>simp_all add: distinct_update distinct_delete length_update\<close>)
  obtain q c' where q: "read_turn now (fv_env fs p) (rl_turn_bytes limits) c = (q, c')" by fastforce
  show ?thesis
  proof (cases q)
    case (Inl e)
    with r Some q re delete_ok [OF ok] show ?thesis by (auto simp: read_file_def Let_def split: sum.splits)
  next
    case (Inr x)
    obtain data m k where x: "x = (data, m, k)" by (cases x)
    with r Some q Inr obtain l where "lp' = lp\<lparr>lp_listener := l, lp_cursors := AList.update p c' (lp_cursors lp),
        lp_dirty := (if m then df_push p False (lp_dirty lp) else lp_dirty lp)\<rparr>"
      by (auto simp: read_file_def Let_def split: bind_splits)
    with loop_ok_push [OF up [of c' l], of m p] show ?thesis by (cases m) simp_all
  qed
qed (use assms in \<open>simp add: read_file_def\<close>)

lemma visit_ok:
  assumes "loop_ok limits lp" and "0 < rl_dirty_files limits" and "visit_path lg cd now clock spent limits fs roots p created lp = Some lp'"
  shows "loop_ok limits lp'"
proof (cases "find (\<lambda>(src_root, _). path_starts_with p src_root) roots")
  case (Some x)
  obtain src_root src where x: "x = (src_root, src)" by (cases x)
  define lp1 where "lp1 = forget_gone fs p lp"
  have "loop_ok limits lp1" using assms(1) delete_ok by (simp add: lp1_def forget_gone_def)
  moreover from this have "loop_ok limits (if map_of (lp_cursors lp1) p = None then attach_file now limits fs src_root p created lp1 else lp1)"
    using attach_ok [OF _ assms(2)] by simp
  ultimately show ?thesis using assms(3) read_file_ok unfolding visit_path_def Some x option.case prod.case Let_def lp1_def [symmetric]
    by (auto split: if_splits)
qed (use assms in \<open>simp add: visit_path_def\<close>)

text \<open>The state in which a wake-up visits its path.\<close>

definition woken :: "listen_loop \<Rightarrow> listen_loop" where
  "woken lp =
     (let lp1 = lp\<lparr>lp_dirty := snd (df_pop (snd (df_take_overflow (lp_dirty lp))))\<rparr>
      in if df_overflow (lp_dirty lp) then lp1\<lparr>lp_listener := fence (lp_listener lp), lp_cursors := []\<rparr> else lp1)"

lemma wake_turn_alt:
  "wake_turn lg cd now clock spent limits fs roots lp =
     map_option (\<lambda>lp. lp\<lparr>lp_wake := df_paths (lp_dirty lp) \<noteq> []\<rparr>)
       (case fst (df_pop (snd (df_take_overflow (lp_dirty lp)))) of
          Some (p, created) \<Rightarrow> visit_path lg cd now clock spent limits fs roots p created (woken lp)
        | None \<Rightarrow> Some (woken lp))"
  by (cases "df_pop (snd (df_take_overflow (lp_dirty lp)))")
     (auto simp: wake_turn_def woken_def df_take_overflow_def Let_def map_conv_bind_option comp_def split: option.split)

lemma woken_ok: "loop_ok limits lp \<Longrightarrow> loop_ok limits (woken lp)"
proof -
  assume a: "loop_ok limits lp"
  then have "df_ok (snd (df_take_overflow (lp_dirty lp)))" by (simp add: loop_ok_def df_ok_def df_take_overflow_def)
  from df_pop_ok [OF this] a show ?thesis by (simp add: woken_def loop_ok_def df_take_overflow_def Let_def)
qed

lemma wake_ok:
  assumes "loop_ok limits lp" and "0 < rl_dirty_files limits" and "wake_turn lg cd now clock spent limits fs roots lp = Some lp'"
  shows "loop_ok limits lp'"
  using assms(3) woken_ok [OF assms(1)] visit_ok [OF woken_ok [OF assms(1)] assms(2)]
  by (auto simp: wake_turn_alt loop_ok_def split: option.splits)

lemma wake_ready:
  assumes "wake_turn lg cd now clock spent limits fs roots lp = Some lp'" and "is_ready (lp_listener lp')" and "distinct (map fst (lp_cursors lp))"
  shows "is_ready (lp_listener lp) \<and> nothing_skipped (reads lg cd now clock spent limits fs roots lp lp') limits fs (lp_cursors lp) (lp_cursors lp')"
proof -
  let ?w = "woken lp"
  obtain lp1 where lp1: "(case fst (df_pop (snd (df_take_overflow (lp_dirty lp)))) of
          Some (p, created) \<Rightarrow> visit_path lg cd now clock spent limits fs roots p created ?w | None \<Rightarrow> Some ?w) = Some lp1"
    "lp_listener lp' = lp_listener lp1" "lp_cursors lp' = lp_cursors lp1"
    using assms(1) by (auto simp: wake_turn_alt)
  have d: "distinct (map fst (lp_cursors ?w))" using assms(3) by (simp add: woken_def Let_def)
  have v: "is_ready (lp_listener ?w) \<and> nothing_skipped (reads lg cd now clock spent limits fs roots ?w lp1) limits fs (lp_cursors ?w) (lp_cursors lp1)"
    using lp1(1) visit_ready [OF _ _ d, of lg cd now clock spent limits fs roots] assms(2) lp1(2)
    by (auto simp: nothing_skipped_drained split: option.splits)
  then have "lp_listener ?w = lp_listener lp" "lp_cursors ?w = lp_cursors lp" by (auto simp: woken_def Let_def split: if_splits)
  with v lp1 show ?thesis by (simp add: reads_def [abs_def])
qed

section \<open>The branches within the protocol\<close>

lemma evolves_fence: "evolves lg 1 l (if b then fence l else l)"
  using evolves.fenced [OF evolves.same, of lg 0 l] evolves.same [of lg 1 l] by simp

lemma woken_evolves: "evolves lg 1 (lp_listener lp) (lp_listener (woken lp))"
  using evolves_fence [of lg "lp_listener lp" "df_overflow (lp_dirty lp)"] by (simp add: woken_def Let_def split: if_splits)

lemma forget_gone_evolves: "evolves lg 1 (lp_listener lp) (lp_listener (forget_gone fs p lp))"
  using evolves_fence [of lg "lp_listener lp" True] evolves_fence [of lg "lp_listener lp" False]
  by (simp add: forget_gone_def split: option.split)

lemma attach_evolves: "evolves lg 3 (lp_listener lp) (lp_listener (attach_file now limits fs src_root p created lp))"
proof -
  let ?f = "\<lambda>b k. if b then fence k else k"
  obtain a b c where "lp_listener (attach_file now limits fs src_root p created lp) = ?f c (?f b (?f a (lp_listener lp)))"
  proof (cases "open_cursor limits (fv_env fs p) (\<not> created \<and> \<not> list_ex (\<lambda>(known, _). path_starts_with known src_root) (lp_cursors lp))")
    case (Inl e)
    show ?thesis by (rule that [of True]) (simp add: attach_file_def Let_def Inl)
  next
    case (Inr c)
    show ?thesis by (rule that [of False]) (simp add: attach_file_def Let_def Inr)
  qed
  moreover have "evolves lg (1 + 1 + 1) (lp_listener lp) (?f c (?f b (?f a (lp_listener lp))))"
    by (intro evolves_trans [OF evolves_fence] evolves_fence)
  ultimately show ?thesis by (simp add: numeral_3_eq_3 split del: if_split)
qed

lemma count_evolves: "evolves lg n l k \<Longrightarrow> evolves lg n l (count_read t b k)" "evolves lg n l k \<Longrightarrow> evolves lg n l (count_process t k)"
  unfolding count_read_def count_process_def by (rule evolves.counted; assumption)+

lemma read_file_evolves:
  assumes "read_file lg cd now clock spent limits fs p src lp = Some lp'"
  shows "evolves lg 2 (lp_listener lp) (lp_listener lp')"
proof -
  have fed: "evolves lg 2 (lp_listener lp) (count_process spent (settle r))" if "process_data lg cd clock content src (count_read spent n (lp_listener lp)) = Some r"
    for content n r
    using count_evolves(2) [OF evolves.fed [OF count_evolves(1) [OF evolves.same] that, of 0]] by (simp add: numeral_2_eq_2)
  have idle: "evolves lg 2 (lp_listener lp) (count_process spent (count_read spent n (lp_listener lp)))" for n
    by (intro count_evolves evolves.same)
  have fence: "evolves lg 2 (lp_listener lp) (fence (lp_listener lp))" using evolves_mono [OF evolves_fence [of lg _ True], of 2] by simp
  show ?thesis using assms fed idle fence evolves.same [of lg 2 "lp_listener lp"]
    by (auto simp: read_file_def Let_def split: option.splits prod.splits sum.splits bind_splits if_splits)
qed

lemma visit_evolves:
  assumes "visit_path lg cd now clock spent limits fs roots p created lp = Some lp'"
  shows "evolves lg 6 (lp_listener lp) (lp_listener lp')"
proof (cases "find (\<lambda>(src_root, _). path_starts_with p src_root) roots")
  case (Some x)
  obtain src_root src where x: "x = (src_root, src)" by (cases x)
  let ?g = "forget_gone fs p lp"
  let ?a = "if map_of (lp_cursors ?g) p = None then attach_file now limits fs src_root p created ?g else ?g"
  have "evolves lg 3 (lp_listener ?g) (lp_listener ?a)" using attach_evolves evolves.same by auto
  from evolves_trans [OF this forget_gone_evolves] have a: "evolves lg 4 (lp_listener lp) (lp_listener ?a)" by simp
  show ?thesis
  proof (cases "fv_still_file fs p")
    case False
    with assms Some x have "lp' = ?g" by (simp add: visit_path_def)
    with evolves_mono [OF forget_gone_evolves, of 6] show ?thesis by simp
  next
    case True
    with assms Some x have "read_file lg cd now clock spent limits fs p src ?a = Some lp'" by (simp add: visit_path_def Let_def)
    from evolves_trans [OF read_file_evolves [OF this] a] show ?thesis by simp
  qed
next
  case None
  with assms show ?thesis by (simp add: visit_path_def evolves.same)
qed

lemma wake_evolves:
  assumes "wake_turn lg cd now clock spent limits fs roots lp = Some lp'"
  shows "evolves lg 7 (lp_listener lp) (lp_listener lp')"
proof -
  from assms consider "lp_listener lp' = lp_listener (woken lp)"
    | p created k where "visit_path lg cd now clock spent limits fs roots p created (woken lp) = Some k" "lp_listener lp' = lp_listener k"
    by (auto simp: wake_turn_alt split: option.splits)
  then show ?thesis
  proof cases
    case 1
    with evolves_mono [OF woken_evolves, of 7] show ?thesis by simp
  next
    case 2
    from evolves_trans [OF visit_evolves [OF 2(1)] woken_evolves] 2(2) show ?thesis by simp
  qed
qed

lemma maintenance_evolves: "evolves lg 2 (lp_listener lp) (lp_listener (maintenance now limits fs lp))"
proof -
  let ?l = "lp_listener lp"
  have c: "evolves lg 1 ?l (expire_validation now (?l\<lparr>ln_stats := st\<rparr>))" for st
    using evolves.expired [OF evolves.counted [OF evolves.same], of lg 0] by simp
  have "evolves lg 2 ?l (fence_expired now limits k)" if "evolves lg 1 ?l k" for k
    using that evolves.fenced [OF that] evolves_mono [OF that, of 2] by (simp add: fence_expired_def numeral_2_eq_2)
  from this [OF c] show ?thesis by (simp add: maintenance_def Let_def)
qed

lemma joined_evolves: "snapshot_joined now r lp = Inr lp' \<Longrightarrow> evolves lg 1 (lp_listener lp) (lp_listener lp')"
  using evolves_fence [of lg "lp_listener lp" True] evolves_fence [of lg "lp_listener lp" False]
  by (auto simp: snapshot_joined_def split: option.splits sum.splits)

section \<open>Runs of the loop\<close>

text \<open>
  The states the loop reaches under \<open>limits\<close>: its branches in any order, notifications between them, and whatever the snapshot task and the
  connections do to the shared listener while the loop does not hold its lock.
\<close>

inductive loop_reached :: "(u64 \<Rightarrow> u32) \<Rightarrow> codecs \<Rightarrow> resource_limits \<Rightarrow> (path \<times> event_source) list \<Rightarrow> listen_loop \<Rightarrow> bool"
  for lg cd limits roots where
  start: "loop_reached lg cd limits roots (listen_start now limits l)"
| notified: "loop_reached lg cd limits roots lp \<Longrightarrow> on_notification r (lp_dirty lp) = (queue, w) \<Longrightarrow>
    loop_reached lg cd limits roots (lp\<lparr>lp_dirty := queue, lp_wake := lp_wake lp \<or> w\<rparr>)"
| shared: "loop_reached lg cd limits roots lp \<Longrightarrow> loop_reached lg cd limits roots (lp\<lparr>lp_listener := l\<rparr>)"
| maintained: "loop_reached lg cd limits roots lp \<Longrightarrow> loop_reached lg cd limits roots (maintenance now limits fs lp)"
| woke: "loop_reached lg cd limits roots lp \<Longrightarrow> lp_wake lp \<Longrightarrow> wake_turn lg cd now clock spent limits fs roots lp = Some lp' \<Longrightarrow>
    loop_reached lg cd limits roots lp'"
| joined: "loop_reached lg cd limits roots lp \<Longrightarrow> lp_snapshots lp \<noteq> 0 \<Longrightarrow> snapshot_joined now r lp = Inr lp' \<Longrightarrow>
    loop_reached lg cd limits roots lp'"
| ticked: "loop_reached lg cd limits roots lp \<Longrightarrow> loop_reached lg cd limits roots (snapshot_tick lp)"

lemma loop_reached_ok: "loop_reached lg cd limits roots lp \<Longrightarrow> 0 < rl_dirty_files limits \<Longrightarrow> loop_ok limits lp"
proof (induction rule: loop_reached.induct)
  case (start now l)
  then show ?case by (simp add: listen_start_def loop_ok_def df_ok_def df_new_def)
next
  case (notified lp r queue w)
  with on_notification_ok [of "lp_dirty lp" r] show ?case by (simp add: loop_ok_def)
next
  case (joined lp now r lp')
  then show ?case by (auto simp: snapshot_joined_def loop_ok_def split: option.splits)
next
  case (maintained lp now fs)
  then show ?case by (simp add: maintenance_ok)
next
  case (woke lp now clock spent fs lp')
  then show ?case using wake_ok by blast
qed (simp_all add: loop_ok_def snapshot_tick_def)

section \<open>Properties\<close>

text \<open>
  C7. A turn of the loop after which the book is still served has lost no source data: the book was served before it, every file that was open is
  still open at the offset it had, or was read on from there and the listener accepted all records that completed, or had been read to its
  end; and a file opened in the turn is read from its first byte. In every other case (an overflow of the notifications, a file
  removed or replaced with unread data, no room for a new file, an unknown offset, a record that is too long or not accepted) the book is fenced.
\<close>

theorem no_unread_data_dropped:
  assumes "loop_reached lg cd limits roots lp" and "0 < rl_dirty_files limits"
    and "wake_turn lg cd now clock spent limits fs roots lp = Some lp'" and "is_ready (lp_listener lp')"
  shows "is_ready (lp_listener lp) \<and>
    nothing_skipped (reads lg cd now clock spent limits fs roots lp lp') limits fs (lp_cursors lp) (lp_cursors lp')"
  using wake_ready [OF assms(3,4)] loop_reached_ok [OF assms(1,2)] by (simp add: loop_ok_def)

subsection \<open>An instance\<close>

definition one_file :: path where
  "one_file = [''d'', ''f'']"

definition one_file_view :: fs_view where
  "one_file_view = \<lparr>fv_exists = (\<lambda>_. True), fv_is_file = (\<lambda>_. True), fv_still_file = (\<lambda>_. True),
     fv_env = (\<lambda>_. sample_env ''ab''), fv_reopen = (\<lambda>_. sample_env ''ab'')\<rparr>"

definition notified_loop :: listen_loop where
  "notified_loop =
     \<lparr>lp_listener = (listener_new None False scope_all)\<lparr>ln_order_book_state := Some (demo_state 7 False), ln_limits := demo_limits\<rparr>,
      lp_dirty = \<lparr>df_paths = [one_file], df_created = [one_file \<mapsto> True], df_limit = rl_dirty_files demo_limits, df_overflow = False\<rparr>,
      lp_cursors = [], lp_wake = True, lp_snapshots = 0, lp_recovery_retry_at = from_secs 5\<rparr>"

lemma notified_loop_reached: "loop_reached int_log10 demo_codecs demo_limits [([''d''], Fills)] notified_loop"
proof -
  let ?l = "(listener_new None False scope_all)\<lparr>ln_order_book_state := Some (demo_state 7 False)\<rparr>"
  have "on_notification (FsEvent KindCreate [one_file]) (lp_dirty (listen_start 0 demo_limits ?l)) = (lp_dirty notified_loop, True)"
    by (simp add: on_notification_def listen_start_def notified_loop_def df_new_def df_push_def demo_limits_def)
  from notified [OF start this] show ?thesis by (simp add: listen_start_def notified_loop_def)
qed

theorem no_unread_data_dropped_witness:
  "\<exists>lp'. wake_turn int_log10 demo_codecs 0 (\<lambda>_. 0) \<lparr>tt_lock_wait = 0, tt_read = 0, tt_process = 0\<rparr> demo_limits one_file_view
       [([''d''], Fills)] notified_loop = Some lp' \<and> map fst (lp_cursors lp') = [one_file] \<and>
     (\<exists>c. open_cursor demo_limits (sample_env ''ab'') False = Inr c \<and> fc_offset c = 0)"
proof -
  let ?t = "\<lparr>tt_lock_wait = 0, tt_read = 0, tt_process = 0\<rparr>" and ?r = "[([''d''], Fills)]"
  obtain lp' where lp': "wake_turn int_log10 demo_codecs 0 (\<lambda>_. 0) ?t demo_limits one_file_view ?r notified_loop = Some lp'"
    "is_ready (lp_listener lp')" "map fst (lp_cursors lp') = [one_file]"
    by (simp add: wake_turn_alt woken_def notified_loop_def df_take_overflow_def df_pop_def visit_path_def path_starts_with_def one_file_def
        forget_gone_def one_file_view_def attach_file_def make_room_def retain_cursors_def open_cursor_def fc_open_def sample_env_def with_max_age_def
        read_file_def read_turn_def verify_file_def partial_expired_def demo_limits_def is_ready_def count_read_def count_process_def Let_def)
  have "0 < rl_dirty_files demo_limits" by (simp add: demo_limits_def)
  from no_unread_data_dropped [OF notified_loop_reached this lp'(1,2)] lp' have
    "\<exists>c. open_cursor demo_limits (fv_env one_file_view one_file) False = Inr c"
    by (auto simp: nothing_skipped_def notified_loop_def map_of_eq_None_iff)
  with lp' show ?thesis by (auto simp: one_file_view_def open_cursor_def fc_open_def sample_env_def with_max_age_def)
qed

end
