(* ===== verification/Loop_Progress.thy ===== *)
theory Loop_Progress
  imports Listen_Loop
begin

text \<open>
  The listening loop makes progress: once the node stops writing, the files it has open are read to their ends in a bounded number of turns.
\<close>

section \<open>Turns until the loop sleeps\<close>

text \<open>
  The loop of \<open>hl_listen_with_source\<close> while only its wake-up branch runs, for at most \<open>n\<close> turns; \<open>i\<close> numbers the turn. The result is missing when the loop has not
  gone to sleep by then; the inner \<open>None\<close> is a panic.
\<close>

fun wake_turns ::
    "(u64 \<Rightarrow> u32) \<Rightarrow> codecs \<Rightarrow> resource_limits \<Rightarrow> (path \<times> event_source) list \<Rightarrow> (nat \<Rightarrow> instant) \<Rightarrow> (nat \<Rightarrow> nat \<Rightarrow> instant) \<Rightarrow> (nat \<Rightarrow> turn_times)
     \<Rightarrow> (nat \<Rightarrow> listen_loop \<Rightarrow> fs_view) \<Rightarrow> nat \<Rightarrow> nat \<Rightarrow> listen_loop \<Rightarrow> listen_loop option option" where
  "wake_turns lg cd limits roots now clock spent view i 0 lp = (if lp_wake lp then None else Some (Some lp))"
| "wake_turns lg cd limits roots now clock spent view i (Suc n) lp =
     (if \<not> lp_wake lp then Some (Some lp)
      else (case wake_turn lg cd (now i) (clock i) (spent i) limits (view i lp) roots lp of
              None \<Rightarrow> Some None
            | Some lp' \<Rightarrow> wake_turns lg cd limits roots now clock spent view (Suc i) n lp'))"

section \<open>Files nobody writes to\<close>

text \<open>
  What the file system answers about the open files when the file \<open>p\<close> has the content \<open>contents p\<close>: a read that does not fail gives the bytes from the
  cursor's offset on, as many as asked for; an open that does not fail finds the end where it is.
\<close>

definition still_files :: "(path \<Rightarrow> string) \<Rightarrow> listen_loop \<Rightarrow> fs_view \<Rightarrow> bool" where
  "still_files contents lp fs \<longleftrightarrow> (\<forall>p c. map_of (lp_cursors lp) p = Some c \<longrightarrow>
     fv_is_file fs p \<and> fv_still_file fs p \<and>
     (\<forall>n bytes. fe_read (fv_env fs p) n = Inr bytes \<longrightarrow> bytes = take n (drop (unat (fc_offset c)) (contents p))) \<and>
     (\<forall>pos. fe_seek_end (fv_reopen fs p) = Inr pos \<longrightarrow> unat pos = length (contents p)))"

definition unread :: "(path \<Rightarrow> string) \<Rightarrow> path \<Rightarrow> file_cursor \<Rightarrow> nat" where
  "unread contents p c = length (contents p) - unat (fc_offset c)"

text \<open>The turns a file needs: one for each full or partial turn's worth of bytes, and one that finds nothing more.\<close>

definition file_turns :: "resource_limits \<Rightarrow> nat \<Rightarrow> nat" where
  "file_turns limits bytes = (bytes + rl_turn_bytes limits - 1) div rl_turn_bytes limits + 1"

definition turns_needed :: "resource_limits \<Rightarrow> (path \<Rightarrow> string) \<Rightarrow> listen_loop \<Rightarrow> nat" where
  "turns_needed limits contents lp = (\<Sum>p\<leftarrow>df_paths (lp_dirty lp). case map_of (lp_cursors lp) p of
     Some c \<Rightarrow> file_turns limits (unread contents p c) | None \<Rightarrow> 1)"

lemma file_turns_less:
  assumes "0 < rl_turn_bytes limits" and "0 < b"
  shows "file_turns limits b = Suc (file_turns limits (b - rl_turn_bytes limits))"
proof (cases "b \<le> rl_turn_bytes limits")
  case True
  then have "b + rl_turn_bytes limits - 1 = rl_turn_bytes limits + (b - 1)" "b - 1 < rl_turn_bytes limits" using assms by auto
  then have "(b + rl_turn_bytes limits - 1) div rl_turn_bytes limits = 1" by (metis add_cancel_left_right assms(1) div_add_self1 div_less less_not_refl2 plus_1_eq_Suc Suc_eq_plus1 One_nat_def)
  with True assms show ?thesis by (simp add: file_turns_def)
next
  case False
  then have "b + rl_turn_bytes limits - 1 = rl_turn_bytes limits + (b - rl_turn_bytes limits + rl_turn_bytes limits - 1)" using assms by simp
  then have "(b + rl_turn_bytes limits - 1) div rl_turn_bytes limits = Suc ((b - rl_turn_bytes limits + rl_turn_bytes limits - 1) div rl_turn_bytes limits)"
    using assms(1) by (metis div_add_self1 less_not_refl2 Suc_eq_plus1)
  then show ?thesis by (simp add: file_turns_def)
qed

section \<open>One turn\<close>

text \<open>
  Every pending path is an open file below one of the roots, no notification was lost, and no cursor is past the end of its file.
\<close>

definition progressing :: "resource_limits \<Rightarrow> (path \<times> event_source) list \<Rightarrow> (path \<Rightarrow> string) \<Rightarrow> listen_loop \<Rightarrow> bool" where
  "progressing limits roots contents lp \<longleftrightarrow> loop_ok limits lp \<and> \<not> df_overflow (lp_dirty lp) \<and> lp_wake lp = (df_paths (lp_dirty lp) \<noteq> []) \<and>
     (\<forall>p \<in> set (df_paths (lp_dirty lp)). p \<in> fst ` set (lp_cursors lp) \<and> list_ex (\<lambda>(src_root, _). path_starts_with p src_root) roots) \<and>
     (\<forall>p c. map_of (lp_cursors lp) p = Some c \<longrightarrow> unat (fc_offset c) \<le> length (contents p) \<and> length (contents p) < 2 ^ 64)"

text \<open>A successful read moves the cursor by what it read.\<close>

lemma read_turn_moves:
  assumes "read_turn now env budget c = (Inr (content, more_data, n), c')"
  shows "\<exists>bytes. fe_read env budget = Inr bytes \<and> n = length bytes \<and> more_data = (bytes \<noteq> []) \<and> fc_offset c' = fc_offset c + of_nat (length bytes)"
  using assms by (auto simp: read_turn_def Let_def split: sum.splits if_splits prod.splits option.splits)

text \<open>
  After a visit to the file \<open>p\<close> either it is read on and pending again, or its cursor is at the end of the file, or it is not open any more and the book is fenced.
\<close>

definition visited :: "resource_limits \<Rightarrow> (path \<Rightarrow> string) \<Rightarrow> path \<Rightarrow> path list \<Rightarrow> file_cursor \<Rightarrow> listen_loop \<Rightarrow> bool" where
  "visited limits contents p ps c lp \<longleftrightarrow>
     (case map_of (lp_cursors lp) p of
        Some c' \<Rightarrow> unat (fc_offset c') \<le> length (contents p) \<and>
          (df_paths (lp_dirty lp) = ps @ [p] \<and> 0 < unread contents p c \<and> unread contents p c' = unread contents p c - rl_turn_bytes limits \<or>
           df_paths (lp_dirty lp) = ps \<and> unread contents p c' = 0)
      | None \<Rightarrow> df_paths (lp_dirty lp) = ps \<and> \<not> is_ready (lp_listener lp))"

lemma visited_wake [simp]: "visited limits contents p ps c (lp\<lparr>lp_wake := b\<rparr>) = visited limits contents p ps c lp"
  by (simp add: visited_def split: option.split)

lemma read_file_visited:
  assumes "read_file lg cd now clock spent limits fs p src lp = Some lp'" and "map_of (lp_cursors lp) p = Some c" and "still_files contents lp fs"
    and "0 < rl_turn_bytes limits" and "unat (fc_offset c) \<le> length (contents p)" and "length (contents p) < 2 ^ 64"
    and "df_paths (lp_dirty lp) = ps" and "df_created (lp_dirty lp) p = None" and "length ps < df_limit (lp_dirty lp)"
    and "\<not> df_overflow (lp_dirty lp)"
  shows "visited limits contents p ps c lp' \<and> \<not> df_overflow (lp_dirty lp') \<and> (\<forall>q. q \<noteq> p \<longrightarrow> map_of (lp_cursors lp') q = map_of (lp_cursors lp) q)"
proof -
  let ?env = "fv_env fs p"
  obtain r c' where r: "read_turn now ?env (rl_turn_bytes limits) c = (r, c')" by fastforce
  have still: "fe_read ?env n = Inr bytes \<Longrightarrow> bytes = take n (drop (unat (fc_offset c)) (contents p))"
    "fe_seek_end (fv_reopen fs p) = Inr pos \<Longrightarrow> unat pos = length (contents p)" for n bytes pos
    using assms(2,3) by (auto simp: still_files_def)
  show ?thesis
  proof (cases r)
    case (Inl e)
    have "unread contents p k = 0 \<and> unat (fc_offset k) \<le> length (contents p)" if "open_cursor limits (fv_reopen fs p) True = Inr k" for k
      using that still(2) by (cases "fe_open (fv_reopen fs p)"; cases "fe_seek_end (fv_reopen fs p)") (auto simp: open_cursor_def fc_open_def with_max_age_def unread_def)
    with assms(1,2,7,10) r Inl show ?thesis
      by (auto simp: read_file_def visited_def Let_def update_conv' delete_conv' split: sum.splits)
  next
    case (Inr x)
    obtain content more_data n where x: "x = (content, more_data, n)" by (cases x)
    with r Inr read_turn_moves obtain bytes where b: "fe_read ?env (rl_turn_bytes limits) = Inr bytes" "more_data = (bytes \<noteq> [])"
      "fc_offset c' = fc_offset c + of_nat (length bytes)" by blast
    have len: "length bytes = min (rl_turn_bytes limits) (unread contents p c)" using still(1) [OF b(1)] by (simp add: unread_def)
    have "unat (fc_offset c) + length bytes \<le> length (contents p)" using len assms(5) by (simp add: unread_def)
    then have off: "unat (fc_offset c') = unat (fc_offset c) + length bytes"
      using assms(6) unfolding b(3) by (simp add: unat_word_ariths unat_of_nat)
    from assms(1,2) r Inr x obtain l where lp': "lp' = lp\<lparr>lp_listener := l, lp_cursors := AList.update p c' (lp_cursors lp),
        lp_dirty := (if more_data then df_push p False (lp_dirty lp) else lp_dirty lp)\<rparr>"
      by (auto simp: read_file_def Let_def split: bind_splits)
    have "more_data = (0 < length bytes)" using b(2) by simp
    then show ?thesis using assms(4,5,7-10) len off
      by (auto simp: lp' visited_def update_conv' df_push_def unread_def)
  qed
qed

lemma wake_visited:
  assumes "progressing limits roots contents lp" and "0 < rl_turn_bytes limits" and "still_files contents lp fs" and "df_paths (lp_dirty lp) = p # ps"
    and "wake_turn lg cd now clock spent limits fs roots lp = Some lp'"
  obtains c where "map_of (lp_cursors lp) p = Some c" "visited limits contents p ps c lp'" "\<not> df_overflow (lp_dirty lp')"
    "lp_wake lp' = (df_paths (lp_dirty lp') \<noteq> [])" "\<forall>q. q \<noteq> p \<longrightarrow> map_of (lp_cursors lp') q = map_of (lp_cursors lp) q"
proof -
  have ok: "df_ok (lp_dirty lp)" "df_limit (lp_dirty lp) = rl_dirty_files limits" "\<not> df_overflow (lp_dirty lp)"
    using assms(1) by (simp_all add: progressing_def loop_ok_def)
  obtain c where c: "map_of (lp_cursors lp) p = Some c" using assms(1,4) by (cases "map_of (lp_cursors lp) p") (auto simp: progressing_def map_of_eq_None_iff)
  obtain src_root src where root: "find (\<lambda>(src_root, _). path_starts_with p src_root) roots = Some (src_root, src)"
    using assms(1,4) by (cases "find (\<lambda>(src_root, _). path_starts_with p src_root) roots") (auto simp: progressing_def find_None_iff list_ex_iff)
  have w: "lp_cursors (woken lp) = lp_cursors lp" "df_paths (lp_dirty (woken lp)) = ps" "df_created (lp_dirty (woken lp)) p = None"
    "df_limit (lp_dirty (woken lp)) = rl_dirty_files limits" "\<not> df_overflow (lp_dirty (woken lp))"
    using ok assms(4) by (simp_all add: woken_def df_take_overflow_def df_pop_def Let_def)
  have still: "still_files contents (woken lp) fs" using assms(3) by (simp add: still_files_def w(1))
  from still c have f: "forget_gone fs p (woken lp) = woken lp" "fv_still_file fs p" by (auto simp: still_files_def forget_gone_def w(1))
  from assms(4,5) obtain k where k: "read_file lg cd now clock spent limits fs p src (woken lp) = Some k" "lp' = k\<lparr>lp_wake := df_paths (lp_dirty k) \<noteq> []\<rparr>"
    using root c f by (auto simp: wake_turn_alt df_take_overflow_def df_pop_def visit_path_def w(1) split: option.splits)
  have "length ps < rl_dirty_files limits" using ok assms(4) by (simp add: df_ok_def)
  from read_file_visited [OF k(1) _ still assms(2) _ _ w(2,3) _ w(5), unfolded w(1,4), OF c _ _ this] assms(1) c
  have "visited limits contents p ps c k \<and> \<not> df_overflow (lp_dirty k) \<and> (\<forall>q. q \<noteq> p \<longrightarrow> map_of (lp_cursors k) q = map_of (lp_cursors lp) q)"
    by (auto simp: progressing_def)
  with c that k(2) show thesis by simp
qed

lemma visited_turns:
  assumes "map_of (lp_cursors lp) p = Some c" and "df_paths (lp_dirty lp) = p # ps" and "p \<notin> set ps" and "visited limits contents p ps c lp'"
    and "\<forall>q. q \<noteq> p \<longrightarrow> map_of (lp_cursors lp') q = map_of (lp_cursors lp) q" and "0 < rl_turn_bytes limits"
  shows "turns_needed limits contents lp' < turns_needed limits contents lp"
proof -
  define t where "t = (\<lambda>(lp :: listen_loop) p. case map_of (lp_cursors lp) p of Some c \<Rightarrow> file_turns limits (unread contents p c) | None \<Rightarrow> 1)"
  have same: "sum_list (map (t lp') ps) = sum_list (map (t lp) ps)"
    using assms(3,5) by (intro arg_cong [where f = sum_list] map_cong) (auto simp: t_def)
  have lp: "turns_needed limits contents lp = file_turns limits (unread contents p c) + sum_list (map (t lp) ps)"
    by (simp add: turns_needed_def t_def assms(1,2))
  have lp': "turns_needed limits contents lp' = sum_list (map (t lp') (df_paths (lp_dirty lp')))" by (simp add: turns_needed_def t_def)
  from assms(4) consider k where "df_paths (lp_dirty lp') = ps @ [p]" "map_of (lp_cursors lp') p = Some k" "0 < unread contents p c"
      "unread contents p k = unread contents p c - rl_turn_bytes limits"
    | "df_paths (lp_dirty lp') = ps" by (auto simp: visited_def split: option.splits)
  then show ?thesis
  proof cases
    case 1
    with file_turns_less [OF assms(6) 1(3)] show ?thesis by (simp add: lp lp' same) (simp add: t_def)
  qed (simp add: lp lp' same file_turns_def)
qed

lemma wake_progress:
  assumes "progressing limits roots contents lp" and "0 < rl_turn_bytes limits" and "0 < rl_dirty_files limits" and "still_files contents lp fs"
    and "lp_wake lp" and "wake_turn lg cd now clock spent limits fs roots lp = Some lp'"
  shows "progressing limits roots contents lp'" "turns_needed limits contents lp' < turns_needed limits contents lp"
    "\<forall>p c. map_of (lp_cursors lp') p = Some c \<longrightarrow> p \<in> fst ` set (lp_cursors lp)"
proof -
  obtain p ps where ps: "df_paths (lp_dirty lp) = p # ps" using assms(1,5) by (cases "df_paths (lp_dirty lp)") (auto simp: progressing_def)
  obtain c where c: "map_of (lp_cursors lp) p = Some c" and v: "visited limits contents p ps c lp'" "\<not> df_overflow (lp_dirty lp')"
    "lp_wake lp' = (df_paths (lp_dirty lp') \<noteq> [])" "\<forall>q. q \<noteq> p \<longrightarrow> map_of (lp_cursors lp') q = map_of (lp_cursors lp) q"
    by (rule wake_visited [OF assms(1,2,4) ps assms(6)])
  have ok: "loop_ok limits lp'" using wake_ok [OF _ assms(3,6)] assms(1) by (simp add: progressing_def)
  have p: "p \<notin> set ps" using assms(1) ps by (auto simp: progressing_def loop_ok_def df_ok_def)
  from visited_turns [OF c ps p v(1,4) assms(2)] show "turns_needed limits contents lp' < turns_needed limits contents lp" .
  show "\<forall>p c. map_of (lp_cursors lp') p = Some c \<longrightarrow> p \<in> fst ` set (lp_cursors lp)"
    using v(4) c by (metis map_of_eq_None_iff option.distinct(1))
  have opened: "q \<in> fst ` set (lp_cursors lp') \<longleftrightarrow> map_of (lp_cursors lp') q \<noteq> None" for q by (simp add: map_of_eq_None_iff)
  have "q \<in> fst ` set (lp_cursors lp')" if "q \<in> set (df_paths (lp_dirty lp'))" for q
    using that v(1,4) assms(1) ps p opened [of q] map_of_eq_None_iff [of "lp_cursors lp" q]
    by (cases "q = p") (auto simp: visited_def progressing_def simp del: map_of_eq_None_iff split: option.splits)
  moreover have "set (df_paths (lp_dirty lp')) \<subseteq> set (df_paths (lp_dirty lp))" using v(1) ps by (auto simp: visited_def split: option.splits)
  moreover have "unat (fc_offset k) \<le> length (contents q) \<and> length (contents q) < 2 ^ 64" if "map_of (lp_cursors lp') q = Some k" for q k
    using that v(1,4) assms(1) c by (cases "q = p") (auto simp: visited_def progressing_def)
  ultimately show "progressing limits roots contents lp'" using assms(1) ok v(2,3) unfolding progressing_def by blast
qed

section \<open>Until it sleeps\<close>

text \<open>A file that was pending is still pending, or read to its end, or the book is fenced.\<close>

definition accounted :: "(path \<Rightarrow> string) \<Rightarrow> path \<Rightarrow> listen_loop \<Rightarrow> bool" where
  "accounted contents p lp \<longleftrightarrow>
     (case map_of (lp_cursors lp) p of
        Some c \<Rightarrow> p \<in> set (df_paths (lp_dirty lp)) \<or> unat (fc_offset c) = length (contents p)
      | None \<Rightarrow> p \<notin> set (df_paths (lp_dirty lp)) \<and> \<not> is_ready (lp_listener lp))"

lemma wake_accounted:
  assumes "progressing limits roots contents lp" and "0 < rl_turn_bytes limits" and "still_files contents lp fs"
    and "lp_wake lp" and "wake_turn lg cd now clock spent limits fs roots lp = Some lp'" and "accounted contents q lp"
  shows "accounted contents q lp'"
proof -
  obtain p ps where ps: "df_paths (lp_dirty lp) = p # ps" using assms(1,4) by (cases "df_paths (lp_dirty lp)") (auto simp: progressing_def)
  obtain c where c: "map_of (lp_cursors lp) p = Some c" and v: "visited limits contents p ps c lp'"
    "\<forall>q. q \<noteq> p \<longrightarrow> map_of (lp_cursors lp') q = map_of (lp_cursors lp) q"
    by (rule wake_visited [OF assms(1,2,3) ps assms(5)])
  have p: "p \<notin> set ps" "distinct (map fst (lp_cursors lp))" using assms(1) ps by (auto simp: progressing_def loop_ok_def df_ok_def)
  have r: "is_ready (lp_listener lp')  \<Longrightarrow> is_ready (lp_listener lp)" using wake_ready [OF assms(5) _ p(2)] by blast
  show ?thesis
  proof (cases "q = p")
    case True
    with v(1) p(1) show ?thesis by (auto simp: accounted_def visited_def unread_def split: option.splits)
  next
    case False
    with v assms(6) r ps show ?thesis by (auto simp: accounted_def visited_def split: option.splits)
  qed
qed

lemma wake_turns_progress:
  assumes "0 < rl_turn_bytes limits" and "0 < rl_dirty_files limits" and "\<forall>i lp. still_files contents lp (view i lp)"
  shows "progressing limits roots contents lp \<Longrightarrow> turns_needed limits contents lp \<le> n \<Longrightarrow>
    \<exists>r. wake_turns lg cd limits roots now clock spent view i n lp = Some r \<and>
      (\<forall>lp'. r = Some lp' \<longrightarrow> progressing limits roots contents lp' \<and> \<not> lp_wake lp' \<and> (\<forall>p. accounted contents p lp \<longrightarrow> accounted contents p lp'))"
proof (induction n arbitrary: i lp)
  case 0
  then have "df_paths (lp_dirty lp) = []" by (cases "df_paths (lp_dirty lp)") (auto simp: turns_needed_def file_turns_def split: option.splits)
  with 0 show ?case by (auto simp: progressing_def)
next
  case (Suc n)
  show ?case
  proof (cases "lp_wake lp")
    case True
    let ?w = "wake_turn lg cd (now i) (clock i) (spent i) limits (view i lp) roots lp"
    show ?thesis
    proof (cases ?w)
      case (Some lp1)
      have still: "still_files contents lp (view i lp)" using assms(3) by simp
      note step = wake_progress [OF Suc.prems(1) assms(1,2) still True Some] wake_accounted [OF Suc.prems(1) assms(1) still True Some]
      from step(2) Suc.prems(2) have "turns_needed limits contents lp1 \<le> n" by simp
      from Suc.IH [OF step(1) this, of "Suc i"] step(4) True Some show ?thesis by fastforce
    qed (simp add: True)
  next
    case False
    with Suc.prems show ?thesis by simp
  qed
qed

section \<open>Properties\<close>

text \<open>
  C8. The loop does not starve and does not spin: once the node stops writing, the loop goes to sleep after at most as many turns as the unread bytes of the
  pending files fill, rounded up for each file, and one more for each (unless a record makes it panic). By then every file that was pending has been read to its end; or it could
  not be and is no longer open, and then the book is fenced. The pending files are open, which they are from their first visit on.
\<close>

theorem pending_files_are_read:
  assumes "progressing limits roots contents lp" and "0 < rl_turn_bytes limits" and "0 < rl_dirty_files limits"
    and "\<forall>i lp. still_files contents lp (view i lp)"
  shows "\<exists>r. wake_turns lg cd limits roots now clock spent view 0 (turns_needed limits contents lp) lp = Some r \<and>
    (\<forall>lp'. r = Some lp' \<longrightarrow> \<not> lp_wake lp' \<and> df_paths (lp_dirty lp') = [] \<and>
       (\<forall>p \<in> set (df_paths (lp_dirty lp)).
          case map_of (lp_cursors lp') p of Some c \<Rightarrow> unat (fc_offset c) = length (contents p) | None \<Rightarrow> \<not> is_ready (lp_listener lp')))"
proof -
  have pending: "accounted contents p lp" if "p \<in> set (df_paths (lp_dirty lp))" for p
    using assms(1) that by (cases "map_of (lp_cursors lp) p") (auto simp: accounted_def progressing_def map_of_eq_None_iff)
  have ended: "case map_of (lp_cursors lp') p of Some c \<Rightarrow> unat (fc_offset c) = length (contents p) | None \<Rightarrow> \<not> is_ready (lp_listener lp')"
    if "accounted contents p lp'" "df_paths (lp_dirty lp') = []" for p lp'
    using that by (auto simp: accounted_def split: option.splits)
  obtain r where r: "wake_turns lg cd limits roots now clock spent view 0 (turns_needed limits contents lp) lp = Some r"
    "\<forall>lp'. r = Some lp' \<longrightarrow> progressing limits roots contents lp' \<and> \<not> lp_wake lp' \<and> (\<forall>p. accounted contents p lp \<longrightarrow> accounted contents p lp')"
    using wake_turns_progress [OF assms(2,3,4,1) order_refl] by blast
  have "\<not> lp_wake lp' \<and> df_paths (lp_dirty lp') = []" if "r = Some lp'" for lp' using r(2) that by (auto simp: progressing_def)
  with r pending ended show ?thesis by blast
qed

subsection \<open>An instance\<close>

text \<open>One open file with two bytes that are not a full record yet.\<close>

definition half_record :: "nat \<Rightarrow> listen_loop \<Rightarrow> fs_view" where
  "half_record i lp =
     (let env = (\<lambda>p. (sample_env [])\<lparr>fe_seek_end := Inr 2,
            fe_read := (\<lambda>n. Inr (take n (drop (case map_of (lp_cursors lp) p of Some c \<Rightarrow> unat (fc_offset c) | None \<Rightarrow> 0) ''ab'')))\<rparr>)
      in one_file_view\<lparr>fv_env := env, fv_reopen := env\<rparr>)"

definition opened_loop :: listen_loop where
  "opened_loop = notified_loop\<lparr>lp_cursors := [(one_file, sample_cursor 0 [] None 5)]\<rparr>"

theorem pending_files_are_read_witness:
  "turns_needed demo_limits (\<lambda>_. ''ab'') opened_loop = 2 \<and>
   (\<exists>lp' c. wake_turns int_log10 demo_codecs demo_limits [([''d''], Fills)] (\<lambda>_. 0) (\<lambda>_ _. 0) (\<lambda>_. \<lparr>tt_lock_wait = 0, tt_read = 0, tt_process = 0\<rparr>)
       half_record 0 2 opened_loop = Some (Some lp') \<and> lp_cursors lp' = [(one_file, c)] \<and> unat (fc_offset c) = 2 \<and> \<not> lp_wake lp')"
proof -
  let ?run = "wake_turns int_log10 demo_codecs demo_limits [([''d''], Fills)] (\<lambda>_. 0) (\<lambda>_ _. 0) (\<lambda>_. \<lparr>tt_lock_wait = 0, tt_read = 0, tt_process = 0\<rparr>)
    half_record 0 2 opened_loop"
  have n: "turns_needed demo_limits (\<lambda>_. ''ab'') opened_loop = 2"
    by (simp add: turns_needed_def file_turns_def unread_def opened_loop_def notified_loop_def demo_limits_def sample_cursor_def)
  have p: "progressing demo_limits [([''d''], Fills)] (\<lambda>_. ''ab'') opened_loop"
    by (simp add: progressing_def loop_ok_def df_ok_def opened_loop_def notified_loop_def demo_limits_def one_file_def path_starts_with_def sample_cursor_def)
  have f: "\<forall>i lp. still_files (\<lambda>_. ''ab'') lp (half_record i lp)"
    by (auto simp: still_files_def half_record_def one_file_view_def sample_env_def Let_def)
  have "\<exists>lp' c. ?run = Some (Some lp') \<and> lp_cursors lp' = [(one_file, c)]"
    unfolding numeral_2_eq_2
    by (simp add: wake_turn_alt woken_def opened_loop_def notified_loop_def df_take_overflow_def df_pop_def df_push_def visit_path_def
        path_starts_with_def one_file_def forget_gone_def half_record_def one_file_view_def read_file_def read_turn_def verify_file_def sample_env_def
        sample_cursor_def partial_expired_def elapsed_def demo_limits_def count_read_def count_process_def Let_def)
  then obtain lp' c where run: "?run = Some (Some lp')" "lp_cursors lp' = [(one_file, c)]" by blast
  have "0 < rl_turn_bytes demo_limits" "0 < rl_dirty_files demo_limits" by (simp_all add: demo_limits_def)
  from pending_files_are_read [OF p this f, of int_log10 demo_codecs "\<lambda>_. 0" "\<lambda>_ _. 0" "\<lambda>_. \<lparr>tt_lock_wait = 0, tt_read = 0, tt_process = 0\<rparr>"] n run
  have "unat (fc_offset c) = 2 \<and> \<not> lp_wake lp'" by (auto simp: opened_loop_def notified_loop_def)
  with n run show ?thesis by blast
qed

end
