(* ===== verification/Snapshot_Task.thy ===== *)
theory Snapshot_Task
  imports Ingestion Listener_Turns
begin

text \<open>
  One request for a snapshot of the node (\<open>fetch_snapshot\<close> of \<open>listeners/order_book/mod.rs\<close>, \<open>SnapshotFile\<close> and \<open>process_rmp_file\<close> of
  \<open>utils.rs\<close>, \<open>load_snapshots_from_json\<close> of \<open>multi_book.rs\<close>): the file it makes for the node to write to, its critical sections on the listener and
  its ways out.
\<close>

section \<open>The file of a snapshot\<close>

text \<open>
  What the operating system, the node and the clock answer during one request. \<open>sv_open\<close> is the outcome of creating the
  file when no file has its name, \<open>sv_send\<close> that of sending the request and of \<open>error_for_status\<close>, \<open>sv_read\<close> the text the node left in the file.
\<close>

record snapshot_env =
  sv_process_id :: nat
  sv_timestamp_nanos :: "int option"
  sv_open :: "unit result"
  sv_client :: "unit result"
  sv_send :: "unit result"
  sv_read :: "string result"
  sv_remove :: "unit result"
  sv_now :: instant
  sv_clone_ms :: u64
  sv_started_at_ms :: int
  sv_request_ms :: u64
  sv_completed_at_ms :: int
  sv_parse_ms :: u64
  sv_reconcile_ms :: u64

text \<open>The files there are, and the counter that all requests share.\<close>

record disk =
  dk_files :: "path set"
  dk_next :: u64

definition show_int :: "int \<Rightarrow> string" where
  "show_int i = (if i < 0 then ''-'' @ int_digits (- i) else int_digits i)"

definition snapshot_file_path :: "snapshot_env \<Rightarrow> path \<Rightarrow> u64 \<Rightarrow> path" where
  "snapshot_file_path env dir n =
     dir @ [''book-snapshot-'' @ show_int (int (sv_process_id env)) @ ''-'' @ show_int (case sv_timestamp_nanos env of Some t \<Rightarrow> t | None \<Rightarrow> 0) @ ''-'' @
       show_int (uint n) @ ''.json'']"

definition snapshot_file_create :: "snapshot_env \<Rightarrow> path \<Rightarrow> disk \<Rightarrow> path result \<times> disk" where
  "snapshot_file_create env dir d =
     (let p = snapshot_file_path env dir (dk_next d);
          d = d\<lparr>dk_next := dk_next d + 1\<rparr>
      in if p \<in> dk_files d then (Inl IoError, d)
         else (case sv_open env of
                 Inl e \<Rightarrow> (Inl e, d)
               | Inr _ \<Rightarrow> (Inr p, d\<lparr>dk_files := insert p (dk_files d)\<rparr>)))"

text \<open>Dropping the handle removes the file; that it was gone already or cannot be removed is only logged.\<close>

definition snapshot_file_drop :: "snapshot_env \<Rightarrow> path \<Rightarrow> disk \<Rightarrow> disk" where
  "snapshot_file_drop env p d = (case sv_remove env of Inl _ \<Rightarrow> d | Inr _ \<Rightarrow> d\<lparr>dk_files := dk_files d - {p}\<rparr>)"

definition process_rmp_file :: "snapshot_env \<Rightarrow> path \<Rightarrow> disk \<Rightarrow> path result \<times> disk" where
  "process_rmp_file env dir d =
     (case snapshot_file_create env dir d of
        (Inl e, d) \<Rightarrow> (Inl e, d)
      | (Inr output, d) \<Rightarrow>
          (case and_then (sv_client env) (\<lambda>_. sv_send env) of
             Inl e \<Rightarrow> (Inl e, snapshot_file_drop env output d)
           | Inr _ \<Rightarrow> (Inr output, d)))"

section \<open>The snapshot task\<close>

text \<open>\<open>parse\<close> and \<open>de\<close> are serde's readers of JSON and of one order with its user.\<close>

definition load_snapshots_from_json ::
    "(string \<Rightarrow> json result) \<Rightarrow> (json \<Rightarrow> (address \<times> l4_order) result) \<Rightarrow> string result \<Rightarrow> coin_scope
     \<Rightarrow> (u64 \<times> inner_l4_order snapshots) result" where
  "load_snapshots_from_json parse de contents scope =
     and_then contents (\<lambda>file_contents. load_snapshots_from_str parse de inner_of_l4 file_contents scope)"

text \<open>
  The task takes the listener's lock five times; \<open>others i\<close> is what the rest of the program does to the listener while the task
  does not hold it. \<open>None\<close> is a panic, which drops the file too.
\<close>

definition fetch_snapshot ::
    "(u64 \<Rightarrow> u32) \<Rightarrow> (error \<Rightarrow> string) \<Rightarrow> (string \<Rightarrow> json result) \<Rightarrow> (json \<Rightarrow> (address \<times> l4_order) result) \<Rightarrow> snapshot_env \<Rightarrow> path
     \<Rightarrow> (nat \<Rightarrow> listener \<Rightarrow> listener) \<Rightarrow> disk \<Rightarrow> listener \<Rightarrow> (unit result \<times> listener) option \<times> disk" where
  "fetch_snapshot lg render parse de env dir others d l =
     (let ((epoch, state), l') = fetch_begin (sv_now env) (sv_clone_ms env) (sv_started_at_ms env) l;
          scope = ln_scope l;
          (response, d) = process_rmp_file env dir d;
          l = fetch_answered (sv_started_at_ms env) (sv_request_ms env) (sv_completed_at_ms env) (others 0 l');
          l = others 1 l
      in (case response of
            Inr output_fln \<Rightarrow>
              (if ln_recovery_epoch l \<noteq> epoch then Some (Inr (), l)
               else
                 let snapshot = load_snapshots_from_json parse de (sv_read env) scope;
                     l = fetch_parsed (sv_parse_ms env) (others 2 l);
                     l = others 3 l
                 in (case snapshot of
                       Inr (height, expected_snapshot) \<Rightarrow> finish_snapshot lg render (sv_reconcile_ms env) epoch state expected_snapshot height l
                     | Inl _ \<Rightarrow> Some (Inr (), fetch_failed l)),
               snapshot_file_drop env output_fln d)
          | Inl _ \<Rightarrow> (Some (Inr (), fetch_failed l), d)))"

section \<open>The task by its critical sections\<close>

text \<open>
  Where a task is between two of its critical sections: not begun; waiting for the node; with the node's answer; loading the file, its epoch having been found
  current; with what it loaded; returned.
\<close>

datatype task =
    Spawned
  | Requesting u64 "order_book_state option" coin_scope
  | Answered u64 "order_book_state option" coin_scope "path result"
  | Loading u64 "order_book_state option" coin_scope path
  | Loaded u64 "order_book_state option" "(u64 \<times> inner_l4_order snapshots) result" path
  | Returned "unit result"

definition task_step ::
    "(u64 \<Rightarrow> u32) \<Rightarrow> (error \<Rightarrow> string) \<Rightarrow> (string \<Rightarrow> json result) \<Rightarrow> (json \<Rightarrow> (address \<times> l4_order) result) \<Rightarrow> snapshot_env \<Rightarrow> path
     \<Rightarrow> task \<Rightarrow> disk \<Rightarrow> listener \<Rightarrow> (task \<times> disk \<times> listener) option" where
  "task_step lg render parse de env dir t d l =
     (case t of
        Spawned \<Rightarrow>
          (case fetch_begin (sv_now env) (sv_clone_ms env) (sv_started_at_ms env) l of
             ((epoch, state), l') \<Rightarrow> Some (Requesting epoch state (ln_scope l), d, l'))
      | Requesting epoch state scope \<Rightarrow>
          (case process_rmp_file env dir d of
             (response, d') \<Rightarrow>
               Some (Answered epoch state scope response, d',
                 fetch_answered (sv_started_at_ms env) (sv_request_ms env) (sv_completed_at_ms env) l))
      | Answered epoch state scope response \<Rightarrow>
          (case response of
             Inl _ \<Rightarrow> Some (Returned (Inr ()), d, fetch_failed l)
           | Inr output_fln \<Rightarrow>
               if ln_recovery_epoch l \<noteq> epoch then Some (Returned (Inr ()), snapshot_file_drop env output_fln d, l)
               else Some (Loading epoch state scope output_fln, d, l))
      | Loading epoch state scope output_fln \<Rightarrow>
          Some (Loaded epoch state (load_snapshots_from_json parse de (sv_read env) scope) output_fln, d, fetch_parsed (sv_parse_ms env) l)
      | Loaded epoch state snapshot output_fln \<Rightarrow>
          (case snapshot of
             Inr (height, expected_snapshot) \<Rightarrow>
               map_option (\<lambda>(r, l'). (Returned r, snapshot_file_drop env output_fln d, l'))
                 (finish_snapshot lg render (sv_reconcile_ms env) epoch state expected_snapshot height l)
           | Inl _ \<Rightarrow> Some (Returned (Inr ()), snapshot_file_drop env output_fln d, fetch_failed l))
      | Returned _ \<Rightarrow> None)"

text \<open>The task alone, with the rest of the program between its sections; \<open>k\<close> sections have run and at most \<open>n\<close> more do.\<close>

fun task_run ::
    "(u64 \<Rightarrow> u32) \<Rightarrow> (error \<Rightarrow> string) \<Rightarrow> (string \<Rightarrow> json result) \<Rightarrow> (json \<Rightarrow> (address \<times> l4_order) result) \<Rightarrow> snapshot_env \<Rightarrow> path
     \<Rightarrow> (nat \<Rightarrow> listener \<Rightarrow> listener) \<Rightarrow> nat \<Rightarrow> nat \<Rightarrow> task \<Rightarrow> disk \<Rightarrow> listener \<Rightarrow> ((unit result \<times> listener) \<times> disk) option" where
  "task_run lg render parse de env dir others k 0 t d l = None"
| "task_run lg render parse de env dir others k (Suc n) t d l =
     (case task_step lg render parse de env dir t d l of
        None \<Rightarrow> None
      | Some (Returned r, d', l') \<Rightarrow> Some ((r, l'), d')
      | Some (t', d', l') \<Rightarrow> task_run lg render parse de env dir others (Suc k) n t' d' (others k l'))"

text \<open>Run to the end, the sections are \<open>fetch_snapshot\<close>: at most five, and the result is the same.\<close>

lemma task_run_fetch_snapshot:
  "task_run lg render parse de env dir others 0 5 Spawned d l =
    (case fetch_snapshot lg render parse de env dir others d l of (Some q, d') \<Rightarrow> Some (q, d') | (None, _) \<Rightarrow> None)"
proof -
  obtain e st l1 where b: "fetch_begin (sv_now env) (sv_clone_ms env) (sv_started_at_ms env) l = ((e, st), l1)" by (metis prod.collapse)
  obtain resp d1 where p: "process_rmp_file env dir d = (resp, d1)" by fastforce
  show ?thesis
    by (simp add: eval_nat_numeral task_step_def fetch_snapshot_def b p Let_def split: sum.split prod.split option.split)
qed

section \<open>The file is removed\<close>

lemma process_rmp_file_files:
  assumes "sv_remove env = Inr u"
  shows "process_rmp_file env dir d = (Inl e, d') \<Longrightarrow> dk_files d' = dk_files d"
    and "process_rmp_file env dir d = (Inr p, d') \<Longrightarrow> dk_files (snapshot_file_drop env p d') = dk_files d"
  using assms by (auto simp: process_rmp_file_def snapshot_file_create_def snapshot_file_drop_def Let_def split: sum.splits if_splits prod.splits)

lemma fetch_snapshot_files:
  assumes "sv_remove env = Inr u" and "fetch_snapshot lg render parse de env dir others d l = (r, d')"
  shows "dk_files d' = dk_files d"
  using assms(2) process_rmp_file_files [OF assms(1), of dir d]
  by (auto simp: fetch_snapshot_def Let_def split: sum.splits prod.splits)

section \<open>The task follows the protocol\<close>

lemmas step_to = reached.stepped [OF _ step.request] reached.stepped [OF _ step.outdated] reached.stepped [OF _ step.failed]
  reached.stepped [OF _ step.finished]

text \<open>Recording the request and the parsing only changes counters.\<close>

lemma fetch_counts:
  "evolves lg n l k \<Longrightarrow> evolves lg n l (fetch_answered a b c k)" "evolves lg n l k \<Longrightarrow> evolves lg n l (fetch_parsed ms k)"
  unfolding fetch_answered_def fetch_parsed_def by (rule evolves.counted; assumption)+

lemma fetch_snapshot_reached:
  assumes o: "\<forall>i k. evolves lg (n i) k (others i k)" and few: "n 0 + n 1 + n 2 + n 3 < 2 ^ 64"
    and r: "reached lg \<lparr>sy_listener = l, sy_task = None\<rparr>"
    and f: "fetch_snapshot lg render parse de env dir others d l = (Some q, d')"
  shows "reached lg \<lparr>sy_listener = snd q, sy_task = None\<rparr>"
proof -
  obtain e st l1 where b: "fetch_begin (sv_now env) (sv_clone_ms env) (sv_started_at_ms env) l = ((e, st), l1)" by (metis prod.collapse)
  obtain resp d1 where p: "process_rmp_file env dir d = (resp, d1)" by fastforce
  define l2 where "l2 = others 1 (fetch_answered (sv_started_at_ms env) (sv_request_ms env) (sv_completed_at_ms env) (others 0 l1))"
  define l3 where "l3 = others 3 (fetch_parsed (sv_parse_ms env) (others 2 l2))"
  have r1: "reached lg \<lparr>sy_listener = l1, sy_task = Some (e, st)\<rparr>" using b step_to(1) [OF r, of _ _ _ "(e, st)" l1] by simp
  have e: "unat (ln_recovery_epoch l1 - e) = 0" using fetch_begin_fields [OF b] by simp
  have ev2: "evolves lg (n 0 + n 1) l1 l2"
    unfolding l2_def by (rule evolves_trans [OF o [rule_format] fetch_counts(1) [OF o [rule_format]]])
  have ev3: "evolves lg (n 0 + n 1 + n 2 + n 3) l1 l3"
    unfolding l3_def by (rule evolves_trans [OF o [rule_format] fetch_counts(2) [OF evolves_trans [OF o [rule_format] ev2]]])
  have r2: "reached lg \<lparr>sy_listener = l2, sy_task = Some (e, st)\<rparr>" by (rule evolves_reached [OF ev2 r1]) (use e few in simp)
  have r3: "reached lg \<lparr>sy_listener = l3, sy_task = Some (e, st)\<rparr>" by (rule evolves_reached [OF ev3 r1]) (use e few in simp)
  note f = f [unfolded fetch_snapshot_def b p Let_def prod.case, folded l2_def, folded l3_def]
  have fail: "reached lg \<lparr>sy_listener = fetch_failed k, sy_task = None\<rparr>" if "reached lg \<lparr>sy_listener = k, sy_task = Some (e, st)\<rparr>" for k
    using step_to(3) [OF that] by simp
  show ?thesis
  proof (cases resp)
    case (Inl x)
    with f fail [OF r2] show ?thesis by auto
  next
    case (Inr out)
    show ?thesis
    proof (cases "ln_recovery_epoch l2 = e")
      case False
      with f Inr step_to(2) [OF r2] show ?thesis by auto
    next
      case True
      show ?thesis
      proof (cases "load_snapshots_from_json parse de (sv_read env) (ln_scope l)")
        case (Inl x)
        with f Inr True fail [OF r3] show ?thesis by auto
      next
        case loaded: (Inr x)
        obtain h snap where x: "x = (h, snap)" by (cases x)
        with f Inr True loaded have "finish_snapshot lg render (sv_reconcile_ms env) e st snap h l3 = Some q" by simp
        with step_to(4) [OF r3] show ?thesis by simp
      qed
    qed
  qed
qed

section \<open>Properties\<close>

text \<open>A request that fails, or whose answer cannot be read, leaves the live books as they are.\<close>

lemma fetch_failed_keeps_books:
  assumes "\<forall>i k. ln_order_book_state (others i k) = ln_order_book_state k"
    and "isl (fst (process_rmp_file env dir d)) \<or> isl (load_snapshots_from_json parse de (sv_read env) (ln_scope l))"
    and "fetch_snapshot lg render parse de env dir others d l = (Some q, d')"
  shows "fst q = Inr () \<and> ln_order_book_state (snd q) = ln_order_book_state l"
proof -
  have "ln_order_book_state (fetch_failed k) = ln_order_book_state k" for k
    by (simp add: fetch_failed_def take_cache_def Let_def)
  moreover have "ln_order_book_state (fetch_answered a b c k) = ln_order_book_state k" "ln_order_book_state (fetch_parsed m k) = ln_order_book_state k"
    for a b c m k by (simp_all add: fetch_answered_def fetch_parsed_def)
  ultimately show ?thesis using assms(2,3) assms(1) fetch_begin_fields [of "sv_now env" "sv_clone_ms env" "sv_started_at_ms env" l]
    by (auto simp: fetch_snapshot_def Let_def split: sum.splits prod.splits if_splits)
qed

text \<open>
  C39. A snapshot task stays within the protocol for which the stream of updates is proved gapless, whatever the operating system and the node answer
  and whatever fences, data, expiries and counters happen to the listener between its critical sections, as long as fewer than \<open>2^64\<close> recovery epochs end
  meanwhile; it removes the file it made on every path; and when the request fails or its answer cannot be read, it reports success and leaves the live
  books as they are.
\<close>

theorem snapshot_task_follows_protocol:
  assumes "reached lg \<lparr>sy_listener = l, sy_task = None\<rparr>"
    and "\<forall>i k. evolves lg (n i) k (others i k)" and "n 0 + n 1 + n 2 + n 3 < 2 ^ 64"
    and "fetch_snapshot lg render parse de env dir others d l = (Some q, d')"
  shows "reached lg \<lparr>sy_listener = snd q, sy_task = None\<rparr> \<and>
    (sv_remove env = Inr () \<longrightarrow> dk_files d' = dk_files d) \<and>
    ((\<forall>i k. ln_order_book_state (others i k) = ln_order_book_state k) \<and>
     (isl (fst (process_rmp_file env dir d)) \<or> isl (load_snapshots_from_json parse de (sv_read env) (ln_scope l))) \<longrightarrow>
       fst q = Inr () \<and> ln_order_book_state (snd q) = ln_order_book_state l)"
  using fetch_snapshot_reached [OF assms(2,3,1,4)] fetch_snapshot_files [OF _ assms(4)] fetch_failed_keeps_books [OF _ _ assms(4)] by blast

subsection \<open>An instance\<close>

text \<open>The node answers, but what it wrote is not JSON.\<close>

definition bad_answer :: snapshot_env where
  "bad_answer = \<lparr>sv_process_id = 7, sv_timestamp_nanos = Some 1, sv_open = Inr (), sv_client = Inr (), sv_send = Inr (), sv_read = Inr ''?'',
     sv_remove = Inr (), sv_now = 0, sv_clone_ms = 0, sv_started_at_ms = 0, sv_request_ms = 0, sv_completed_at_ms = 0, sv_parse_ms = 0, sv_reconcile_ms = 0\<rparr>"

theorem snapshot_task_follows_protocol_witness:
  "\<exists>q d'. fetch_snapshot int_log10 (\<lambda>_. []) (\<lambda>_. Inl (JsonError ''?'')) (\<lambda>_. Inl (JsonError ''?'')) bad_answer [''tmp''] (\<lambda>_ k. k)
       \<lparr>dk_files = {}, dk_next = 3\<rparr> (sy_listener demo0) = (Some q, d') \<and>
     reached int_log10 \<lparr>sy_listener = snd q, sy_task = None\<rparr> \<and> dk_files d' = {}"
proof -
  let ?p = "\<lambda>_. Inl (JsonError ''?'')" and ?d = "\<lparr>dk_files = {}, dk_next = 3\<rparr>"
  have r: "reached int_log10 \<lparr>sy_listener = sy_listener demo0, sy_task = None\<rparr>" unfolding demo0_def system.select_convs by (rule reached.init)
  have o: "\<forall>i k. evolves int_log10 0 k k" by (simp add: evolves.same)
  let ?f = "fetch_snapshot int_log10 (\<lambda>_. []) ?p ?p bad_answer [''tmp''] (\<lambda>_ k. k) ?d (sy_listener demo0)"
  have "fst ?f \<noteq> None"
    by (simp add: fetch_snapshot_def process_rmp_file_def snapshot_file_create_def bad_answer_def load_snapshots_from_json_def
        load_snapshots_from_str_def fetch_begin_def begin_caching_def fetch_answered_def Let_def)
  then obtain q d' where f: "?f = (Some q, d')" by (cases ?f) auto
  have "sv_remove bad_answer = Inr ()" by (simp add: bad_answer_def)
  with snapshot_task_follows_protocol [OF r o _ f] f show ?thesis by auto
qed

end
