(* ===== verification/Wire_Cache.thy ===== *)
theory Wire_Cache
  imports L2_Cache
begin

text \<open>
  The encoded books shared by all connections (\<open>BookWireCache\<close> in \<open>servers/websocket_server.rs\<close>). Encoding by serde is a
  parameter; the identity of a shared snapshot is its address, as in the code.
\<close>

section \<open>Encoded books\<close>

definition export_inner_snapshot :: "inner_level snapshot \<Rightarrow> l2_level list \<times> l2_level list" where
  "export_inner_snapshot s = (map level_of_inner (snap_bids s), map level_of_inner (snap_asks s))"

definition MAX_WIRE_BYTES :: usize where
  "MAX_WIRE_BYTES = 16 * 1024 * 1024"

text \<open>
  The levels a subscription to a book is sent: its view, cut to the levels asked for; an outcome coin without a book has an empty one.
\<close>

definition view_levels ::
    "string \<Rightarrow> u32 option \<Rightarrow> usize option \<Rightarrow> u64 option \<Rightarrow> l2_snapshots \<Rightarrow> (l2_level list \<times> l2_level list) option" where
  "view_levels coin n_sig_figs n_levels mantissa snapshots =
     (case Option.bind (snapshots (Coin coin)) (\<lambda>v. v (l2_snapshot_params_new n_sig_figs mantissa)) of
        Some snapshot \<Rightarrow>
          Some (export_inner_snapshot (snapshot_truncate snapshot (case n_levels of Some n \<Rightarrow> n | None \<Rightarrow> DEFAULT_LEVELS)))
      | None \<Rightarrow> if is_hip4_coin coin then Some ([], []) else None)"

definition encode_book :: "(server_response \<Rightarrow> string result) \<Rightarrow> string \<Rightarrow> l2_level list \<times> l2_level list \<Rightarrow> u64 \<Rightarrow> u64 \<Rightarrow> string result" where
  "encode_book ser coin levels time height =
     and_then (ser (RespL2Book (from_l2_snapshot coin levels time height))) (\<lambda>encoded.
       if length encoded > MAX_WIRE_BYTES then Inl FrameTooLarge else Inr encoded)"

section \<open>The cache\<close>

text \<open>
  An \<open>L2Snapshots\<close> is a shared pointer: its address together with the map it points to.
\<close>

type_synonym arc = "usize \<times> l2_snapshots"

record book_wire_cache =
  wc_position :: "(usize \<times> u64 \<times> u64) option"
  wc_source :: "arc option"
  wc_entries :: "(subscription \<times> string) list"
  wc_bytes :: usize

definition wc_default :: book_wire_cache where
  "wc_default = \<lparr>wc_position = None, wc_source = None, wc_entries = [], wc_bytes = 0\<rparr>"

definition wc_cacheable :: "u64 \<Rightarrow> u64 \<Rightarrow> book_wire_cache \<Rightarrow> bool" where
  "wc_cacheable time height c =
     (case wc_position c of
        None \<Rightarrow> True
      | Some (_, cached_time, cached_height) \<Rightarrow> height \<ge> cached_height \<and> time \<ge> cached_time)"

text \<open>A new position empties the cache and retains the pointer the new entries will come from.\<close>

definition wc_advance :: "arc \<Rightarrow> u64 \<Rightarrow> u64 \<Rightarrow> book_wire_cache \<Rightarrow> book_wire_cache" where
  "wc_advance snapshots time height c =
     (if wc_cacheable time height c \<and> wc_position c \<noteq> Some (fst snapshots, time, height)
      then \<lparr>wc_position = Some (fst snapshots, time, height), wc_source = Some snapshots, wc_entries = [], wc_bytes = 0\<rparr>
      else c)"

definition wc_store :: "subscription \<Rightarrow> string \<Rightarrow> book_wire_cache \<Rightarrow> book_wire_cache" where
  "wc_store subscription encoded c =
     (if wc_bytes c + length encoded \<le> 2 * 1024 * 1024 \<and> length (wc_entries c) < 1024
      then c\<lparr>wc_bytes := wc_bytes c + length encoded, wc_entries := AList.update subscription encoded (wc_entries c)\<rparr>
      else c)"

definition wc_get ::
    "(server_response \<Rightarrow> string result) \<Rightarrow> subscription \<Rightarrow> arc \<Rightarrow> u64 \<Rightarrow> u64 \<Rightarrow> book_wire_cache
     \<Rightarrow> string option result \<times> book_wire_cache" where
  "wc_get ser subscription snapshots time height c0 =
     (case subscription of
        SubL2Book coin n_sig_figs n_levels mantissa \<Rightarrow>
          let c = wc_advance snapshots time height c0
          in (case (if wc_position c = Some (fst snapshots, time, height) then map_of (wc_entries c) subscription else None) of
                Some encoded \<Rightarrow> (Inr (Some encoded), c)
              | None \<Rightarrow>
                  (case view_levels coin n_sig_figs n_levels mantissa (snd snapshots) of
                     None \<Rightarrow> (Inr None, c)
                   | Some levels \<Rightarrow>
                       (case encode_book ser coin levels time height of
                          Inl e \<Rightarrow> (Inl e, c)
                        | Inr encoded \<Rightarrow>
                            (Inr (Some encoded), if wc_cacheable time height c0 then wc_store subscription encoded c else c))))
      | _ \<Rightarrow> (Inr None, c0))"

section \<open>The cache is transparent\<close>

text \<open>What a subscription is sent for a snapshot, computed without a cache.\<close>

definition fresh_frame :: "(server_response \<Rightarrow> string result) \<Rightarrow> subscription \<Rightarrow> l2_snapshots \<Rightarrow> u64 \<Rightarrow> u64 \<Rightarrow> string option result" where
  "fresh_frame ser sub snapshots time height =
     (case sub of
        SubL2Book coin n_sig_figs n_levels mantissa \<Rightarrow>
          (case view_levels coin n_sig_figs n_levels mantissa snapshots of
             None \<Rightarrow> Inr None
           | Some levels \<Rightarrow> and_then (encode_book ser coin levels time height) (Inr \<circ> Some))
      | _ \<Rightarrow> Inr None)"

definition wc_room :: "book_wire_cache \<Rightarrow> bool" where
  "wc_room c \<longleftrightarrow> distinct (map fst (wc_entries c)) \<and> wc_bytes c = sum_list (map (length \<circ> snd) (wc_entries c)) \<and>
     wc_bytes c \<le> 2 * 1024 * 1024 \<and> length (wc_entries c) \<le> 1024"

definition wc_ok :: "(server_response \<Rightarrow> string result) \<Rightarrow> book_wire_cache \<Rightarrow> bool" where
  "wc_ok ser c \<longleftrightarrow> wc_room c \<and> (wc_position c = None \<longrightarrow> wc_source c = None \<and> wc_entries c = []) \<and>
     (\<forall>a t h. wc_position c = Some (a, t, h) \<longrightarrow>
        (\<exists>v. wc_source c = Some (a, v) \<and> (\<forall>sub e. (sub, e) \<in> set (wc_entries c) \<longrightarrow> fresh_frame ser sub v t h = Inr (Some e))))"

text \<open>The pointer handed in and the one retained are both alive, so at one address they point to the same map.\<close>

definition same_allocation :: "arc \<Rightarrow> book_wire_cache \<Rightarrow> bool" where
  "same_allocation a c \<longleftrightarrow> (case wc_source c of Some (p, v) \<Rightarrow> p = fst a \<longrightarrow> v = snd a | None \<Rightarrow> True)"

lemma wc_default_ok [simp]: "wc_ok ser wc_default"
  by (simp add: wc_ok_def wc_default_def wc_room_def)

lemma wc_advance_ok: "wc_ok ser c \<Longrightarrow> wc_ok ser (wc_advance a time height c)"
  by (cases a) (auto simp: wc_advance_def wc_ok_def wc_room_def)

lemma wc_advance_position: "wc_cacheable time height c \<Longrightarrow> wc_position (wc_advance a time height c) = Some (fst a, time, height)"
  by (simp add: wc_advance_def)

lemma wc_advance_source:
  "wc_ok ser c \<Longrightarrow> same_allocation a c \<Longrightarrow> wc_position (wc_advance a time height c) = Some (fst a, time, height) \<Longrightarrow>
    wc_source (wc_advance a time height c) = Some a"
  by (cases a) (auto simp: wc_advance_def wc_ok_def same_allocation_def split: if_splits)

lemma update_new: "k \<notin> fst ` set xs \<Longrightarrow> AList.update k v xs = xs @ [(k, v)]"
  by (induction xs) auto

lemma wc_store_ok:
  assumes "wc_ok ser c" and "wc_position c = Some (fst a, time, height)" and "wc_source c = Some a"
    and "map_of (wc_entries c) sub = None" and "fresh_frame ser sub (snd a) time height = Inr (Some e)"
  shows "wc_ok ser (wc_store sub e c)"
proof -
  have n: "sub \<notin> fst ` set (wc_entries c)" using assms(4) by (simp add: map_of_eq_None_iff)
  with assms show ?thesis by (cases a) (auto simp: wc_ok_def wc_store_def wc_room_def update_new)
qed

lemma wc_hit_fresh:
  assumes "wc_ok ser c" and "wc_position c = Some (fst a, time, height)" and "wc_source c = Some a"
    and "map_of (wc_entries c) sub = Some e"
  shows "fresh_frame ser sub (snd a) time height = Inr (Some e)"
  using assms map_of_SomeD [OF assms(4)] by (cases a) (auto simp: wc_ok_def)

text \<open>A lookup answers what the encoding from scratch would, and keeps the cache right for the next one.\<close>

lemma wc_get_fresh:
  assumes "wc_ok ser c" and "same_allocation a c"
  shows "fst (wc_get ser sub a time height c) = fresh_frame ser sub (snd a) time height"
    and "wc_ok ser (snd (wc_get ser sub a time height c))"
proof -
  let ?c = "wc_advance a time height c"
  note ok = wc_advance_ok [OF assms(1), of a time height]
  note src = wc_advance_source [OF assms, of time height]
  have "fst (wc_get ser sub a time height c) = fresh_frame ser sub (snd a) time height \<and> wc_ok ser (snd (wc_get ser sub a time height c))"
  proof (cases sub)
    case (SubL2Book coin sf nl mt)
    show ?thesis
    proof (cases "if wc_position ?c = Some (fst a, time, height) then map_of (wc_entries ?c) sub else None")
      case (Some e)
      then have "wc_position ?c = Some (fst a, time, height)" "map_of (wc_entries ?c) sub = Some e" by (simp_all split: if_splits)
      with wc_hit_fresh [OF ok _ src] Some SubL2Book ok show ?thesis by (simp add: wc_get_def Let_def)
    next
      case None
      have st: "wc_ok ser (wc_store sub e ?c)" if "wc_cacheable time height c" "fresh_frame ser sub (snd a) time height = Inr (Some e)" for e
        using wc_store_ok [OF ok _ src _ that(2)] wc_advance_position [OF that(1), of a] None by simp
      from None SubL2Book ok st show ?thesis
        by (auto simp: wc_get_def Let_def fresh_frame_def split: option.splits sum.splits)
    qed
  qed (use assms in \<open>simp_all add: wc_get_def fresh_frame_def\<close>)
  then show "fst (wc_get ser sub a time height c) = fresh_frame ser sub (snd a) time height"
    and "wc_ok ser (snd (wc_get ser sub a time height c))" by simp_all
qed

text \<open>
  A sequence of lookups by any connections. Each finds memory in some state \<open>heap\<close>, in which its pointer is alive.
\<close>

type_synonym lookup = "(usize \<Rightarrow> l2_snapshots) \<times> subscription \<times> usize \<times> u64 \<times> u64"

fun wc_lookups :: "(server_response \<Rightarrow> string result) \<Rightarrow> lookup list \<Rightarrow> book_wire_cache \<Rightarrow> string option result list \<times> book_wire_cache" where
  "wc_lookups ser [] c = ([], c)"
| "wc_lookups ser ((heap, sub, p, time, height) # ls) c =
     (let (r, c') = wc_get ser sub (p, heap p) time height c; (rs, c'') = wc_lookups ser ls c' in (r # rs, c''))"

text \<open>Memory held through a pointer does not change: at each lookup the retained map is still what its address points to.\<close>

fun arcs_stable :: "(server_response \<Rightarrow> string result) \<Rightarrow> lookup list \<Rightarrow> book_wire_cache \<Rightarrow> bool" where
  "arcs_stable ser [] c = True"
| "arcs_stable ser ((heap, sub, p, time, height) # ls) c =
     ((case wc_source c of Some (q, v) \<Rightarrow> heap q = v | None \<Rightarrow> True) \<and>
      arcs_stable ser ls (snd (wc_get ser sub (p, heap p) time height c)))"

lemma wc_lookups_fresh:
  "wc_ok ser c \<Longrightarrow> arcs_stable ser ls c \<Longrightarrow>
    fst (wc_lookups ser ls c) = map (\<lambda>(heap, sub, p, time, height). fresh_frame ser sub (heap p) time height) ls \<and>
    wc_ok ser (snd (wc_lookups ser ls c))"
proof (induction ls arbitrary: c)
  case (Cons l ls)
  obtain heap sub p time height where l: "l = (heap, sub, p, time, height)" by (cases l) auto
  have "same_allocation (p, heap p) c" using Cons.prems(2) by (auto simp: l same_allocation_def split: option.splits)
  note get = wc_get_fresh [OF Cons.prems(1) this, of sub time height]
  from Cons.IH [OF get(2)] Cons.prems(2) get(1) show ?case by (auto simp: l Let_def split: prod.splits)
qed simp

text \<open>Memory that never changes is stable.\<close>

lemma wc_get_source: "wc_source (snd (wc_get ser sub a time height c)) \<in> {wc_source c, Some a}"
  by (auto simp: wc_get_def wc_advance_def wc_store_def Let_def split: subscription.splits option.splits sum.splits)

lemma constant_heap_stable:
  "(\<And>l. l \<in> set ls \<Longrightarrow> fst l = (\<lambda>_. v)) \<Longrightarrow> (\<And>q w. wc_source c = Some (q, w) \<Longrightarrow> w = v) \<Longrightarrow> arcs_stable ser ls c"
proof (induction ls arbitrary: c)
  case (Cons l ls)
  obtain sub p time height where l: "l = (\<lambda>_. v, sub, p, time, height)" using Cons.prems(1) [of l] by (cases l) auto
  have "arcs_stable ser ls (snd (wc_get ser sub (p, v) time height c))"
  proof (rule Cons.IH)
    show "w = v" if "wc_source (snd (wc_get ser sub (p, v) time height c)) = Some (q, w)" for q w
      using that wc_get_source [of ser sub "(p, v)" time height c] Cons.prems(2) [of q w] by auto
  qed (use Cons.prems(1) in auto)
  moreover have "case wc_source c of Some (q, w) \<Rightarrow> v = w | None \<Rightarrow> True" using Cons.prems(2) by (auto split: option.splits)
  ultimately show ?case by (simp add: l)
qed simp

section \<open>Properties\<close>

text \<open>
  C12. Sharing encoded books between connections never changes what is sent: over any sequence of lookups in the one cache, for any
  subscriptions, snapshots, times and heights, in any order, each answer is the encoding computed from scratch for its own snapshot (or its
  error, or nothing when there is no such view), as long as memory held through a pointer stays as it is; and the cache never holds more than 2 MiB
  or 1024 entries, with an exact byte count.
\<close>

theorem wire_cache_transparent:
  assumes "arcs_stable ser ls wc_default"
  shows "case wc_lookups ser ls wc_default of (answers, c) \<Rightarrow>
    answers = map (\<lambda>(heap, sub, p, time, height). fresh_frame ser sub (heap p) time height) ls \<and>
    wc_bytes c = sum_list (map (length \<circ> snd) (wc_entries c)) \<and> wc_bytes c \<le> 2 * 1024 * 1024 \<and> length (wc_entries c) \<le> 1024"
  using wc_lookups_fresh [OF wc_default_ok assms] by (auto simp: wc_ok_def wc_room_def split: prod.splits)

text \<open>Two connections ask for the same view, then the address is used again for the next height.\<close>

definition hip4_view :: subscription where
  "hip4_view = SubL2Book ''#1'' None None None"

definition demo_ser :: "server_response \<Rightarrow> string result" where
  "demo_ser r = (case r of RespL2Book b \<Rightarrow> Inr (if lb_height b = 1 then ''x'' else ''xx'') | _ \<Rightarrow> Inr [])"

theorem wire_cache_transparent_witness:
  "arcs_stable demo_ser [(\<lambda>_. Map.empty, hip4_view, 64, 5, 1), (\<lambda>_. Map.empty, hip4_view, 64, 5, 1), (\<lambda>_. Map.empty, hip4_view, 64, 6, 2)] wc_default \<and>
   fst (wc_lookups demo_ser [(\<lambda>_. Map.empty, hip4_view, 64, 5, 1), (\<lambda>_. Map.empty, hip4_view, 64, 5, 1), (\<lambda>_. Map.empty, hip4_view, 64, 6, 2)] wc_default) =
     [Inr (Some ''x''), Inr (Some ''x''), Inr (Some ''xx'')]"
proof -
  let ?ls = "[(\<lambda>_. Map.empty, hip4_view, 64, 5, 1), (\<lambda>_. Map.empty, hip4_view, 64, 5, 1), (\<lambda>_. Map.empty, hip4_view, 64, 6, 2)] :: lookup list"
  have st: "arcs_stable demo_ser ?ls wc_default" by (rule constant_heap_stable [of _ Map.empty]) (auto simp: wc_default_def)
  have "fresh_frame demo_ser hip4_view Map.empty 5 1 = Inr (Some ''x'')" "fresh_frame demo_ser hip4_view Map.empty 6 2 = Inr (Some ''xx'')"
    by (simp_all add: fresh_frame_def hip4_view_def view_levels_def is_hip4_coin_def is_digit_def encode_book_def demo_ser_def from_l2_snapshot_def MAX_WIRE_BYTES_def)
  with wire_cache_transparent [OF st] st show ?thesis by (simp split: prod.splits)
qed

end
