(* ===== verification/Dispatch.thy ===== *)
theory Dispatch
  imports Node_Data
begin

text \<open>
  Splitting a block between the coins clients follow (\<open>coin_to_trades\<close> and \<open>coin_to_book_updates\<close> in
  \<open>servers/websocket_server.rs\<close>).
\<close>

section \<open>Trades\<close>

text \<open>
  The loop of \<open>coin_to_trades\<close>, on the fills in reverse order: a pop takes the head. The two fills go through a map from side to fill,
  where two fills of one side leave one entry.
\<close>

fun trades_loop :: "node_data_fill list \<Rightarrow> (string \<rightharpoonup> trade list) \<Rightarrow> (string \<rightharpoonup> trade list)" where
  "trades_loop (f2 # f1 # fills) trades =
     trades_loop fills
       (case trade_from_fills ([fi_side (nf_fill f1) \<mapsto> f1, fi_side (nf_fill f2) \<mapsto> f2]) of
          None \<Rightarrow> trades
        | Some trade \<Rightarrow>
            trades(tr_coin trade \<mapsto> (case trades (tr_coin trade) of Some ts \<Rightarrow> ts | None \<Rightarrow> []) @ [trade]))"
| "trades_loop fills trades = trades"

definition coin_to_trades :: "node_data_fill batch \<Rightarrow> (string \<rightharpoonup> trade list)" where
  "coin_to_trades batch = (\<lambda>coin. map_option rev (trades_loop (rev (ba_events batch)) Map.empty coin))"

section \<open>Book updates\<close>

definition add_diff ::
    "u64 \<Rightarrow> u64 \<Rightarrow> (string \<rightharpoonup> l4_book_updates) \<Rightarrow> node_data_order_diff \<Rightarrow> (string \<rightharpoonup> l4_book_updates)" where
  "add_diff time height updates diff =
     (let coin = coin_value (diff_coin diff);
          u = (case updates coin of Some u \<Rightarrow> u | None \<Rightarrow> l4_book_updates_new time height)
      in updates(coin \<mapsto> u\<lparr>lu_book_diffs := lu_book_diffs u @ [diff]\<rparr>))"

definition add_status ::
    "u64 \<Rightarrow> u64 \<Rightarrow> (string \<rightharpoonup> l4_book_updates) \<Rightarrow> node_data_order_status \<Rightarrow> (string \<rightharpoonup> l4_book_updates)" where
  "add_status time height updates status =
     (let coin = lo_coin (ns_order status);
          u = (case updates coin of Some u \<Rightarrow> u | None \<Rightarrow> l4_book_updates_new time height)
      in updates(coin \<mapsto> u\<lparr>lu_order_statuses := lu_order_statuses u @ [status]\<rparr>))"

definition coin_to_book_updates ::
    "node_data_order_diff batch \<Rightarrow> node_data_order_status batch \<Rightarrow> (string \<rightharpoonup> l4_book_updates) option" where
  "coin_to_book_updates diff_batch status_batch = do {
     time \<leftarrow> block_time diff_batch;
     let height = ba_block_number diff_batch;
     let updates = foldl (add_diff time height) Map.empty (ba_events diff_batch);
     Some (foldl (add_status time height) updates (ba_events status_batch))
   }"

section \<open>What they compute\<close>

text \<open>The trade two neighbouring fills stand for, when they are the two sides of one execution.\<close>

definition execution :: "node_data_fill \<Rightarrow> node_data_fill \<Rightarrow> trade option" where
  "execution a b =
     (let (seller, buyer) = (if fi_side (nf_fill a) = Ask then (a, b) else (b, a));
          s = nf_fill seller; t = nf_fill buyer
      in if fi_side s = Ask \<and> fi_side t = Bid \<and> fi_coin s = fi_coin t \<and> fi_tid s = fi_tid t
         then Some \<lparr>tr_coin = fi_coin s, tr_side = (if fi_crossed s then Ask else Bid), tr_px = fi_px s, tr_sz = fi_sz s, tr_hash = fi_hash s,
                    tr_time = fi_time s, tr_tid = fi_tid s, tr_users = (nf_user buyer, nf_user seller)\<rparr>
         else None)"

fun neighbours :: "'a list \<Rightarrow> ('a \<times> 'a) list" where
  "neighbours (a # b # xs) = (a, b) # neighbours xs"
| "neighbours xs = []"

lemma execution_from_fills: "trade_from_fills ([fi_side (nf_fill a) \<mapsto> a, fi_side (nf_fill b) \<mapsto> b]) = execution a b"
  by (cases "fi_side (nf_fill a)"; cases "fi_side (nf_fill b)") (auto simp: trade_from_fills_def execution_def Let_def)

definition trades_of :: "(node_data_fill \<times> node_data_fill) list \<Rightarrow> trade list" where
  "trades_of ps = List.map_filter (\<lambda>(a, b). execution a b) ps"

definition nonempty :: "'a list \<Rightarrow> 'a list option" where
  "nonempty xs = (if xs = [] then None else Some xs)"

lemma neighbours_snoc: "even (length xs) \<Longrightarrow> neighbours (xs @ [a, b]) = neighbours xs @ [(a, b)]"
  by (induction xs rule: neighbours.induct) auto

lemma trades_loop_spec:
  "trades_loop fs trades coin =
    (let new = filter (\<lambda>t. tr_coin t = coin) (rev (trades_of (neighbours (drop (length fs mod 2) (rev fs)))))
     in case trades coin of Some ts \<Rightarrow> Some (ts @ new) | None \<Rightarrow> nonempty new)"
proof (induction fs trades rule: trades_loop.induct)
  case (1 f2 f1 fs trades)
  have ev: "even (length (drop (length fs mod 2) (rev fs)))" by (simp add: odd_iff_mod_2_eq_one)
  have "drop (length (f2 # f1 # fs) mod 2) (rev (f2 # f1 # fs)) = drop (length fs mod 2) (rev fs) @ [f1, f2]"
    using mod_less_eq_dividend [of "length fs" 2] by (simp add: drop_append)
  then show ?case using 1 neighbours_snoc [OF ev, of f1 f2]
    by (auto simp: execution_from_fills trades_of_def map_filter_def nonempty_def Let_def split: option.splits)
qed (auto simp: trades_of_def nonempty_def map_filter_def split: option.splits)

lemma foldl_add_diff:
  "foldl (add_diff time height) updates ds coin =
    (let mine = filter (\<lambda>d. nd_coin d = coin) ds
     in if mine = [] then updates coin
        else let u = (case updates coin of Some u \<Rightarrow> u | None \<Rightarrow> l4_book_updates_new time height)
             in Some (u\<lparr>lu_book_diffs := lu_book_diffs u @ mine\<rparr>))"
  by (induction ds arbitrary: updates) (auto simp: add_diff_def diff_coin_def Let_def)

lemma foldl_add_status:
  "foldl (add_status time height) updates ss coin =
    (let mine = filter (\<lambda>s. lo_coin (ns_order s) = coin) ss
     in if mine = [] then updates coin
        else let u = (case updates coin of Some u \<Rightarrow> u | None \<Rightarrow> l4_book_updates_new time height)
             in Some (u\<lparr>lu_order_statuses := lu_order_statuses u @ mine\<rparr>))"
  by (induction ss arbitrary: updates) (auto simp: add_status_def Let_def)

text \<open>What one coin's subscribers are told about a block.\<close>

definition updates_of :: "u64 \<Rightarrow> node_data_order_diff batch \<Rightarrow> node_data_order_status batch \<Rightarrow> string \<Rightarrow> l4_book_updates option" where
  "updates_of time ds ss coin =
     (let mine = filter (\<lambda>d. nd_coin d = coin) (ba_events ds); theirs = filter (\<lambda>s. lo_coin (ns_order s) = coin) (ba_events ss)
      in if mine = [] \<and> theirs = [] then None
         else Some \<lparr>lu_time = time, lu_height = ba_block_number ds, lu_order_statuses = theirs, lu_book_diffs = mine\<rparr>)"

lemma coin_to_book_updates_spec:
  "coin_to_book_updates ds ss = map_option (\<lambda>time. updates_of time ds ss) (block_time ds)"
  by (cases "block_time ds")
     (auto simp: coin_to_book_updates_def updates_of_def foldl_add_diff foldl_add_status l4_book_updates_new_def Let_def fun_eq_iff)

section \<open>Properties\<close>

text \<open>
  C38. Fills become trades in order: the trades of a coin are, in the order of the batch, those of the neighbouring fills that are
  the two sides of one execution of that coin (opposite sides, same coin, same trade id), with the seller's fill giving the price, size, time and hash,
  the buyer before the seller and the side of the taker; pairs are counted from the end of the batch, and a coin without
  a trade has no entry.
\<close>

theorem fills_become_trades:
  "coin_to_trades batch coin =
    (let fills = ba_events batch; ts = filter (\<lambda>t. tr_coin t = coin) (trades_of (neighbours (drop (length fills mod 2) fills)))
     in if ts = [] then None else Some ts)"
  by (auto simp: coin_to_trades_def trades_loop_spec rev_filter nonempty_def Let_def filter_empty_conv)

text \<open>
  A block is split between its coins without loss: for every block whose time is a valid millisecond count, the updates of a coin hold
  exactly the diffs and the order statuses of the block that name it, each in the order of the block, under the block's time and height; a
  coin the block does not mention has none.
\<close>

theorem block_updates_partition:
  "coin_to_book_updates diff_batch status_batch =
    (case block_time diff_batch of
       None \<Rightarrow> None
     | Some time \<Rightarrow> Some (\<lambda>coin.
         let mine = filter (\<lambda>d. nd_coin d = coin) (ba_events diff_batch);
             theirs = filter (\<lambda>s. lo_coin (ns_order s) = coin) (ba_events status_batch)
         in if mine = [] \<and> theirs = [] then None
            else Some \<lparr>lu_time = time, lu_height = ba_block_number diff_batch, lu_order_statuses = theirs, lu_book_diffs = mine\<rparr>))"
  by (cases "block_time diff_batch") (auto simp: coin_to_book_updates_spec updates_of_def)

end
