(* ===== verification/Delivery_Trace.thy ===== *)
theory Delivery_Trace
  imports Book_Prelude
begin

text \<open>
  What a connection records of its own deliveries (\<open>servers/delivery_trace.rs\<close>): an identity and the last batches with the
  frames flushed for each. Clock readings, the process id and the shared counter are arguments; writing the trace to the log when the connection ends is left out.
\<close>

section \<open>Traces\<close>

definition HISTORY :: usize where
  "HISTORY = 128"

record batch_trace =
  bt_height :: u64
  bt_source_time_ms :: u64
  bt_started_at_ms :: u64
  bt_completed_at_ms :: "u64 option"
  bt_flushed_frames :: u64

record delivery_trace =
  dt_id :: string
  dt_source_peer_port :: nat
  dt_opened_at_ms :: u64
  dt_closed_at_ms :: "u64 option"
  dt_batches :: "batch_trace list"

text \<open>A number as \<open>{:x}\<close> prints it.\<close>

definition hex_digit :: "nat \<Rightarrow> char" where
  "hex_digit d = char_of (if d < 10 then 48 + d else 87 + d)"

function to_hex :: "nat \<Rightarrow> string" where
  "to_hex n = (if n < 16 then [hex_digit n] else to_hex (n div 16) @ [hex_digit (n mod 16)])"
  by pat_completeness auto
termination
  by (relation "measure id") auto

declare to_hex.simps [simp del]

text \<open>
  \<open>ms\<close> is what \<open>now_ms\<close> reads for the id and \<open>opened\<close> what it reads next; \<open>next_id\<close> is the counter all connections share,
  returned with what it becomes.
\<close>

definition dt_new :: "u64 \<Rightarrow> u64 \<Rightarrow> nat \<Rightarrow> nat \<Rightarrow> u64 \<Rightarrow> delivery_trace \<times> u64" where
  "dt_new ms opened pid source_peer_port next_id =
     (\<lparr>dt_id = to_hex (unat ms) @ ''-'' @ to_hex pid @ ''-'' @ to_hex (unat next_id), dt_source_peer_port = source_peer_port,
       dt_opened_at_ms = opened, dt_closed_at_ms = None, dt_batches = []\<rparr>, next_id + 1)"

definition dt_begin :: "u64 \<Rightarrow> u64 \<Rightarrow> u64 \<Rightarrow> delivery_trace \<Rightarrow> delivery_trace" where
  "dt_begin now height source_time_ms t =
     (let t = (if length (dt_batches t) = HISTORY then t\<lparr>dt_batches := tl (dt_batches t)\<rparr> else t)
      in t\<lparr>dt_batches := dt_batches t @
             [\<lparr>bt_height = height, bt_source_time_ms = source_time_ms, bt_started_at_ms = now, bt_completed_at_ms = None,
               bt_flushed_frames = 0\<rparr>]\<rparr>)"

definition dt_update_back :: "(batch_trace \<Rightarrow> batch_trace) \<Rightarrow> delivery_trace \<Rightarrow> delivery_trace" where
  "dt_update_back f t =
     (if dt_batches t = [] then t else t\<lparr>dt_batches := butlast (dt_batches t) @ [f (last (dt_batches t))]\<rparr>)"

definition dt_sent :: "delivery_trace \<Rightarrow> delivery_trace" where
  "dt_sent = dt_update_back (\<lambda>b. b\<lparr>bt_flushed_frames := bt_flushed_frames b + 1\<rparr>)"

definition dt_complete :: "u64 \<Rightarrow> delivery_trace \<Rightarrow> delivery_trace" where
  "dt_complete now = dt_update_back (\<lambda>b. b\<lparr>bt_completed_at_ms := Some now\<rparr>)"

definition dt_drop :: "u64 \<Rightarrow> delivery_trace \<Rightarrow> delivery_trace" where
  "dt_drop now t = t\<lparr>dt_closed_at_ms := Some now\<rparr>"

section \<open>Identities\<close>

lemma hex_digit_code: "d < 16 \<Longrightarrow> of_char (hex_digit d) = (if d < 10 then 48 + d else 87 + d)"
  by (auto simp: hex_digit_def take_bit_nat_eq_self)

lemma hex_digit_inj:
  assumes "a < 16" "b < 16"
  shows "hex_digit a = hex_digit b \<longleftrightarrow> a = b"
proof
  assume "hex_digit a = hex_digit b"
  then have "(of_char (hex_digit a) :: nat) = of_char (hex_digit b)" by simp
  then show "a = b" unfolding hex_digit_code [OF assms(1)] hex_digit_code [OF assms(2)] using assms by (simp split: if_splits)
qed simp

lemma hex_digit_dash: "d < 16 \<Longrightarrow> hex_digit d \<noteq> CHR ''-''"
  using hex_digit_code [of d] by (auto split: if_splits)

lemma to_hex_ne [simp]: "to_hex n \<noteq> []"
  by (subst to_hex.simps) simp

lemma to_hex_no_dash: "CHR ''-'' \<notin> set (to_hex n)"
proof (induction n rule: to_hex.induct)
  case (1 n)
  have h: "hex_digit (n mod 16) \<noteq> CHR ''-''" "n < 16 \<Longrightarrow> hex_digit n \<noteq> CHR ''-''" by (simp_all add: hex_digit_dash)
  show ?case by (subst to_hex.simps) (use 1 h in auto)
qed

lemma to_hex_inj: "to_hex a = to_hex b \<Longrightarrow> a = b"
proof (induction a arbitrary: b rule: to_hex.induct)
  case (1 a)
  have e: "(if a < 16 then [hex_digit a] else to_hex (a div 16) @ [hex_digit (a mod 16)]) =
      (if b < 16 then [hex_digit b] else to_hex (b div 16) @ [hex_digit (b mod 16)])"
    using "1.prems" unfolding to_hex.simps [of a] to_hex.simps [of b] .
  show ?case
  proof (cases "a < 16 \<or> b < 16")
    case True
    with e show ?thesis using to_hex_ne by (auto simp: hex_digit_inj append_eq_Cons_conv Cons_eq_append_conv split: if_splits)
  next
    case False
    with e have "to_hex (a div 16) = to_hex (b div 16)" "a mod 16 = b mod 16" by (simp_all add: hex_digit_inj)
    with "1.IH" [of "b div 16"] False have "a div 16 = b div 16" by simp
    with \<open>a mod 16 = b mod 16\<close> show ?thesis by (metis div_mod_decomp)
  qed
qed

lemma dash_split: "CHR ''-'' \<notin> set x \<Longrightarrow> CHR ''-'' \<notin> set x' \<Longrightarrow> x @ ''-'' @ y = x' @ ''-'' @ y' \<Longrightarrow> y = y'"
proof (induction x arbitrary: x')
  case Nil
  then show ?case by (cases x') auto
next
  case (Cons c x)
  then show ?case by (cases x') auto
qed

lemma dt_new_id:
  "dt_id (fst (dt_new a b pid p n)) = dt_id (fst (dt_new a' b' pid' p' m)) \<longleftrightarrow> a = a' \<and> pid = pid' \<and> n = m"
proof
  assume "dt_id (fst (dt_new a b pid p n)) = dt_id (fst (dt_new a' b' pid' p' m))"
  then have e: "to_hex (unat a) @ ''-'' @ to_hex pid @ ''-'' @ to_hex (unat n) =
      to_hex (unat a') @ ''-'' @ to_hex pid' @ ''-'' @ to_hex (unat m)" by (simp add: dt_new_def)
  from dash_split [OF to_hex_no_dash to_hex_no_dash this]
  have e2: "to_hex pid @ ''-'' @ to_hex (unat n) = to_hex pid' @ ''-'' @ to_hex (unat m)" .
  from dash_split [OF to_hex_no_dash to_hex_no_dash this] have e3: "to_hex (unat n) = to_hex (unat m)" .
  from e e2 e3 show "a = a' \<and> pid = pid' \<and> n = m" by (auto dest!: to_hex_inj simp: word_unat_eq_iff)
qed (auto simp: dt_new_def)

section \<open>History\<close>

text \<open>The calls a connection makes, and the trace that would keep every batch.\<close>

datatype trace_op = Begin u64 u64 u64 | Sent | Complete u64

fun dt_step :: "delivery_trace \<Rightarrow> trace_op \<Rightarrow> delivery_trace" where
  "dt_step t (Begin now height time) = dt_begin now height time t"
| "dt_step t Sent = dt_sent t"
| "dt_step t (Complete now) = dt_complete now t"

definition on_last :: "('a \<Rightarrow> 'a) \<Rightarrow> 'a list \<Rightarrow> 'a list" where
  "on_last f xs = (if xs = [] then [] else butlast xs @ [f (last xs)])"

fun full_step :: "batch_trace list \<Rightarrow> trace_op \<Rightarrow> batch_trace list" where
  "full_step bs (Begin now height time) =
     bs @ [\<lparr>bt_height = height, bt_source_time_ms = time, bt_started_at_ms = now, bt_completed_at_ms = None, bt_flushed_frames = 0\<rparr>]"
| "full_step bs Sent = on_last (\<lambda>b. b\<lparr>bt_flushed_frames := bt_flushed_frames b + 1\<rparr>) bs"
| "full_step bs (Complete now) = on_last (\<lambda>b. b\<lparr>bt_completed_at_ms := Some now\<rparr>) bs"

definition latest :: "nat \<Rightarrow> 'a list \<Rightarrow> 'a list" where
  "latest n xs = drop (length xs - n) xs"

lemma length_latest [simp]: "length (latest n xs) = min n (length xs)"
  by (simp add: latest_def)

lemma latest_snoc: "latest (Suc n) (xs @ [x]) = latest n xs @ [x]"
  by (simp add: latest_def)

lemma latest_tl: "length xs > n \<Longrightarrow> tl (latest (Suc n) xs) = latest n xs"
  by (simp add: latest_def tl_drop drop_Suc [symmetric] Suc_diff_Suc)

lemma latest_short: "length xs \<le> n \<Longrightarrow> latest n xs = xs"
  by (simp add: latest_def)

lemma latest_on_last: "latest (Suc n) (on_last f xs) = on_last f (latest (Suc n) xs)"
  by (cases xs rule: rev_cases) (auto simp: on_last_def latest_snoc, auto simp: latest_def)

lemma dt_update_back_batches [simp]: "dt_batches (dt_update_back f t) = on_last f (dt_batches t)"
  by (simp add: dt_update_back_def on_last_def)

lemma dt_begin_latest:
  assumes "dt_batches t = latest HISTORY bs"
  shows "dt_batches (dt_begin now height time t) = latest HISTORY (full_step bs (Begin now height time))"
proof -
  have h: "HISTORY = Suc 127" by (simp add: HISTORY_def)
  have "length (dt_batches t) = HISTORY \<longleftrightarrow> length bs > 127" using assms by (simp add: h min_def)
  then show ?thesis using assms latest_tl [of 127 bs] latest_short [of bs 127] latest_short [of bs "Suc 127"]
    by (auto simp: dt_begin_def latest_snoc [of 127, simplified] h)
qed

lemma dt_step_latest: "dt_batches t = latest HISTORY bs \<Longrightarrow> dt_batches (dt_step t op) = latest HISTORY (full_step bs op)"
  using dt_begin_latest [of t bs]
  by (cases op) (simp_all add: dt_sent_def dt_complete_def latest_on_last [of 127, simplified] HISTORY_def)

section \<open>Properties\<close>

text \<open>
  A connection's trace is its own and bounded: whatever the connection does, its trace holds the last 128 batches it began,
  in order, each with the frames flushed and the completion time of that batch, as a trace that forgot nothing would list them; and two traces the server
  ever made have the same id only if they were made in the same millisecond by the same process with the same value of the shared counter.
\<close>

theorem delivery_trace_keeps_latest:
  "dt_batches (foldl dt_step (fst (dt_new ms opened pid port n)) ops) = latest 128 (foldl full_step [] ops) \<and>
   (dt_id (fst (dt_new ms opened pid port n)) = dt_id (fst (dt_new ms' opened' pid' port' m)) \<longleftrightarrow> ms = ms' \<and> pid = pid' \<and> n = m)"
proof -
  have "dt_batches (foldl dt_step t ops) = latest HISTORY (foldl full_step bs ops)" if "dt_batches t = latest HISTORY bs" for t bs
    using that by (induction ops arbitrary: t bs) (simp_all add: dt_step_latest)
  from this [of "fst (dt_new ms opened pid port n)" "[]"]
  have "dt_batches (foldl dt_step (fst (dt_new ms opened pid port n)) ops) = latest HISTORY (foldl full_step [] ops)"
    by (simp add: dt_new_def latest_def)
  then show ?thesis by (simp add: dt_new_id HISTORY_def)
qed

end
