(* ===== verification/Client_Session.thy ===== *)
theory Client_Session
  imports Ingestion Wire_Cache Dispatch Delivery_Trace
begin

text \<open>
  One websocket connection (\<open>servers/websocket_server.rs\<close>): the requests of the client, the messages of the listener and what is
  written to the socket, from \<open>handle_socket\<close> down. Accepting connections, the HTTP routes and the websocket protocol itself are left out.
\<close>

section \<open>Connections\<close>

text \<open>
  What a connection relies on: serde's encodings, the order in which a set of subscriptions is walked, the readings of the system clock (in
  milliseconds since the epoch, an error before it) and the outcomes of the writes to its socket, each numbered in the order they are made.
\<close>

record ws_env =
  we_log10 :: "u64 \<Rightarrow> u32"
  we_ignore_spot :: bool
  we_response :: "server_response \<Rightarrow> string result"
  we_subscription :: "subscription \<Rightarrow> string result"
  we_parse_subscription :: "string \<Rightarrow> subscription result"
  we_parse_message :: "string \<Rightarrow> client_message result"
  we_display :: "error \<Rightarrow> string"
  we_order :: "subscription set \<Rightarrow> subscription list"
  we_clock :: "nat \<Rightarrow> nat result"
  we_write :: "nat \<Rightarrow> unit result"

text \<open>A frame is its text, kept together with what it was made from: the position of a book, or the message encoded.\<close>

datatype frame =
    BookFrame subscription u64 u64 (frame_text: string)
  | Message server_response (frame_text: string)

text \<open>
  A connection: the frames flushed, how many writes were tried and how often the clock was read, its own state, and the shared state
  (the cache of encoded books and the listener) as it finds it.
\<close>

record session =
  ss_frames :: "frame list"
  ss_writes :: nat
  ss_readings :: nat
  ss_manager :: subscription_manager
  ss_sent_positions :: "string \<rightharpoonup> u64"
  ss_universe :: "string set"
  ss_trace :: delivery_trace
  ss_wire_cache :: book_wire_cache
  ss_listener :: listener

text \<open>An action changes the connection and returns a result; \<open>None\<close> is a panic.\<close>

type_synonym 'a act = "session \<Rightarrow> ('a result \<times> session) option"

definition act_return :: "'a \<Rightarrow> 'a act" where
  "act_return x = (\<lambda>s. Some (Inr x, s))"

definition act_of :: "'a result \<Rightarrow> 'a act" where
  "act_of r = (\<lambda>s. Some (r, s))"

definition act_option :: "'a option \<Rightarrow> 'a act" where
  "act_option r = (\<lambda>s. map_option (\<lambda>x. (Inr x, s)) r)"

definition act_get :: "(session \<Rightarrow> 'a) \<Rightarrow> 'a act" where
  "act_get f = (\<lambda>s. Some (Inr (f s), s))"

definition act_modify :: "(session \<Rightarrow> session) \<Rightarrow> unit act" where
  "act_modify f = (\<lambda>s. Some (Inr (), f s))"

definition act_then :: "'a act \<Rightarrow> ('a \<Rightarrow> 'b act) \<Rightarrow> 'b act" where
  "act_then m f = (\<lambda>s. case m s of None \<Rightarrow> None | Some (Inl e, s') \<Rightarrow> Some (Inl e, s') | Some (Inr x, s') \<Rightarrow> f x s')"

text \<open>A \<open>for\<close> loop over a list that threads a value.\<close>

fun act_fold :: "('b \<Rightarrow> 'a \<Rightarrow> 'b act) \<Rightarrow> 'b \<Rightarrow> 'a list \<Rightarrow> 'b act" where
  "act_fold f x [] = act_return x"
| "act_fold f x (y # ys) = act_then (f x y) (\<lambda>x. act_fold f x ys)"

section \<open>Clock and socket\<close>

definition read_clock :: "ws_env \<Rightarrow> nat result act" where
  "read_clock env = (\<lambda>s. Some (Inr (we_clock env (ss_readings s)), s\<lparr>ss_readings := ss_readings s + 1\<rparr>))"

definition now_ms :: "ws_env \<Rightarrow> u64 act" where
  "now_ms env = act_then (read_clock env) (\<lambda>now. act_return (case now of Inl _ \<Rightarrow> 0 | Inr ms \<Rightarrow> of_nat ms))"

definition abs_diff :: "nat \<Rightarrow> nat \<Rightarrow> nat" where
  "abs_diff a b = (if a < b then b - a else a - b)"

definition require_recent_source :: "ws_env \<Rightarrow> u64 \<Rightarrow> unit act" where
  "require_recent_source env time_ms =
     act_then (read_clock env) (\<lambda>now.
     act_then (act_of now) (\<lambda>now.
       if abs_diff now (unat time_ms) > 3000 then act_of (Inl SourceStale) else act_return ()))"

definition write_frame :: "ws_env \<Rightarrow> frame \<Rightarrow> unit act" where
  "write_frame env f = (\<lambda>s.
     (case we_write env (ss_writes s) of
        Inl e \<Rightarrow> Some (Inl e, s\<lparr>ss_writes := ss_writes s + 1\<rparr>)
      | Inr _ \<Rightarrow> Some (Inr (), s\<lparr>ss_writes := ss_writes s + 1, ss_frames := ss_frames s @ [f]\<rparr>)))"

definition send_socket_message :: "ws_env \<Rightarrow> server_response \<Rightarrow> unit act" where
  "send_socket_message env msg =
     act_then (act_of (we_response env msg)) (\<lambda>text.
       if length text > MAX_WIRE_BYTES then act_of (Inl FrameTooLarge) else write_frame env (Message msg text))"

section \<open>Books\<close>

definition new_universe :: "l2_snapshots \<Rightarrow> bool \<Rightarrow> string set" where
  "new_universe l2_snapshots ignore_spot = coin_value ` {c \<in> dom l2_snapshots. \<not> is_spot c \<or> \<not> ignore_spot}"

definition cached_book :: "ws_env \<Rightarrow> subscription \<Rightarrow> arc \<Rightarrow> u64 \<Rightarrow> u64 \<Rightarrow> string option act" where
  "cached_book env sub snapshots time height = (\<lambda>s.
     let (r, c) = wc_get (we_response env) sub snapshots time height (ss_wire_cache s)
     in Some (r, s\<lparr>ss_wire_cache := c\<rparr>))"

fun is_l2_book :: "subscription \<Rightarrow> bool" where
  "is_l2_book (SubL2Book _ _ _ _) = True"
| "is_l2_book _ = False"

definition send_ws_data_from_snapshot :: "ws_env \<Rightarrow> subscription \<Rightarrow> arc \<Rightarrow> u64 \<Rightarrow> u64 \<Rightarrow> bool act" where
  "send_ws_data_from_snapshot env subscription snapshots time height =
     (if \<not> is_l2_book subscription then act_return False
      else
        act_then (require_recent_source env time) (\<lambda>_.
        act_then (act_of (we_subscription env subscription)) (\<lambda>key.
        act_then (act_get ss_sent_positions) (\<lambda>sent_positions.
          if (case sent_positions key of Some previous \<Rightarrow> height \<le> previous | None \<Rightarrow> False) then act_return False
          else
            act_then (cached_book env subscription snapshots time height) (\<lambda>encoded.
              (case encoded of
                 Some text \<Rightarrow>
                   act_then (write_frame env (BookFrame subscription time height text)) (\<lambda>_.
                   act_then (act_modify (\<lambda>s. s\<lparr>ss_sent_positions := (ss_sent_positions s)(key \<mapsto> height)\<rparr>)) (\<lambda>_.
                     act_return True))
               | None \<Rightarrow> act_return False))))))"

section \<open>Trades and book updates\<close>

fun is_trades :: "subscription \<Rightarrow> bool" where
  "is_trades (SubTrades _) = True"
| "is_trades _ = False"

fun is_l4_book :: "subscription \<Rightarrow> bool" where
  "is_l4_book (SubL4Book _) = True"
| "is_l4_book _ = False"

definition send_ws_data_from_trades :: "ws_env \<Rightarrow> subscription \<Rightarrow> (string \<rightharpoonup> trade list) \<Rightarrow> (string \<rightharpoonup> trade list) act" where
  "send_ws_data_from_trades env subscription trades =
     (case subscription of
        SubTrades coin \<Rightarrow>
          (case trades coin of
             Some ts \<Rightarrow> act_then (send_socket_message env (RespTrades ts)) (\<lambda>_. act_return (trades(coin := None)))
           | None \<Rightarrow> act_return trades)
      | _ \<Rightarrow> act_return trades)"

definition send_fill_batch :: "ws_env \<Rightarrow> subscription set \<Rightarrow> node_data_fill batch \<Rightarrow> unit act" where
  "send_fill_batch env subscriptions batch =
     (if \<not> (\<exists>sub \<in> subscriptions. is_trades sub) then act_return ()
      else
        act_then (act_option (block_time batch)) (\<lambda>time.
        act_then (require_recent_source env time) (\<lambda>_.
        act_then (act_fold (\<lambda>trades sub.
            if \<not> is_trades sub then act_return trades
            else act_then (require_recent_source env time) (\<lambda>_. send_ws_data_from_trades env sub trades))
          (coin_to_trades batch) (we_order env subscriptions)) (\<lambda>_.
          act_return ()))))"

definition send_ws_data_from_book_updates ::
    "ws_env \<Rightarrow> subscription \<Rightarrow> (string \<rightharpoonup> l4_book_updates) \<Rightarrow> (string \<rightharpoonup> l4_book_updates) act" where
  "send_ws_data_from_book_updates env subscription book_updates =
     (case subscription of
        SubL4Book coin \<Rightarrow>
          (case book_updates coin of
             Some updates \<Rightarrow>
               act_then (send_socket_message env (RespL4Book (L4Updates updates))) (\<lambda>_. act_return (book_updates(coin := None)))
           | None \<Rightarrow> act_return book_updates)
      | _ \<Rightarrow> act_return book_updates)"

definition send_l4_batch ::
    "ws_env \<Rightarrow> subscription set \<Rightarrow> node_data_order_diff batch \<Rightarrow> node_data_order_status batch \<Rightarrow> unit act" where
  "send_l4_batch env subscriptions diff_batch status_batch =
     (if \<not> (\<exists>sub \<in> subscriptions. is_l4_book sub) then act_return ()
      else
        act_then (act_option (block_time diff_batch)) (\<lambda>time.
        act_then (require_recent_source env time) (\<lambda>_.
        act_then (act_option (coin_to_book_updates diff_batch status_batch)) (\<lambda>book_updates.
        act_then (act_fold (\<lambda>book_updates sub.
            if \<not> is_l4_book sub then act_return book_updates
            else act_then (require_recent_source env time) (\<lambda>_. send_ws_data_from_book_updates env sub book_updates))
          book_updates (we_order env subscriptions)) (\<lambda>_.
          act_return ())))))"

section \<open>Requests\<close>

definition compute_l2 :: "ws_env \<Rightarrow> (u64 \<times> u64 \<times> l2_snapshots) option act" where
  "compute_l2 env = (\<lambda>s.
     map_option (\<lambda>(r, l). (Inr r, s\<lparr>ss_listener := l\<rparr>)) (ln_compute_l2_snapshot (we_log10 env) (ss_listener s)))"

definition handle_immediate_snapshot :: "ws_env \<Rightarrow> subscription \<Rightarrow> server_response option act" where
  "handle_immediate_snapshot env sub =
     (case sub of
        SubL2Book coin n_sig_figs n_levels mantissa \<Rightarrow>
          act_then (compute_l2 env) (\<lambda>r.
            (case r of
               Some (time, height, snapshots) \<Rightarrow>
                 act_then (require_recent_source env time) (\<lambda>_.
                   (case view_levels coin n_sig_figs n_levels mantissa snapshots of
                      Some levels \<Rightarrow> act_return (Some (RespL2Book (from_l2_snapshot coin levels time height)))
                    | None \<Rightarrow> act_of (Inl SnapshotFailed)))
             | None \<Rightarrow> act_of (Inl SnapshotFailed)))
      | SubL4Book coin \<Rightarrow>
          act_then (act_get (\<lambda>s. ln_compute_snapshot (ss_listener s))) (\<lambda>r.
            (case r of
               Some ts \<Rightarrow>
                 act_then (require_recent_source env (ts_time ts)) (\<lambda>_.
                   (case rev (filter (\<lambda>(c, _). c = Coin coin) (ts_snapshot ts)) of
                      (c, snapshot) # _ \<Rightarrow>
                        act_return (Some (RespL4Book (L4Snapshot (coin_value c) (ts_time ts) (ts_height ts)
                          (map l4_of_inner (snap_bids snapshot), map l4_of_inner (snap_asks snapshot)))))
                    | [] \<Rightarrow> act_of (Inl SnapshotFailed)))
             | None \<Rightarrow> act_of (Inl SnapshotFailed)))
      | SubTrades _ \<Rightarrow> act_return None)"

text \<open>Turns the error of an action into a value, as \<open>is_ok()\<close> and the \<open>match\<close> on a result do.\<close>

definition act_try :: "'a act \<Rightarrow> 'a result act" where
  "act_try m = (\<lambda>s. map_option (\<lambda>(r, s'). (Inr r, s')) (m s))"

fun message_subscription :: "client_message \<Rightarrow> subscription" where
  "message_subscription (Subscribe sub) = sub"
| "message_subscription (Unsubscribe sub) = sub"

fun is_subscribe :: "client_message \<Rightarrow> bool" where
  "is_subscribe (Subscribe _) = True"
| "is_subscribe (Unsubscribe _) = False"

definition manager_update :: "client_message \<Rightarrow> bool act" where
  "manager_update msg = (\<lambda>s.
     let (ok, subs) = (case msg of
           Subscribe sub \<Rightarrow> sm_subscribe (ss_manager s) sub
         | Unsubscribe sub \<Rightarrow> sm_unsubscribe (ss_manager s) sub)
     in Some (Inr ok, s\<lparr>ss_manager := subs\<rparr>))"

definition drop_subscription :: "subscription \<Rightarrow> unit act" where
  "drop_subscription sub = act_modify (\<lambda>s. s\<lparr>ss_manager := snd (sm_unsubscribe (ss_manager s) sub)\<rparr>)"

text \<open>
  The first data of a book subscription. The snapshot just computed is a new shared pointer; \<open>addr\<close> is its address.
\<close>

definition start_book_stream :: "ws_env \<Rightarrow> usize \<Rightarrow> client_message \<Rightarrow> subscription \<Rightarrow> string \<Rightarrow> unit act" where
  "start_book_stream env addr client_message selection sub =
     act_then (compute_l2 env) (\<lambda>snapshot.
     act_then
       (case snapshot of
          Some (time, height, snapshots) \<Rightarrow>
            act_then (cached_book env selection (addr, snapshots) time height) (\<lambda>view.
            act_then (if view \<noteq> None then act_try (require_recent_source env time) else act_return (Inl SnapshotFailed)) (\<lambda>recent.
              (case recent of
                 Inl _ \<Rightarrow> act_return False
               | Inr _ \<Rightarrow>
                   act_then (send_socket_message env (SubscriptionResponse client_message)) (\<lambda>_.
                   act_then (act_of (we_parse_subscription env sub)) (\<lambda>selection.
                   act_then (send_ws_data_from_snapshot env selection (addr, snapshots) time height) (\<lambda>_.
                     act_return True))))))
        | None \<Rightarrow> act_return False)
       (\<lambda>started.
          if started then act_return ()
          else
            act_then (drop_subscription selection) (\<lambda>_.
              send_socket_message env (RespError ''Unable to grab fresh order book snapshot''))))"

text \<open>The snapshot that begins any other stream; an unsubscription forgets the position instead.\<close>

definition first_data :: "ws_env \<Rightarrow> client_message \<Rightarrow> string \<Rightarrow> server_response option result act" where
  "first_data env client_message sub =
     (if is_subscribe client_message then act_try (handle_immediate_snapshot env (message_subscription client_message))
      else
        act_then (act_modify (\<lambda>s. s\<lparr>ss_sent_positions := (ss_sent_positions s)(sub := None)\<rparr>)) (\<lambda>_.
          act_return (Inr None)))"

definition answer_request :: "ws_env \<Rightarrow> client_message \<Rightarrow> string \<Rightarrow> server_response option result \<Rightarrow> unit act" where
  "answer_request env client_message sub snapshot_msg =
     (case snapshot_msg of
        Inl err \<Rightarrow>
          act_then (drop_subscription (message_subscription client_message)) (\<lambda>_.
            send_socket_message env (RespError (''Unable to grab order book snapshot: '' @ we_display env err)))
      | Inr snapshot_msg \<Rightarrow>
          act_then (send_socket_message env (SubscriptionResponse client_message)) (\<lambda>_.
            (case snapshot_msg of
               None \<Rightarrow> act_return ()
             | Some msg \<Rightarrow>
                 act_then
                   (case msg of
                      RespL2Book book \<Rightarrow>
                        act_modify (\<lambda>s. s\<lparr>ss_sent_positions := (ss_sent_positions s)(sub \<mapsto> lb_height book)\<rparr>)
                    | _ \<Rightarrow> act_return ())
                   (\<lambda>_. send_socket_message env msg))))"

definition receive_client_message :: "ws_env \<Rightarrow> usize \<Rightarrow> client_message \<Rightarrow> unit act" where
  "receive_client_message env addr client_message =
     (let subscription = message_subscription client_message;
          sub = (case we_subscription env subscription of Inr t \<Rightarrow> t | Inl _ \<Rightarrow> [])
      in
        act_then (act_get ss_manager) (\<lambda>manager.
        act_then (act_get ss_universe) (\<lambda>universe.
          if is_subscribe client_message \<and> card manager \<ge> MAX_SUBSCRIPTIONS \<and> subscription \<notin> manager
          then send_socket_message env (RespError ''Subscription capacity reached'')
          else if \<not> validate subscription universe
          then send_socket_message env (RespError (''Invalid subscription: '' @ sub))
          else
            act_then (manager_update client_message) (\<lambda>success.
              if \<not> success
              then send_socket_message env (RespError
                (''Already '' @ (if is_subscribe client_message then [] else ''un'') @ ''subscribed: '' @ sub))
              else if is_subscribe client_message \<and> is_l2_book subscription
              then start_book_stream env addr client_message subscription sub
              else
                act_then (first_data env client_message sub) (answer_request env client_message sub)))))"

section \<open>The connection\<close>

text \<open>
  What wakes a connection: a message of the listener, an error of the channel (it fell behind, or the channel closed), or a frame of the client. A
  snapshot message holds a shared pointer, \<open>addr\<close> its address; for a request \<open>addr\<close> is that of the snapshot it makes.
\<close>

datatype ws_event =
    Received internal_message usize
  | ReceiverError
  | TextFrame string usize
  | CloseFrame
  | OtherFrame
  | StreamEnded

definition publish_snapshot :: "ws_env \<Rightarrow> arc \<Rightarrow> u64 \<Rightarrow> u64 \<Rightarrow> unit act" where
  "publish_snapshot env l2_snapshots time height =
     act_then (now_ms env) (\<lambda>now.
     act_then (act_modify (\<lambda>s. s\<lparr>ss_trace := dt_begin now height time (ss_trace s),
         ss_universe := new_universe (snd l2_snapshots) (we_ignore_spot env)\<rparr>)) (\<lambda>_.
     act_then (act_get ss_manager) (\<lambda>manager.
     act_then (act_fold (\<lambda>_ sub.
         act_then (send_ws_data_from_snapshot env sub l2_snapshots time height) (\<lambda>sent.
           if sent then act_modify (\<lambda>s. s\<lparr>ss_trace := dt_sent (ss_trace s)\<rparr>) else act_return ()))
       () (we_order env manager)) (\<lambda>_.
     act_then (now_ms env) (\<lambda>now.
       act_modify (\<lambda>s. s\<lparr>ss_trace := dt_complete now (ss_trace s)\<rparr>))))))"

text \<open>One turn of the loop: whether the connection is over.\<close>

definition handle_event :: "ws_env \<Rightarrow> ws_event \<Rightarrow> bool act" where
  "handle_event env ev =
     (case ev of
        Received msg addr \<Rightarrow>
          (case msg of
             MsgGap \<Rightarrow>
               act_then (send_socket_message env (RespError ''Source gap; resnapshot required'')) (\<lambda>_. act_return True)
           | MsgSnapshot l2_snapshots time height \<Rightarrow>
               act_then (publish_snapshot env (addr, l2_snapshots) time height) (\<lambda>_. act_return False)
           | MsgFills batch \<Rightarrow>
               act_then (act_get ss_manager) (\<lambda>subs. act_then (send_fill_batch env subs batch) (\<lambda>_. act_return False))
           | MsgL4BookUpdates diff_batch status_batch \<Rightarrow>
               act_then (act_get ss_manager) (\<lambda>subs.
                 act_then (send_l4_batch env subs diff_batch status_batch) (\<lambda>_. act_return False)))
      | ReceiverError \<Rightarrow> act_return True
      | TextFrame payload addr \<Rightarrow>
          if length payload > 4096 then act_of (Inl RequestTooLarge)
          else if \<not> valid_utf8 payload then act_return True
          else
            act_then
              (case we_parse_message env payload of
                 Inr value \<Rightarrow> receive_client_message env addr value
               | Inl _ \<Rightarrow> send_socket_message env (RespError (''Error parsing JSON into valid websocket request: '' @ payload)))
              (\<lambda>_. act_return False)
      | CloseFrame \<Rightarrow> act_return True
      | OtherFrame \<Rightarrow> act_return False
      | StreamEnded \<Rightarrow> act_return True)"

text \<open>The loop. Before each turn the other tasks may have changed the shared state, which the turn finds as given.\<close>

fun handle_events :: "ws_env \<Rightarrow> (listener \<times> book_wire_cache \<times> ws_event) list \<Rightarrow> bool act" where
  "handle_events env [] = act_return False"
| "handle_events env ((l, c, ev) # evs) =
     act_then (act_modify (\<lambda>s. s\<lparr>ss_listener := l, ss_wire_cache := c\<rparr>)) (\<lambda>_.
     act_then (handle_event env ev) (\<lambda>over. if over then act_return True else handle_events env evs))"

text \<open>
  A connection locks the listener twice before the loop: once to ask whether it is ready, once for the universe.
\<close>

definition session_new :: "listener \<Rightarrow> listener \<Rightarrow> book_wire_cache \<Rightarrow> delivery_trace \<Rightarrow> session" where
  "session_new l l' c t =
     \<lparr>ss_frames = [], ss_writes = 0, ss_readings = 0, ss_manager = {}, ss_sent_positions = Map.empty,
      ss_universe = coin_value ` universe l', ss_trace = t, ss_wire_cache = c, ss_listener = l\<rparr>"

definition handle_socket ::
    "ws_env \<Rightarrow> listener \<Rightarrow> listener \<Rightarrow> book_wire_cache \<Rightarrow> delivery_trace \<Rightarrow> (listener \<times> book_wire_cache \<times> ws_event) list
     \<Rightarrow> (bool result \<times> session) option" where
  "handle_socket env l l' c t evs =
     act_then (act_get (\<lambda>s. is_ready (ss_listener s))) (\<lambda>ready.
       if \<not> ready
       then act_then (send_socket_message env (RespError ''Order book not ready for streaming (waiting for snapshot)'')) (\<lambda>_. act_return True)
       else handle_events env evs)
     (session_new l l' c t)"

end
