(* ===== verification/Session_Logic.thy ===== *)
theory Session_Logic
  imports Client_Session
begin

text \<open>
  Hoare rules for the actions of a connection, and the three invariants proved with them: the heights of the books written for one
  subscription ascend, everything written was recent, and only a subscription that is held has a position.
\<close>

section \<open>Reasoning about actions\<close>

text \<open>From \<open>P\<close>, an action that returns ends in \<open>Q\<close> when it succeeds and in \<open>E\<close> when it fails.\<close>

definition valid :: "(session \<Rightarrow> bool) \<Rightarrow> 'a act \<Rightarrow> ('a \<Rightarrow> session \<Rightarrow> bool) \<Rightarrow> (session \<Rightarrow> bool) \<Rightarrow> bool" where
  "valid P m Q E \<longleftrightarrow> (\<forall>s r s'. P s \<longrightarrow> m s = Some (r, s') \<longrightarrow> (case r of Inr x \<Rightarrow> Q x s' | Inl _ \<Rightarrow> E s'))"

abbreviation keeps :: "(session \<Rightarrow> bool) \<Rightarrow> 'a act \<Rightarrow> bool" where
  "keeps I m \<equiv> valid I m (\<lambda>_. I) I"

named_theorems act_rules \<open>Hoare rules of the actions of a connection\<close>

lemma validI:
  "(\<And>s x s'. P s \<Longrightarrow> m s = Some (Inr x, s') \<Longrightarrow> Q x s') \<Longrightarrow> (\<And>s e s'. P s \<Longrightarrow> m s = Some (Inl e, s') \<Longrightarrow> E s') \<Longrightarrow> valid P m Q E"
  by (auto simp: valid_def split: sum.splits)

lemma validD: "valid P m Q E \<Longrightarrow> P s \<Longrightarrow> m s = Some (Inr x, s') \<Longrightarrow> Q x s'"
  by (force simp: valid_def)

lemma validD_any: "valid P m (\<lambda>_. Q) Q \<Longrightarrow> P s \<Longrightarrow> m s = Some (r, s') \<Longrightarrow> Q s'"
  by (force simp: valid_def split: sum.splits)

lemma valid_weaken:
  "valid P' m Q' E' \<Longrightarrow> (\<And>s. P s \<Longrightarrow> P' s) \<Longrightarrow> (\<And>x s. Q' x s \<Longrightarrow> Q x s) \<Longrightarrow> (\<And>s. E' s \<Longrightarrow> E s) \<Longrightarrow> valid P m Q E"
  by (fastforce simp: valid_def split: sum.splits)

lemma valid_then: "valid P m Q1 E \<Longrightarrow> (\<And>x. valid (Q1 x) (f x) Q E) \<Longrightarrow> valid P (act_then m f) Q E"
  unfolding valid_def act_then_def by (fastforce split: option.splits sum.splits prod.splits)

lemma valid_return: "(\<And>s. P s \<Longrightarrow> Q x s) \<Longrightarrow> valid P (act_return x) Q E"
  by (auto simp: valid_def act_return_def)

lemma keeps_basic [act_rules]:
  "keeps I (act_return x)" "keeps I (act_of r)" "keeps I (act_option ox)" "keeps I (act_get g)"
  by (auto simp: valid_def act_return_def act_of_def act_option_def act_get_def split: sum.splits)

lemma keeps_then [act_rules]: "keeps I m \<Longrightarrow> (\<And>x. keeps I (f x)) \<Longrightarrow> keeps I (act_then m f)"
  by (rule valid_then)

lemma act_some_then: "act_then (act_option (Some x)) f = f x"
  by (simp add: fun_eq_iff act_then_def act_option_def)

lemma valid_try: "valid P m Q E \<Longrightarrow> valid P (act_try m) (\<lambda>r s. case r of Inr x \<Rightarrow> Q x s | Inl _ \<Rightarrow> E s) E'"
  by (auto simp: valid_def act_try_def)

lemma keeps_try [act_rules]: "keeps I m \<Longrightarrow> keeps I (act_try m)"
  by (auto simp: valid_def act_try_def split: sum.splits)

lemma valid_fold:
  "(\<And>x y. y \<in> set ys \<Longrightarrow> valid (I x) (f x y) I E) \<Longrightarrow> valid (I x) (act_fold f x ys) I E"
proof (induction ys arbitrary: x)
  case Nil
  then show ?case by (auto intro: valid_return)
next
  case (Cons y ys)
  have "valid (I x) (f x y) I E" using Cons.prems by simp
  moreover have "valid (I x') (act_fold f x' ys) I E" for x' by (rule Cons.IH) (use Cons.prems in simp)
  ultimately show ?case by (auto intro: valid_then)
qed

lemma keeps_fold [act_rules]: "(\<And>x y. keeps I (f x y)) \<Longrightarrow> keeps I (act_fold f x ys)"
  by (rule valid_fold)

lemma keeps_if [act_rules]: "(b \<Longrightarrow> keeps I m) \<Longrightarrow> (\<not> b \<Longrightarrow> keeps I m') \<Longrightarrow> keeps I (if b then m else m')"
  by simp

lemma act_then_Inr [simp]:
  "act_then m f s = Some (Inr y, t) \<longleftrightarrow> (\<exists>x s'. m s = Some (Inr x, s') \<and> f x s' = Some (Inr y, t))"
  by (auto simp: act_then_def split: option.splits sum.splits prod.splits)

lemma act_basic_Inr [simp]:
  "act_return x s = Some (Inr y, t) \<longleftrightarrow> y = x \<and> t = s"
  "act_of r s = Some (Inr y, t) \<longleftrightarrow> r = Inr y \<and> t = s"
  "act_option ox s = Some (Inr y, t) \<longleftrightarrow> ox = Some y \<and> t = s"
  "act_get g s = Some (Inr y, t) \<longleftrightarrow> y = g s \<and> t = s"
  "act_modify h s = Some (Inr u, t) \<longleftrightarrow> t = h s"
  by (auto simp: act_return_def act_of_def act_option_def act_get_def act_modify_def)

section \<open>Invariants of a connection\<close>

text \<open>
  What an invariant has to be shown for: the new connection, the error that turns a client away, the change of the shared state before a turn, and one turn on
  an event that is allowed. It then holds after any run.
\<close>

locale connection_invariant =
  fixes env :: ws_env and allowed :: "ws_event \<Rightarrow> bool" and inv :: "session \<Rightarrow> bool"
  assumes opens: "inv (session_new l l' c t)"
    and turned_away: "keeps inv (send_socket_message env (RespError m))"
    and shared: "keeps inv (act_modify (\<lambda>s. s\<lparr>ss_listener := l, ss_wire_cache := c\<rparr>))"
    and one_turn: "allowed ev \<Longrightarrow> keeps inv (handle_event env ev)"
begin

lemma turns: "\<forall>e \<in> set evs. allowed (snd (snd e)) \<Longrightarrow> keeps inv (handle_events env evs)"
proof (induction evs)
  case (Cons e evs)
  obtain l c ev where e: "e = (l, c, ev)" by (cases e)
  have "allowed ev" and rest: "\<forall>e \<in> set evs. allowed (snd (snd e))" using Cons.prems by (simp_all add: e)
  then show ?case unfolding e handle_events.simps by (intro act_rules shared one_turn Cons.IH)
qed (simp add: act_rules)

lemma socket:
  assumes "\<forall>e \<in> set evs. allowed (snd (snd e))" and "handle_socket env l l' c t evs = Some (r, s)"
  shows "inv s"
proof -
  have "keeps inv (act_then (act_get (\<lambda>s. is_ready (ss_listener s))) (\<lambda>ready.
       if \<not> ready
       then act_then (send_socket_message env (RespError ''Order book not ready for streaming (waiting for snapshot)'')) (\<lambda>_. act_return True)
       else handle_events env evs))" by (intro act_rules turned_away turns assms(1))
  from validD_any [OF this opens] assms(2) show ?thesis unfolding handle_socket_def .
qed

end

section \<open>Parts of a connection\<close>

text \<open>
  A predicate on what only the basic actions touch: the subscriptions and the shared listener. Every turn keeps it when each of them does.
\<close>

locale session_part =
  fixes env :: ws_env and part :: "session \<Rightarrow> bool"
  assumes own: "(\<And>s. ss_manager (h s) = ss_manager s) \<Longrightarrow> (\<And>s. ss_listener (h s) = ss_listener s) \<Longrightarrow> keeps part (act_modify h)"
    and reading: "keeps part (read_clock env)"
    and writing: "keeps part (write_frame env f)"
    and caching: "keeps part (cached_book env sub a time height)"
    and viewing: "keeps part (compute_l2 env)"
    and managing: "keeps part (manager_update m)"
    and dropping: "keeps part (drop_subscription sub)"
begin

lemmas basic [act_rules] = own reading writing caching viewing managing dropping

lemma messages [act_rules]:
  "keeps part (now_ms env)" "keeps part (require_recent_source env time)" "keeps part (send_socket_message env msg)"
  unfolding now_ms_def require_recent_source_def send_socket_message_def by (intro act_rules)+

lemma books [act_rules]: "keeps part (send_ws_data_from_snapshot env sub a time height)"
  unfolding send_ws_data_from_snapshot_def by (intro act_rules) (auto split: option.splits intro!: act_rules)

lemma batches [act_rules]:
  "keeps part (publish_snapshot env a time height)" "keeps part (send_fill_batch env subs b)" "keeps part (send_l4_batch env subs d st)"
  unfolding publish_snapshot_def send_fill_batch_def send_ws_data_from_trades_def send_l4_batch_def send_ws_data_from_book_updates_def
  by (intro act_rules; auto split: subscription.splits option.splits intro!: act_rules)+

lemma immediate [act_rules]: "keeps part (handle_immediate_snapshot env sub)"
  unfolding handle_immediate_snapshot_def by (auto split: subscription.splits option.splits list.splits intro!: act_rules)

lemma requests [act_rules]: "keeps part (start_book_stream env a m sel sub)" "keeps part (first_data env m sub)"
  unfolding start_book_stream_def first_data_def
  by (intro act_rules; auto split: option.splits sum.splits server_response.splits intro!: act_rules)+

lemma answers [act_rules]: "keeps part (answer_request env m sub r)"
  unfolding answer_request_def by (auto split: option.splits sum.splits server_response.splits intro!: act_rules)

lemma client_messages [act_rules]: "keeps part (receive_client_message env a m)"
  unfolding receive_client_message_def Let_def by (intro act_rules)

lemma turn: "keeps part (handle_event env ev)"
  unfolding handle_event_def by (auto split: ws_event.splits internal_message.splits sum.splits intro!: act_rules)

end

section \<open>The positions of book streams\<close>

text \<open>The heights of the books written for a subscription.\<close>

fun book_height :: "subscription \<Rightarrow> frame \<Rightarrow> u64 option" where
  "book_height sub (BookFrame sub' _ height _) = (if sub' = sub then Some height else None)"
| "book_height sub (Message _ _) = None"

definition heights :: "subscription \<Rightarrow> frame list \<Rightarrow> u64 list" where
  "heights sub fs = List.map_filter (book_height sub) fs"

lemma heights_simps [simp]:
  "heights sub [] = []" "heights sub (fs @ gs) = heights sub fs @ heights sub gs"
  "heights sub [Message msg t] = []"
  "heights sub [BookFrame sub' time h t] = (if sub' = sub then [h] else [])"
  by (simp_all add: heights_def List.map_filter_def)

definition ascending :: "subscription \<Rightarrow> string \<Rightarrow> session \<Rightarrow> bool" where
  "ascending sub key s \<longleftrightarrow> sorted_wrt (<) (heights sub (ss_frames s)) \<and>
     (\<forall>h \<in> set (heights sub (ss_frames s)). \<exists>p. ss_sent_positions s key = Some p \<and> h \<le> p)"

lemma ascending_quiet:
  "ascending sub key s \<Longrightarrow> heights sub (ss_frames s') = heights sub (ss_frames s) \<Longrightarrow>
    ss_sent_positions s' key = ss_sent_positions s key \<Longrightarrow> ascending sub key s'"
  by (simp add: ascending_def)

lemma ascending_modify [act_rules]:
  "(\<And>s. ss_frames (h s) = ss_frames s) \<Longrightarrow> (\<And>s. ss_sent_positions (h s) key = ss_sent_positions s key) \<Longrightarrow>
    keeps (ascending sub key) (act_modify h)"
  by (auto simp: valid_def act_modify_def ascending_def)

lemma ascending_clock [act_rules]: "keeps (ascending sub key) (read_clock env)"
  by (auto simp: valid_def read_clock_def ascending_def)

lemma ascending_now [act_rules]: "keeps (ascending sub key) (now_ms env)"
  unfolding now_ms_def by (intro act_rules)

lemma ascending_recent [act_rules]: "keeps (ascending sub key) (require_recent_source env t)"
  unfolding require_recent_source_def by (intro act_rules)

lemma ascending_message [act_rules]: "keeps (ascending sub key) (send_socket_message env msg)"
proof -
  have "keeps (ascending sub key) (write_frame env (Message msg t))" for t
    by (auto simp: valid_def write_frame_def ascending_def split: sum.splits)
  then show ?thesis unfolding send_socket_message_def by (intro act_rules)
qed

lemma ascending_cached [act_rules]: "keeps (ascending sub key) (cached_book env sub' a t h)"
  by (auto simp: valid_def cached_book_def ascending_def split: sum.splits prod.splits)

lemma ascending_compute [act_rules]: "keeps (ascending sub key) (compute_l2 env)"
  by (auto simp: valid_def compute_l2_def ascending_def split: sum.splits prod.splits)

lemma ascending_manager [act_rules]: "keeps (ascending sub key) (manager_update m)" "keeps (ascending sub key) (drop_subscription sub')"
  by (auto simp: valid_def manager_update_def drop_subscription_def act_modify_def ascending_def Let_def split: sum.splits prod.splits)


text \<open>serde writes different subscriptions differently, and never fails on one.\<close>

definition keys_unique :: "ws_env \<Rightarrow> bool" where
  "keys_unique env \<longleftrightarrow> (\<forall>a. \<exists>k. we_subscription env a = Inr k) \<and> (\<forall>a b. we_subscription env a = we_subscription env b \<longrightarrow> a = b)"

lemma ascending_write_book:
  assumes "keys_unique env" and "we_subscription env sub = Inr key" and "we_subscription env sub' = Inr key'"
  shows "valid (\<lambda>s. ascending sub key s \<and> \<not> (case ss_sent_positions s key' of Some p \<Rightarrow> height \<le> p | None \<Rightarrow> False))
    (act_then (write_frame env (BookFrame sub' time height text)) (\<lambda>_.
     act_then (act_modify (\<lambda>s. s\<lparr>ss_sent_positions := (ss_sent_positions s)(key' \<mapsto> height)\<rparr>)) (\<lambda>_. act_return True)))
    (\<lambda>_. ascending sub key) (ascending sub key)"
proof -
  have k: "key' = key \<longleftrightarrow> sub' = sub" using assms by (auto simp: keys_unique_def)
  have "ascending sub key (s\<lparr>ss_writes := n, ss_frames := ss_frames s @ [BookFrame sub' time height text],
      ss_sent_positions := (ss_sent_positions s)(key' \<mapsto> height)\<rparr>)"
    if a: "ascending sub key s" and p: "\<not> (case ss_sent_positions s key' of Some p \<Rightarrow> height \<le> p | None \<Rightarrow> False)" for s n
  proof (cases "sub' = sub")
    case True
    have "h < height" if "h \<in> set (heights sub (ss_frames s))" for h
      using a that p k True by (fastforce simp: ascending_def)
    then show ?thesis using a k True by (auto simp: ascending_def sorted_wrt_append intro: less_imp_le)
  qed (use a k in \<open>auto simp: ascending_def\<close>)
  then show ?thesis
    by (auto simp: valid_def act_then_def write_frame_def act_modify_def act_return_def ascending_def split: sum.splits)
qed

lemma ascending_send_book [act_rules]:
  assumes "keys_unique env" and "we_subscription env sub = Inr key"
  shows "keeps (ascending sub key) (send_ws_data_from_snapshot env sub' a time height)"
proof -
  have body: "valid (\<lambda>s. ascending sub key s \<and> x = ss_sent_positions s)
      (if (case x key' of Some previous \<Rightarrow> height \<le> previous | None \<Rightarrow> False) then act_return False
       else act_then (cached_book env sub' a time height) (\<lambda>encoded.
         (case encoded of
            Some text \<Rightarrow>
              act_then (write_frame env (BookFrame sub' time height text)) (\<lambda>_.
              act_then (act_modify (\<lambda>s. s\<lparr>ss_sent_positions := (ss_sent_positions s)(key' \<mapsto> height)\<rparr>)) (\<lambda>_. act_return True))
          | None \<Rightarrow> act_return False)))
      (\<lambda>_. ascending sub key) (ascending sub key)"
    if k: "we_subscription env sub' = Inr key'" for key' x
  proof (cases "case x key' of Some previous \<Rightarrow> height \<le> previous | None \<Rightarrow> False")
    case False
    have c: "valid (\<lambda>s. ascending sub key s \<and> x = ss_sent_positions s) (cached_book env sub' a time height)
        (\<lambda>_ s. ascending sub key s \<and> \<not> (case ss_sent_positions s key' of Some p \<Rightarrow> height \<le> p | None \<Rightarrow> False)) (ascending sub key)"
      using False by (auto simp: valid_def cached_book_def ascending_def split: sum.splits prod.splits)
    show ?thesis unfolding if_not_P [OF False]
    proof (rule valid_then [OF c])
      fix encoded
      show "valid (\<lambda>s. ascending sub key s \<and> \<not> (case ss_sent_positions s key' of Some p \<Rightarrow> height \<le> p | None \<Rightarrow> False))
        (case encoded of
            Some text \<Rightarrow>
              act_then (write_frame env (BookFrame sub' time height text)) (\<lambda>_.
              act_then (act_modify (\<lambda>s. s\<lparr>ss_sent_positions := (ss_sent_positions s)(key' \<mapsto> height)\<rparr>)) (\<lambda>_. act_return True))
          | None \<Rightarrow> act_return False) (\<lambda>_. ascending sub key) (ascending sub key)"
        by (cases encoded) (simp_all only: option.case ascending_write_book [OF assms k], blast intro: valid_return)
    qed
  qed (auto intro: valid_return)
  have get: "valid (ascending sub key) (act_get ss_sent_positions) (\<lambda>x s. ascending sub key s \<and> x = ss_sent_positions s) (ascending sub key)"
    by (auto simp: valid_def act_get_def)
  have keyed: "keeps (ascending sub key) (act_then (act_of (we_subscription env sub')) f)"
    if "\<And>k. we_subscription env sub' = Inr k \<Longrightarrow> keeps (ascending sub key) (f k)" for f :: "string \<Rightarrow> bool act"
    using that by (cases "we_subscription env sub'") (auto simp: valid_def act_then_def act_of_def)
  show ?thesis unfolding send_ws_data_from_snapshot_def
    by (rule keeps_if, rule keeps_basic, rule keeps_then [OF ascending_recent], rule keyed, rule valid_then [OF get], erule body)
qed

lemma ascending_trades [act_rules]: "keeps (ascending sub key) (send_fill_batch env subs b)"
  unfolding send_fill_batch_def send_ws_data_from_trades_def
  by (intro act_rules) (auto split: subscription.splits option.splits intro!: act_rules)

lemma ascending_l4 [act_rules]: "keeps (ascending sub key) (send_l4_batch env subs d b)"
  unfolding send_l4_batch_def send_ws_data_from_book_updates_def
  by (intro act_rules) (auto split: subscription.splits option.splits intro!: act_rules)

lemma ascending_publish [act_rules]:
  "keys_unique env \<Longrightarrow> we_subscription env sub = Inr key \<Longrightarrow> keeps (ascending sub key) (publish_snapshot env a time height)"
  unfolding publish_snapshot_def by (intro act_rules) simp_all

lemma ascending_start [act_rules]:
  assumes "keys_unique env" and "we_subscription env sub = Inr key"
  shows "keeps (ascending sub key) (start_book_stream env addr m sub' t)"
  unfolding start_book_stream_def
  by (intro act_rules assms) (auto split: option.splits sum.splits intro!: act_rules assms)

lemma immediate_not_l2:
  "\<not> is_l2_book sub \<Longrightarrow> handle_immediate_snapshot env sub s = Some (Inr (Some r), s') \<Longrightarrow> \<not> (\<exists>b. r = RespL2Book b)"
  by (cases sub) (auto simp: handle_immediate_snapshot_def split: option.splits list.splits)

lemma ascending_immediate [act_rules]: "keeps (ascending sub key) (handle_immediate_snapshot env sub')"
  unfolding handle_immediate_snapshot_def
  by (auto split: subscription.splits option.splits list.splits prod.splits intro!: act_rules)


text \<open>What the client must not have asked for while its stream ascends.\<close>

definition unsubscribes :: "ws_env \<Rightarrow> subscription \<Rightarrow> ws_event \<Rightarrow> bool" where
  "unsubscribes env sub ev =
     (case ev of TextFrame payload _ \<Rightarrow> we_parse_message env payload = Inr (Unsubscribe sub) | _ \<Rightarrow> False)"

lemma ascending_forget [act_rules]:
  "k \<noteq> key \<Longrightarrow> keeps (ascending sub key) (act_modify (\<lambda>s. s\<lparr>ss_sent_positions := (ss_sent_positions s)(k := v)\<rparr>))"
  by (rule ascending_modify) simp_all

lemma ascending_first_data:
  assumes "\<not> (is_subscribe msg \<and> is_l2_book (message_subscription msg))" and "\<not> is_subscribe msg \<Longrightarrow> k \<noteq> key"
  shows "valid (ascending sub key) (first_data env msg k)
    (\<lambda>r s. ascending sub key s \<and> (\<forall>b. r \<noteq> Inr (Some (RespL2Book b)))) (ascending sub key)"
proof (cases "is_subscribe msg")
  case True
  with assms(1) have "\<not> is_l2_book (message_subscription msg)" by simp
  from immediate_not_l2 [OF this] ascending_immediate [of sub key env "message_subscription msg"] True show ?thesis
    by (fastforce simp: valid_def first_data_def act_try_def split: sum.splits)
next
  case False
  with ascending_forget [OF assms(2), of sub None] show ?thesis
    by (auto simp: valid_def first_data_def act_then_def act_modify_def act_return_def)
qed

lemma ascending_answer:
  "valid (\<lambda>s. ascending sub key s \<and> (\<forall>b. r \<noteq> Inr (Some (RespL2Book b)))) (answer_request env msg k r) (\<lambda>_. ascending sub key) (ascending sub key)"
proof (cases "\<exists>b. r = Inr (Some (RespL2Book b))")
  case False
  then have "keeps (ascending sub key) (answer_request env msg k r)" unfolding answer_request_def
    by (auto split: sum.splits option.splits server_response.splits intro!: act_rules)
  then show ?thesis by (rule valid_weaken) simp_all
qed (auto simp: valid_def)

lemma ascending_receive [act_rules]:
  assumes "keys_unique env" and "we_subscription env sub = Inr key" and "msg \<noteq> Unsubscribe sub"
  shows "keeps (ascending sub key) (receive_client_message env addr msg)"
proof -
  obtain k where k: "we_subscription env (message_subscription msg) = Inr k" using assms(1) unfolding keys_unique_def by blast
  have "k \<noteq> key" if "\<not> is_subscribe msg" using that assms k by (cases msg) (auto simp: keys_unique_def)
  note first = ascending_first_data [OF _ this]
  show ?thesis unfolding receive_client_message_def Let_def k sum.case
    by (intro act_rules valid_then [OF first ascending_answer] assms) auto
qed

lemma ascending_event:
  assumes "keys_unique env" and "we_subscription env sub = Inr key" and "\<not> unsubscribes env sub ev"
  shows "keeps (ascending sub key) (handle_event env ev)"
  using assms(3) unfolding handle_event_def unsubscribes_def
  by (auto split: ws_event.splits internal_message.splits sum.splits intro!: act_rules assms(1,2))

text \<open>The invariant, with what is relied on of serde for the subscription.\<close>

definition ascends_if_keyed :: "ws_env \<Rightarrow> subscription \<Rightarrow> string \<Rightarrow> session \<Rightarrow> bool" where
  "ascends_if_keyed env sub key s \<longleftrightarrow> (keys_unique env \<and> we_subscription env sub = Inr key \<longrightarrow> ascending sub key s)"

lemma keeps_ascends_if_keyed:
  "(keys_unique env \<Longrightarrow> we_subscription env sub = Inr key \<Longrightarrow> keeps (ascending sub key) m) \<Longrightarrow> keeps (ascends_if_keyed env sub key) m"
  by (auto simp: valid_def ascends_if_keyed_def split: sum.splits)

interpretation book_stream: connection_invariant env "\<lambda>ev. \<not> unsubscribes env sub ev" "ascends_if_keyed env sub key" for env sub key
proof unfold_locales
  show "ascends_if_keyed env sub key (session_new l l' c t)" for l l' c t by (simp add: ascends_if_keyed_def ascending_def session_new_def)
  show "keeps (ascends_if_keyed env sub key) (handle_event env ev)" if "\<not> unsubscribes env sub ev" for ev
    using ascending_event [OF _ _ that] by (rule keeps_ascends_if_keyed)
qed (rule keeps_ascends_if_keyed, intro act_rules; simp)+

section \<open>The age of what is sent\<close>

fun data_time :: "frame \<Rightarrow> u64 option" where
  "data_time (BookFrame _ time _ _) = Some time"
| "data_time (Message (RespL2Book book) _) = Some (lb_time book)"
| "data_time (Message (RespL4Book (L4Snapshot _ time _ _)) _) = Some time"
| "data_time (Message (RespL4Book (L4Updates u)) _) = Some (lu_time u)"
| "data_time (Message _ _) = None"

definition recent :: "ws_env \<Rightarrow> nat \<Rightarrow> u64 \<Rightarrow> bool" where
  "recent env n time \<longleftrightarrow> (\<exists>i < n. \<exists>now. we_clock env i = Inr now \<and> abs_diff now (unat time) \<le> 3000)"

definition fresh :: "ws_env \<Rightarrow> session \<Rightarrow> bool" where
  "fresh env s \<longleftrightarrow> (\<forall>f \<in> set (ss_frames s). \<forall>time. data_time f = Some time \<longrightarrow> recent env (ss_readings s) time)"

abbreviation fresh_for :: "ws_env \<Rightarrow> u64 \<Rightarrow> session \<Rightarrow> bool" where
  "fresh_for env time s \<equiv> fresh env s \<and> recent env (ss_readings s) time"

lemma recent_Suc: "recent env n time \<Longrightarrow> recent env (Suc n) time"
  unfolding recent_def by (meson less_SucI)

lemma fresh_modify [act_rules]:
  "(\<And>s. ss_frames (h s) = ss_frames s) \<Longrightarrow> (\<And>s. ss_readings (h s) = ss_readings s) \<Longrightarrow> keeps (fresh env) (act_modify h)"
  by (auto simp: valid_def act_modify_def fresh_def)

lemma fresh_clock [act_rules]: "keeps (fresh env) (read_clock env)"
  by (auto simp: valid_def read_clock_def fresh_def intro: recent_Suc)

lemma fresh_now [act_rules]: "keeps (fresh env) (now_ms env)"
  unfolding now_ms_def by (intro act_rules)

lemma fresh_recent: "valid (fresh env) (require_recent_source env time) (\<lambda>_. fresh_for env time) (fresh env)"
proof -
  have "recent env (Suc n) time" if "we_clock env n = Inr now" "abs_diff now (unat time) \<le> 3000" for n now
    using that unfolding recent_def by blast
  then show ?thesis
    by (auto simp: valid_def require_recent_source_def read_clock_def act_then_def act_of_def act_return_def fresh_def not_less
        split: sum.splits intro: recent_Suc)
qed

lemma fresh_recent_keeps [act_rules]: "keeps (fresh env) (require_recent_source env time)"
  by (rule valid_weaken [OF fresh_recent]) simp_all

lemma fresh_write:
  "valid (\<lambda>s. fresh env s \<and> (\<forall>time. data_time f = Some time \<longrightarrow> recent env (ss_readings s) time)) (write_frame env f) (\<lambda>_. fresh env) (fresh env)"
  by (auto simp: valid_def write_frame_def fresh_def split: sum.splits)

lemma fresh_message:
  "valid (\<lambda>s. fresh env s \<and> (\<forall>t time. data_time (Message msg t) = Some time \<longrightarrow> recent env (ss_readings s) time))
    (send_socket_message env msg) (\<lambda>_. fresh env) (fresh env)"
  using fresh_write [of env "Message msg t" for t]
  by (fastforce simp: valid_def send_socket_message_def act_then_def act_of_def split: sum.splits)

lemma fresh_plain_message [act_rules]:
  "(\<And>t. data_time (Message msg t) = None) \<Longrightarrow> keeps (fresh env) (send_socket_message env msg)"
  by (rule valid_weaken [OF fresh_message]) simp_all

lemma fresh_cached: "valid (fresh_for env time) (cached_book env sub a t h) (\<lambda>_. fresh_for env time) (fresh env)"
  by (auto simp: valid_def cached_book_def fresh_def split: sum.splits prod.splits)

lemma fresh_compute [act_rules]: "keeps (fresh env) (compute_l2 env)"
  by (auto simp: valid_def compute_l2_def fresh_def split: sum.splits prod.splits)

lemma fresh_manager [act_rules]: "keeps (fresh env) (manager_update m)" "keeps (fresh env) (drop_subscription sub)"
  "keeps (fresh env) (cached_book env sub a t h)"
  by (auto simp: valid_def manager_update_def drop_subscription_def cached_book_def act_modify_def fresh_def Let_def split: sum.splits prod.splits)

lemma fresh_send_book [act_rules]: "keeps (fresh env) (send_ws_data_from_snapshot env sub a time height)"
proof -
  have w: "valid (fresh_for env time)
      (case encoded of
         Some text \<Rightarrow>
           act_then (write_frame env (BookFrame sub time height text)) (\<lambda>_.
           act_then (act_modify (\<lambda>s. s\<lparr>ss_sent_positions := (ss_sent_positions s)(key \<mapsto> height)\<rparr>)) (\<lambda>_. act_return True))
       | None \<Rightarrow> act_return False) (\<lambda>_. fresh env) (fresh env)" for encoded key
  proof (cases encoded)
    case (Some t)
    have "valid (fresh_for env time) (write_frame env (BookFrame sub time height t)) (\<lambda>_. fresh env) (fresh env)"
      by (rule valid_weaken [OF fresh_write]) simp_all
    then show ?thesis unfolding Some option.case by (rule valid_then) (intro act_rules; simp)
  qed (auto intro: valid_return)
  have p: "valid (fresh_for env time) (act_of (we_subscription env sub)) (\<lambda>_. fresh_for env time) (fresh env)"
    "valid (fresh_for env time) (act_get ss_sent_positions) (\<lambda>_. fresh_for env time) (fresh env)"
    by (auto simp: valid_def act_of_def act_get_def split: sum.splits)
  have "valid (fresh_for env time)
      (if (case x key of Some previous \<Rightarrow> height \<le> previous | None \<Rightarrow> False) then act_return False
       else act_then (cached_book env sub a time height) (\<lambda>encoded.
         (case encoded of
            Some text \<Rightarrow>
              act_then (write_frame env (BookFrame sub time height text)) (\<lambda>_.
              act_then (act_modify (\<lambda>s. s\<lparr>ss_sent_positions := (ss_sent_positions s)(key \<mapsto> height)\<rparr>)) (\<lambda>_. act_return True))
          | None \<Rightarrow> act_return False))) (\<lambda>_. fresh env) (fresh env)" for key x
    using valid_then [OF fresh_cached w] by (auto intro: valid_return)
  from valid_then [OF fresh_recent valid_then [OF p(1) valid_then [OF p(2) this]]] show ?thesis
    unfolding send_ws_data_from_snapshot_def by (intro keeps_if keeps_basic)
qed

lemma fresh_trades [act_rules]: "keeps (fresh env) (send_fill_batch env subs b)"
  unfolding send_fill_batch_def send_ws_data_from_trades_def
  by (intro act_rules) (auto split: subscription.splits option.splits intro!: act_rules)

lemma fresh_l4 [act_rules]: "keeps (fresh env) (send_l4_batch env subs d b)"
proof (cases "block_time d")
  case (Some time)
  let ?I = "\<lambda>updates s. fresh env s \<and> (\<forall>c u. updates c = Some u \<longrightarrow> lu_time u = time)"
  have send: "valid (\<lambda>s. ?I updates s \<and> recent env (ss_readings s) time) (send_ws_data_from_book_updates env sub updates) ?I (fresh env)"
    for updates sub
  proof -
    have m: "valid (\<lambda>s. ?I updates s \<and> recent env (ss_readings s) time) (send_socket_message env (RespL4Book (L4Updates u)))
        (\<lambda>_ s. ?I updates s) (fresh env)" if "lu_time u = time" for u
      using that fresh_message [of env "RespL4Book (L4Updates u)"] by (fastforce simp: valid_def split: sum.splits)
    have r: "valid (?I updates) (act_return (updates(c := None))) ?I (fresh env)" for c
      by (rule valid_return) (auto split: if_splits)
    from valid_then [OF m r] show ?thesis
      unfolding send_ws_data_from_book_updates_def
      by (fastforce split: subscription.splits option.splits simp: valid_def act_return_def)
  qed
  have rec: "valid (?I updates) (require_recent_source env time) (\<lambda>_ s. ?I updates s \<and> recent env (ss_readings s) time) (fresh env)" for updates
    using fresh_recent [of env time] by (fastforce simp: valid_def split: sum.splits)
  have body: "valid (?I x) (if \<not> is_l4_book sub then act_return x
      else act_then (require_recent_source env time) (\<lambda>_. send_ws_data_from_book_updates env sub x)) ?I (fresh env)" for x sub
    using valid_then [OF rec send] by (auto intro: valid_return)
  have loop: "keeps (fresh env) (act_fold (\<lambda>x sub. if \<not> is_l4_book sub then act_return x
      else act_then (require_recent_source env time) (\<lambda>_. send_ws_data_from_book_updates env sub x)) (updates_of time d b) (we_order env subs))"
    by (rule valid_weaken [OF valid_fold [of _ ?I, OF body]]) (auto simp: updates_of_def Let_def split: if_splits)
  show ?thesis unfolding send_l4_batch_def coin_to_book_updates_spec Some option.map act_some_then
    by (intro keeps_if keeps_basic keeps_then [OF fresh_recent_keeps] keeps_then [OF loop])
qed (auto simp: send_l4_batch_def valid_def act_then_def act_option_def act_return_def)

abbreviation recent_message :: "ws_env \<Rightarrow> server_response \<Rightarrow> session \<Rightarrow> bool" where
  "recent_message env m s \<equiv> (\<forall>t time. data_time (Message m t) = Some time \<longrightarrow> recent env (ss_readings s) time)"

lemma fresh_immediate:
  "valid (fresh env) (handle_immediate_snapshot env sub) (\<lambda>r s. fresh env s \<and> (\<forall>m. r = Some m \<longrightarrow> recent_message env m s)) (fresh env)"
proof -
  have r: "valid (fresh_for env time) (act_return (Some m)) (\<lambda>r s. fresh env s \<and> (\<forall>m. r = Some m \<longrightarrow> recent_message env m s)) (fresh env)"
    if "\<And>t. data_time (Message m t) = Some time" for time m
    by (rule valid_return) (simp add: that)
  have e: "valid P (act_of (Inl x)) Q (fresh env)" if "\<And>s. P s \<Longrightarrow> fresh env s" for P and Q :: "'x \<Rightarrow> session \<Rightarrow> bool" and x
    using that by (auto simp: valid_def act_of_def)
  show ?thesis
  proof (cases sub)
    case (SubTrades c)
    then show ?thesis by (auto simp: handle_immediate_snapshot_def intro: valid_return)
  next
    case (SubL2Book c sf nl mt)
    show ?thesis unfolding SubL2Book handle_immediate_snapshot_def subscription.case
      by (rule valid_then [OF fresh_compute])
         (auto split: option.splits intro!: valid_then [OF fresh_recent] r e simp: from_l2_snapshot_def)
  next
    case (SubL4Book c)
    show ?thesis unfolding SubL4Book handle_immediate_snapshot_def subscription.case
      by (rule valid_then [OF keeps_basic(4)])
         (auto split: option.splits list.splits intro!: valid_then [OF fresh_recent] r e)
  qed
qed

lemma fresh_first_data:
  "valid (fresh env) (first_data env msg k) (\<lambda>r s. fresh env s \<and> (\<forall>m. r = Inr (Some m) \<longrightarrow> recent_message env m s)) (fresh env)"
proof (cases "is_subscribe msg")
  case True
  show ?thesis unfolding first_data_def if_P [OF True]
    by (rule valid_weaken [OF valid_try [OF fresh_immediate]]) (auto split: sum.splits)
qed (auto simp: first_data_def valid_def act_then_def act_modify_def act_return_def fresh_def)

lemma fresh_answer:
  "valid (\<lambda>s. fresh env s \<and> (\<forall>m. r = Inr (Some m) \<longrightarrow> recent_message env m s)) (answer_request env msg k r) (\<lambda>_. fresh env) (fresh env)"
proof (cases "\<exists>m. r = Inr (Some m)")
  case True
  then obtain m where r: "r = Inr (Some m)" by blast
  have ack: "valid (\<lambda>s. fresh env s \<and> recent_message env m s) (send_socket_message env (SubscriptionResponse msg))
      (\<lambda>_ s. fresh env s \<and> recent_message env m s) (fresh env)"
    by (auto simp: valid_def send_socket_message_def write_frame_def act_then_def act_of_def fresh_def split: sum.splits if_splits)
  have pos: "valid (\<lambda>s. fresh env s \<and> recent_message env m s)
      (case m of RespL2Book book \<Rightarrow> act_modify (\<lambda>s. s\<lparr>ss_sent_positions := (ss_sent_positions s)(k \<mapsto> lb_height book)\<rparr>) | _ \<Rightarrow> act_return ())
      (\<lambda>_ s. fresh env s \<and> recent_message env m s) (fresh env)"
    by (cases m) (auto simp: valid_def act_modify_def act_return_def fresh_def)
  have "valid (\<lambda>s. fresh env s \<and> recent_message env m s) (answer_request env msg k r) (\<lambda>_. fresh env) (fresh env)"
    unfolding answer_request_def r sum.case option.case by (rule valid_then [OF ack valid_then [OF pos fresh_message]])
  then show ?thesis by (rule valid_weaken) (simp_all add: r)
next
  case False
  then have "keeps (fresh env) (answer_request env msg k r)" unfolding answer_request_def
    by (auto split: sum.splits option.splits intro!: act_rules)
  then show ?thesis by (rule valid_weaken) simp_all
qed

lemma fresh_start [act_rules]: "keeps (fresh env) (start_book_stream env addr m sub t)"
  unfolding start_book_stream_def by (intro act_rules) (auto split: option.splits sum.splits intro!: act_rules)

lemma fresh_receive [act_rules]: "keeps (fresh env) (receive_client_message env addr msg)"
  unfolding receive_client_message_def Let_def
  by (intro act_rules valid_then [OF fresh_first_data fresh_answer]) auto

lemma fresh_publish [act_rules]: "keeps (fresh env) (publish_snapshot env a time height)"
  unfolding publish_snapshot_def by (intro act_rules) simp_all

lemma fresh_event [act_rules]: "keeps (fresh env) (handle_event env ev)"
  unfolding handle_event_def by (auto split: ws_event.splits internal_message.splits sum.splits intro!: act_rules)

interpretation recent_data: connection_invariant env "\<lambda>_. True" "fresh env" for env
  by unfold_locales (auto simp: fresh_def session_new_def intro!: act_rules)

section \<open>Positions belong to held subscriptions\<close>

text \<open>What is relied on of serde for this: keys are unique and read back as what they were made from; and a set is walked over its elements.\<close>

definition keys_read_back :: "ws_env \<Rightarrow> bool" where
  "keys_read_back env \<longleftrightarrow> keys_unique env \<and> (\<forall>S. set (we_order env S) \<subseteq> S) \<and>
     (\<forall>a b key. we_subscription env a = Inr key \<longrightarrow> we_parse_subscription env key = Inr b \<longrightarrow> b = a)"

definition held_by :: "ws_env \<Rightarrow> subscription set \<Rightarrow> session \<Rightarrow> bool" where
  "held_by env m s \<longleftrightarrow> ss_manager s = m \<and>
     (\<forall>sub key. we_subscription env sub = Inr key \<longrightarrow> sub \<notin> m \<longrightarrow> ss_sent_positions s key = None)"

definition unsent :: "ws_env \<Rightarrow> subscription set \<Rightarrow> string \<Rightarrow> session \<Rightarrow> bool" where
  "unsent env m key s \<longleftrightarrow> held_by env m s \<and> ss_sent_positions s key = None"

abbreviation positions_held :: "ws_env \<Rightarrow> session \<Rightarrow> bool" where
  "positions_held env s \<equiv> held_by env (ss_manager s) s"

text \<open>Predicates on the subscriptions and positions only, which most actions do not touch.\<close>

definition about_held :: "(session \<Rightarrow> bool) \<Rightarrow> bool" where
  "about_held P \<longleftrightarrow> (\<forall>s s'. ss_manager s' = ss_manager s \<longrightarrow> ss_sent_positions s' = ss_sent_positions s \<longrightarrow> P s \<longrightarrow> P s')"

lemma about_held_instances [act_rules]: "about_held (held_by env m)" "about_held (unsent env m key)" "about_held (positions_held env)"
  by (simp_all add: about_held_def held_by_def unsent_def)

lemma about_held_modify [act_rules]:
  "about_held P \<Longrightarrow> (\<And>s. ss_manager (h s) = ss_manager s) \<Longrightarrow> (\<And>s. ss_sent_positions (h s) = ss_sent_positions s) \<Longrightarrow>
    keeps P (act_modify h)"
  by (auto simp: valid_def act_modify_def about_held_def)

lemma about_held_basic [act_rules]:
  assumes "about_held P"
  shows "keeps P (read_clock env)" "keeps P (write_frame env f)" "keeps P (cached_book env sub a t h)" "keeps P (compute_l2 env)"
  using assms
  by (fastforce simp: valid_def about_held_def read_clock_def write_frame_def cached_book_def compute_l2_def
      split: sum.splits prod.splits)+

lemma about_held_messages [act_rules]:
  assumes "about_held P"
  shows "keeps P (now_ms env)" "keeps P (require_recent_source env time)" "keeps P (send_socket_message env msg)"
  unfolding now_ms_def require_recent_source_def send_socket_message_def by (intro act_rules assms)+

lemma about_held_batches [act_rules]:
  assumes "about_held P"
  shows "keeps P (send_fill_batch env subs b)" "keeps P (send_l4_batch env subs d st)"
  unfolding send_fill_batch_def send_ws_data_from_trades_def send_l4_batch_def send_ws_data_from_book_updates_def
  by (intro act_rules assms; auto split: subscription.splits option.splits intro!: act_rules assms)+

lemma about_held_immediate [act_rules]: "about_held P \<Longrightarrow> keeps P (handle_immediate_snapshot env sub)"
  unfolding handle_immediate_snapshot_def
  by (auto split: subscription.splits option.splits list.splits prod.splits intro!: act_rules)

lemma position_held:
  assumes "keys_unique env" and "we_subscription env sub = Inr key" and "sub \<in> m"
  shows "keeps (held_by env m) (act_modify (\<lambda>s. s\<lparr>ss_sent_positions := (ss_sent_positions s)(key \<mapsto> height)\<rparr>))"
  using assms by (auto simp: valid_def act_modify_def held_by_def keys_unique_def) metis

lemma send_book_held:
  assumes "keys_unique env" and "sub \<in> m"
  shows "keeps (held_by env m) (send_ws_data_from_snapshot env sub a time height)"
proof -
  have keyed: "keeps (held_by env m) (act_then (act_of (we_subscription env sub)) f)"
    if "\<And>k. we_subscription env sub = Inr k \<Longrightarrow> keeps (held_by env m) (f k)" for f :: "string \<Rightarrow> bool act"
    using that by (cases "we_subscription env sub") (auto simp: valid_def act_then_def act_of_def)
  have body: "keeps (held_by env m)
      (if (case x key of Some previous \<Rightarrow> height \<le> previous | None \<Rightarrow> False) then act_return False
       else act_then (cached_book env sub a time height) (\<lambda>encoded.
         (case encoded of
            Some text \<Rightarrow>
              act_then (write_frame env (BookFrame sub time height text)) (\<lambda>_.
              act_then (act_modify (\<lambda>s. s\<lparr>ss_sent_positions := (ss_sent_positions s)(key \<mapsto> height)\<rparr>)) (\<lambda>_. act_return True))
          | None \<Rightarrow> act_return False)))" if "we_subscription env sub = Inr key" for key x
  proof -
    have "keeps (held_by env m) (case encoded of
            Some text \<Rightarrow>
              act_then (write_frame env (BookFrame sub time height text)) (\<lambda>_.
              act_then (act_modify (\<lambda>s. s\<lparr>ss_sent_positions := (ss_sent_positions s)(key \<mapsto> height)\<rparr>)) (\<lambda>_. act_return True))
          | None \<Rightarrow> act_return False)" for encoded
      by (cases encoded) (simp_all only: option.case, (intro act_rules position_held [OF assms(1) that assms(2)])+)
    then show ?thesis by (intro act_rules)
  qed
  show ?thesis unfolding send_ws_data_from_snapshot_def
    by (intro keeps_if keeps_basic keeps_then keyed about_held_messages about_held_instances body)
qed

lemma publish_held:
  assumes "keys_read_back env"
  shows "keeps (held_by env m) (publish_snapshot env a time height)"
proof -
  have get: "valid (held_by env m) (act_get ss_manager) (\<lambda>x s. held_by env m s \<and> x = m) (held_by env m)"
    by (auto simp: valid_def act_get_def held_by_def)
  have one: "keeps (held_by env m) (act_then (send_ws_data_from_snapshot env sub a time height) (\<lambda>sent.
      if sent then act_modify (\<lambda>s. s\<lparr>ss_trace := dt_sent (ss_trace s)\<rparr>) else act_return ()))" if "sub \<in> m" for sub
    using that assms by (intro act_rules send_book_held) (simp_all add: keys_read_back_def)
  have loop: "keeps (held_by env m) (act_fold (\<lambda>_ sub.
      act_then (send_ws_data_from_snapshot env sub a time height) (\<lambda>sent.
        if sent then act_modify (\<lambda>s. s\<lparr>ss_trace := dt_sent (ss_trace s)\<rparr>) else act_return ())) () (we_order env m))"
    by (rule valid_fold, rule one) (use assms in \<open>auto simp: keys_read_back_def\<close>)
  have rest: "valid (\<lambda>s. held_by env m s \<and> manager = m) (act_then (act_fold (\<lambda>_ sub.
      act_then (send_ws_data_from_snapshot env sub a time height) (\<lambda>sent.
        if sent then act_modify (\<lambda>s. s\<lparr>ss_trace := dt_sent (ss_trace s)\<rparr>) else act_return ())) () (we_order env manager)) (\<lambda>_.
      act_then (now_ms env) (\<lambda>now. act_modify (\<lambda>s. s\<lparr>ss_trace := dt_complete now (ss_trace s)\<rparr>))))
      (\<lambda>_. held_by env m) (held_by env m)" for manager
  proof (cases "manager = m")
    case True
    have "keeps (held_by env m) (act_then (act_fold (\<lambda>_ sub.
      act_then (send_ws_data_from_snapshot env sub a time height) (\<lambda>sent.
        if sent then act_modify (\<lambda>s. s\<lparr>ss_trace := dt_sent (ss_trace s)\<rparr>) else act_return ())) () (we_order env m)) (\<lambda>_.
      act_then (now_ms env) (\<lambda>now. act_modify (\<lambda>s. s\<lparr>ss_trace := dt_complete now (ss_trace s)\<rparr>))))"
      by (intro keeps_then loop act_rules) simp_all
    with True show ?thesis by simp
  qed (simp add: valid_def)
  show ?thesis unfolding publish_snapshot_def
    by (rule keeps_then, intro act_rules, rule keeps_then, (intro act_rules; simp), rule valid_then [OF get rest])
qed


lemma valid_if: "valid P m Q E \<Longrightarrow> valid P m' Q E \<Longrightarrow> valid P (if b then m else m') Q E"
  by simp

lemma keeps_positions_held:
  "(\<And>m. valid (held_by env m) x (\<lambda>_. positions_held env) (positions_held env)) \<Longrightarrow> keeps (positions_held env) x"
  unfolding valid_def by blast

lemma held_by_positions: "held_by env m s \<Longrightarrow> positions_held env s"
  by (simp add: held_by_def)

lemma drop_unsent:
  assumes "keys_unique env" and "we_subscription env sub = Inr key"
  shows "valid (unsent env m key) (drop_subscription sub) (\<lambda>_. positions_held env) (positions_held env)"
  using assms by (auto simp: valid_def drop_subscription_def act_modify_def sm_unsubscribe_def unsent_def held_by_def keys_unique_def)

lemma start_stream_held:
  assumes rb: "keys_read_back env" and key: "we_subscription env sub = Inr key" and held: "sub \<in> m"
  shows "valid (unsent env m key) (start_book_stream env addr msg sub key) (\<lambda>_. positions_held env) (positions_held env)"
proof -
  have ku: "keys_unique env" using rb by (simp add: keys_read_back_def)
  have up: "valid P x Q (positions_held env)" if "valid P x Q (unsent env m key)" for P Q and x :: "'z act"
    by (rule valid_weaken [OF that]) (auto simp: unsent_def held_by_def)
  have up': "valid (unsent env m key) x Q (positions_held env)" if "valid (held_by env m) x Q (held_by env m)" for Q and x :: "'z act"
    by (rule valid_weaken [OF that]) (auto simp: unsent_def held_by_def)
  have read: "valid (unsent env m key) (act_of (we_parse_subscription env key)) (\<lambda>selection s. unsent env m key s \<and> selection = sub)
      (unsent env m key)"
    using rb key by (auto simp: valid_def act_of_def keys_read_back_def split: sum.splits)
  have send: "valid (\<lambda>s. unsent env m key s \<and> selection = sub)
      (act_then (send_ws_data_from_snapshot env selection a time height) (\<lambda>_. act_return True))
      (\<lambda>started. if started then held_by env m else unsent env m key) (positions_held env)" for selection a time height
  proof (cases "selection = sub")
    case True
    have "valid (unsent env m key) (act_then (send_ws_data_from_snapshot env sub a time height) (\<lambda>_. act_return True))
      (\<lambda>started. if started then held_by env m else unsent env m key) (positions_held env)"
      by (rule valid_then [OF up' [OF send_book_held [OF ku held]]]) (auto intro: valid_return)
    with True show ?thesis by simp
  qed (simp add: valid_def)
  have no: "valid (unsent env m key) (act_return False) (\<lambda>started. if started then held_by env m else unsent env m key) (positions_held env)"
    by (rule valid_return) simp
  have go: "valid (unsent env m key)
      (act_then (send_socket_message env (SubscriptionResponse msg)) (\<lambda>_.
       act_then (act_of (we_parse_subscription env key)) (\<lambda>selection.
       act_then (send_ws_data_from_snapshot env selection a time height) (\<lambda>_. act_return True))))
      (\<lambda>started. if started then held_by env m else unsent env m key) (positions_held env)" for a time height
    by (rule valid_then [OF up [OF about_held_messages(3)]], rule about_held_instances, rule valid_then [OF up [OF read] send])
  have recent: "keeps (unsent env m key) (if b then act_try (require_recent_source env time) else act_return (Inl SnapshotFailed))" for b time
    by (intro act_rules)
  have body: "valid (unsent env m key)
      (case r of
          Some (time, height, snapshots) \<Rightarrow>
            act_then (cached_book env sub (addr, snapshots) time height) (\<lambda>view.
            act_then (if view \<noteq> None then act_try (require_recent_source env time) else act_return (Inl SnapshotFailed)) (\<lambda>recent.
              (case recent of
                 Inl _ \<Rightarrow> act_return False
               | Inr _ \<Rightarrow>
                   act_then (send_socket_message env (SubscriptionResponse msg)) (\<lambda>_.
                   act_then (act_of (we_parse_subscription env key)) (\<lambda>selection.
                   act_then (send_ws_data_from_snapshot env selection (addr, snapshots) time height) (\<lambda>_.
                     act_return True))))))
        | None \<Rightarrow> act_return False)
      (\<lambda>started. if started then held_by env m else unsent env m key) (positions_held env)" for r
  proof (cases r)
    case (Some p)
    obtain time height snapshots where p: "p = (time, height, snapshots)" by (cases p)
    have last: "valid (unsent env m key) (case recent of
                 Inl _ \<Rightarrow> act_return False
               | Inr _ \<Rightarrow>
                   act_then (send_socket_message env (SubscriptionResponse msg)) (\<lambda>_.
                   act_then (act_of (we_parse_subscription env key)) (\<lambda>selection.
                   act_then (send_ws_data_from_snapshot env selection (addr, snapshots) time height) (\<lambda>_.
                     act_return True))))
      (\<lambda>started. if started then held_by env m else unsent env m key) (positions_held env)" for recent :: "unit result"
      using no go by (cases recent) simp_all
    show ?thesis unfolding Some p option.case prod.case
      by (rule valid_then [OF up [OF about_held_basic(3)]], rule about_held_instances, rule valid_then [OF up [OF recent] last])
  qed (simp add: no)
  have fin: "valid (if started then held_by env m else unsent env m key)
      (if started then act_return ()
       else act_then (drop_subscription sub) (\<lambda>_. send_socket_message env (RespError ''Unable to grab fresh order book snapshot'')))
      (\<lambda>_. positions_held env) (positions_held env)" for started
    by (cases started)
      (auto intro: valid_return held_by_positions intro!: valid_then [OF drop_unsent [OF ku key] about_held_messages(3)] about_held_instances)
  show ?thesis unfolding start_book_stream_def
    by (rule valid_then [OF up [OF about_held_basic(4)]], rule about_held_instances, rule valid_then [OF body fin])
qed

lemma answer_held:
  assumes rb: "keys_read_back env" and key: "we_subscription env (message_subscription msg) = Inr key"
    and held: "is_subscribe msg \<Longrightarrow> message_subscription msg \<in> m" and l2: "\<forall>b. r \<noteq> Inr (Some (RespL2Book b))"
  shows "valid (unsent env m key) (answer_request env msg key r) (\<lambda>_. positions_held env) (positions_held env)"
proof -
  have ku: "keys_unique env" using rb by (simp add: keys_read_back_def)
  have up: "valid (unsent env m key) x (\<lambda>_. positions_held env) (positions_held env)" if "keeps (positions_held env) x" for x :: "unit act"
    by (rule valid_weaken [OF that]) (auto simp: unsent_def held_by_def)
  show ?thesis
  proof (cases r)
    case (Inl e)
    show ?thesis unfolding answer_request_def Inl sum.case
      by (rule valid_then [OF drop_unsent [OF ku key]]) (intro act_rules)
  next
    case (Inr om)
    with l2 show ?thesis unfolding answer_request_def
      by (auto split: option.splits server_response.splits intro!: up act_rules)
  qed
qed

lemma first_data_unsent:
  assumes "keys_unique env" and "we_subscription env (message_subscription msg) = Inr key"
    and "\<not> (is_subscribe msg \<and> is_l2_book (message_subscription msg))"
  shows "valid (if is_subscribe msg then unsent env m key
      else (\<lambda>s. ss_manager s = m \<and> (\<forall>sub k. we_subscription env sub = Inr k \<longrightarrow> sub \<notin> insert (message_subscription msg) m \<longrightarrow> ss_sent_positions s k = None)))
    (first_data env msg key) (\<lambda>r s. unsent env m key s \<and> (\<forall>b. r \<noteq> Inr (Some (RespL2Book b)))) (positions_held env)"
proof (cases "is_subscribe msg")
  case True
  with assms(3) have "\<not> is_l2_book (message_subscription msg)" by simp
  from immediate_not_l2 [OF this] about_held_immediate [OF about_held_instances(2), of env m key env "message_subscription msg"] True show ?thesis
    by (fastforce simp: valid_def first_data_def act_try_def split: sum.splits)
next
  case False
  have "sub \<noteq> message_subscription msg" if "we_subscription env sub = Inr k" "k \<noteq> key" for sub k using assms(2) that by auto
  with False show ?thesis
    by (auto simp: valid_def first_data_def act_then_def act_modify_def act_return_def unsent_def held_by_def)
qed

lemma manager_update_held:
  assumes "we_subscription env (message_subscription msg) = Inr key"
  shows "valid (held_by env m) (manager_update msg)
    (\<lambda>ok s. if \<not> ok then positions_held env s
      else if is_subscribe msg then unsent env (insert (message_subscription msg) m) key s
      else ss_manager s = m - {message_subscription msg} \<and>
        (\<forall>sub k. we_subscription env sub = Inr k \<longrightarrow> sub \<notin> insert (message_subscription msg) (m - {message_subscription msg}) \<longrightarrow>
           ss_sent_positions s k = None)) (positions_held env)"
  using assms
  by (cases msg) (auto simp: valid_def manager_update_def sm_subscribe_def sm_unsubscribe_def held_by_def unsent_def)

lemma receive_held:
  assumes rb: "keys_read_back env"
  shows "keeps (positions_held env) (receive_client_message env addr msg)"
proof (rule keeps_positions_held)
  fix m
  let ?sub = "message_subscription msg" and ?E = "positions_held env"
  have ku: "keys_unique env" using rb by (simp add: keys_read_back_def)
  then obtain key where key: "we_subscription env ?sub = Inr key" unfolding keys_unique_def by blast
  have up: "valid (held_by env m) x (\<lambda>_. ?E) ?E" if "keeps ?E x" for m and x :: "unit act"
    by (rule valid_weaken [OF that]) (simp_all add: held_by_def)
  have get: "valid (held_by env m) (act_get g) (\<lambda>_. held_by env m) ?E" for g :: "session \<Rightarrow> 'z"
    by (auto simp: valid_def act_get_def)
  have first: "valid (if is_subscribe msg then unsent env m' key
      else (\<lambda>s. ss_manager s = m' \<and> (\<forall>sub k. we_subscription env sub = Inr k \<longrightarrow> sub \<notin> insert ?sub m' \<longrightarrow> ss_sent_positions s k = None)))
      (act_then (first_data env msg key) (answer_request env msg key)) (\<lambda>_. ?E) ?E"
    if "\<not> (is_subscribe msg \<and> is_l2_book ?sub)" and m': "is_subscribe msg \<Longrightarrow> ?sub \<in> m'" for m'
  proof (rule valid_then [OF first_data_unsent [OF ku key that(1)]])
    fix r
    show "valid (\<lambda>s. unsent env m' key s \<and> (\<forall>b. r \<noteq> Inr (Some (RespL2Book b)))) (answer_request env msg key r) (\<lambda>_. ?E) ?E"
    proof (cases "\<forall>b. r \<noteq> Inr (Some (RespL2Book b))")
      case True
      from answer_held [OF rb key m' this] show ?thesis by (rule valid_weaken) simp_all
    qed (auto simp: valid_def)
  qed
  have rest: "valid (\<lambda>s. if \<not> ok then positions_held env s
      else if is_subscribe msg then unsent env (insert ?sub m) key s
      else ss_manager s = m - {?sub} \<and>
        (\<forall>sub k. we_subscription env sub = Inr k \<longrightarrow> sub \<notin> insert ?sub (m - {?sub}) \<longrightarrow> ss_sent_positions s k = None))
     (if \<not> ok then send_socket_message env (RespError (''Already '' @ (if is_subscribe msg then [] else ''un'') @ ''subscribed: '' @ key))
      else if is_subscribe msg \<and> is_l2_book ?sub then start_book_stream env addr msg ?sub key
      else act_then (first_data env msg key) (answer_request env msg key)) (\<lambda>_. ?E) ?E" for ok
  proof (cases ok)
    case False
    then show ?thesis by (auto intro!: act_rules)
  next
    case ok: True
    show ?thesis
    proof (cases "is_subscribe msg \<and> is_l2_book ?sub")
      case True
      with ok start_stream_held [OF rb key, of "insert ?sub m" addr msg] show ?thesis by simp
    next
      case False
      with ok first [OF False, of "insert ?sub m"] first [OF False, of "m - {?sub}"] show ?thesis
        by (cases "is_subscribe msg") simp_all
    qed
  qed
  show "valid (held_by env m) (receive_client_message env addr msg) (\<lambda>_. ?E) ?E"
    unfolding receive_client_message_def Let_def key sum.case
    by (rule valid_then [OF get], rule valid_then [OF get], rule valid_if [OF up [OF about_held_messages(3)]],
        rule about_held_instances, rule valid_if [OF up [OF about_held_messages(3)]], rule about_held_instances,
        rule valid_then [OF manager_update_held [OF key] rest])
qed

lemma event_held:
  assumes "keys_read_back env"
  shows "keeps (positions_held env) (handle_event env ev)"
proof -
  have p: "keeps (positions_held env) (publish_snapshot env a time height)" for a time height
  proof (rule keeps_positions_held)
    fix m show "valid (held_by env m) (publish_snapshot env a time height) (\<lambda>_. positions_held env) (positions_held env)"
      by (rule valid_weaken [OF publish_held [OF assms, of m]]) (simp_all add: held_by_positions)
  qed
  show ?thesis unfolding handle_event_def
    by (auto split: ws_event.splits internal_message.splits sum.splits intro!: act_rules p receive_held [OF assms])
qed

definition positions_held_if_keyed :: "ws_env \<Rightarrow> session \<Rightarrow> bool" where
  "positions_held_if_keyed env s \<longleftrightarrow> (keys_read_back env \<longrightarrow> positions_held env s)"

lemma keeps_positions_held_if_keyed:
  "(keys_read_back env \<Longrightarrow> keeps (positions_held env) m) \<Longrightarrow> keeps (positions_held_if_keyed env) m"
  by (auto simp: valid_def positions_held_if_keyed_def split: sum.splits)

interpretation held_positions: connection_invariant env "\<lambda>_. True" "positions_held_if_keyed env" for env
proof unfold_locales
  show "positions_held_if_keyed env (session_new l l' c t)" for l l' c t
    by (simp add: positions_held_if_keyed_def held_by_def session_new_def)
  show "keeps (positions_held_if_keyed env) (handle_event env ev)" for ev
    by (rule keeps_positions_held_if_keyed) (rule event_held)
qed (rule keeps_positions_held_if_keyed, intro act_rules; simp)+

end
