(* ===== verification/Session_Properties.thy ===== *)
theory Session_Properties
  imports Session_Logic
begin

text \<open>
  What a client can rely on from one connection.
\<close>

section \<open>A sample connection\<close>

text \<open>
  A client follows the book of an outcome coin that has no orders: it gets one book at once and one with the next snapshot. Subscriptions are
  written with their numbers in unary.
\<close>

definition unary :: "nat option \<Rightarrow> string" where
  "unary n = (case n of None \<Rightarrow> ''n'' | Some k \<Rightarrow> replicate k CHR ''1'' @ ''0'')"

definition demo_key :: "subscription \<Rightarrow> string" where
  "demo_key sub =
     (case sub of
        SubTrades c \<Rightarrow> ''t'' @ c
      | SubL4Book c \<Rightarrow> ''l'' @ c
      | SubL2Book c sf nl mt \<Rightarrow> ''b'' @ unary sf @ unary nl @ unary (map_option unat mt) @ c)"

lemma replicate_split: "replicate a x @ y # v = replicate b x @ y # w \<Longrightarrow> x \<noteq> y \<Longrightarrow> a = b \<and> v = w"
proof (induction a arbitrary: b)
  case 0
  then show ?case by (cases b) auto
next
  case (Suc a)
  then show ?case by (cases b) auto
qed

lemma unary_split: "unary a @ v = unary b @ w \<longleftrightarrow> a = b \<and> v = w"
proof
  have n: "CHR ''n'' # v \<noteq> replicate k CHR ''1'' @ CHR ''0'' # w" for k v w by (cases k) auto
  assume "unary a @ v = unary b @ w"
  then show "a = b \<and> v = w"
    using n n [symmetric] by (auto simp: unary_def split: option.splits dest: replicate_split)
qed simp

lemma demo_key_inj: "demo_key a = demo_key b \<Longrightarrow> a = b"
  by (cases a; cases b)
     (auto simp: demo_key_def unary_split word_unat_eq_iff dest!: option.inj_map_strong [rotated])

definition demo_env :: "(string \<Rightarrow> client_message) \<Rightarrow> ws_env" where
  "demo_env parse = \<lparr>we_log10 = (\<lambda>_. 0), we_ignore_spot = False,
     we_response = (\<lambda>_. Inr ''{}''), we_subscription = (\<lambda>sub. Inr (demo_key sub)),
     we_parse_subscription = (\<lambda>_. Inr hip4_view), we_parse_message = (\<lambda>t. Inr (parse t)),
     we_display = (\<lambda>_. []), we_order = (\<lambda>S. if hip4_view \<in> S then [hip4_view] else []),
     we_clock = (\<lambda>_. Inr 0), we_write = (\<lambda>_. Inr ())\<rparr>"

definition ready_listener :: listener where
  "ready_listener = (listener_new None False scope_all)\<lparr>ln_order_book_state := Some (st_from_snapshot [] 7 0 False False)\<rparr>"

definition demo_trace :: delivery_trace where
  "demo_trace = fst (dt_new 0 0 1 80 1)"

lemma demo_keys_unique: "keys_unique (demo_env parse)"
  by (auto simp: keys_unique_def demo_env_def dest: demo_key_inj)

lemma demo_env_simps [simp]:
  "we_log10 (demo_env parse) = (\<lambda>_. 0)" "we_ignore_spot (demo_env parse) = False"
  "we_response (demo_env parse) = (\<lambda>_. Inr ''{}'')" "we_subscription (demo_env parse) = (\<lambda>sub. Inr (demo_key sub))"
  "we_parse_subscription (demo_env parse) = (\<lambda>_. Inr hip4_view)" "we_parse_message (demo_env parse) = (\<lambda>t. Inr (parse t))"
  "we_order (demo_env parse) = (\<lambda>S. if hip4_view \<in> S then [hip4_view] else [])"
  "we_clock (demo_env parse) = (\<lambda>_. Inr 0)" "we_write (demo_env parse) = (\<lambda>_. Inr ())"
  by (simp_all add: demo_env_def)

lemmas act_unfold = act_then_def act_get_def act_modify_def act_return_def act_of_def act_option_def act_try_def
  read_clock_def now_ms_def require_recent_source_def abs_diff_def write_frame_def send_socket_message_def cached_book_def
  send_ws_data_from_snapshot_def compute_l2_def manager_update_def start_book_stream_def receive_client_message_def publish_snapshot_def
  handle_event_def session_new_def handle_socket_def

lemmas demo_unfold = is_ready_def ready_listener_def byte_in_def sm_subscribe_def hip4_view_def MAX_SUBSCRIPTIONS_def validate_def
  is_hip4_coin_def is_digit_def validate_l2_view_def ln_compute_l2_snapshot_def st_compute_l2_snapshot_def refresh_l2_snapshots_def
  st_from_snapshot_def wc_get_def wc_default_def wc_advance_def wc_cacheable_def wc_store_def view_levels_def encode_book_def from_l2_snapshot_def
  MAX_WIRE_BYTES_def from_snapshots_def Let_def DEFAULT_LEVELS_def MAX_LEVELS_def

lemma demo_run:
  "\<exists>s. handle_socket (demo_env (\<lambda>_. Subscribe hip4_view)) ready_listener ready_listener wc_default demo_trace
    [(ready_listener, wc_default, TextFrame ''s'' 64), (ready_listener, wc_default, Received (MsgSnapshot Map.empty 0 8) 96)] = Some (Inr False, s) \<and>
    ss_frames s = [Message (SubscriptionResponse (Subscribe hip4_view)) ''{}'', BookFrame hip4_view 0 7 ''{}'', BookFrame hip4_view 0 8 ''{}'']"
  by (simp add: act_unfold demo_unfold)

section \<open>Properties\<close>

text \<open>
  C11. A client never receives a book it has already passed: on one connection, over whatever messages, requests and errors, the heights of the books
  written for a subscription the client does not unsubscribe from strictly increase, although the first book comes from the listener's
  live state and the following ones from a channel that may still hold older snapshots.
\<close>

theorem book_stream_ascends:
  assumes "keys_unique env" and "handle_socket env l l' c t evs = Some (r, s)"
    and "\<forall>e \<in> set evs. \<not> unsubscribes env sub (snd (snd e))"
  shows "sorted_wrt (<) (heights sub (ss_frames s))"
proof -
  obtain key where k: "we_subscription env sub = Inr key" using assms(1) unfolding keys_unique_def by blast
  from book_stream.socket [OF assms(3,2), of key] show ?thesis using assms(1) k by (simp add: ascends_if_keyed_def ascending_def)
qed

theorem book_stream_ascends_witness:
  "\<exists>s. handle_socket (demo_env (\<lambda>_. Subscribe hip4_view)) ready_listener ready_listener wc_default demo_trace
      [(ready_listener, wc_default, TextFrame ''s'' 64), (ready_listener, wc_default, Received (MsgSnapshot Map.empty 0 8) 96)] = Some (Inr False, s) \<and>
     heights hip4_view (ss_frames s) = [7, 8] \<and> sorted_wrt (<) (heights hip4_view (ss_frames s))"
proof -
  let ?evs = "[(ready_listener, wc_default, TextFrame ''s'' 64), (ready_listener, wc_default, Received (MsgSnapshot Map.empty 0 8) 96)]"
  obtain s where s: "handle_socket (demo_env (\<lambda>_. Subscribe hip4_view)) ready_listener ready_listener wc_default demo_trace ?evs = Some (Inr False, s)"
    "ss_frames s = [Message (SubscriptionResponse (Subscribe hip4_view)) ''{}'', BookFrame hip4_view 0 7 ''{}'', BookFrame hip4_view 0 8 ''{}'']"
    using demo_run by blast
  have "heights hip4_view (ss_frames s) = [7, 8]" by (simp add: s(2) heights_def List.map_filter_def)
  moreover have "sorted_wrt (<) (heights hip4_view (ss_frames s))"
    by (rule book_stream_ascends [OF demo_keys_unique s(1)]) (simp add: unsubscribes_def)
  ultimately show ?thesis using s(1) by blast
qed

text \<open>
  C36. No stale book leaves the server: every book or book update written on a connection, at any point of any run, carries a source time that was within three
  seconds of a reading of the clock made on that connection.
\<close>

theorem no_stale_book_sent:
  assumes "handle_socket env l l' c t evs = Some (r, s)" and "f \<in> set (ss_frames s)" and "data_time f = Some time"
  shows "\<exists>i < ss_readings s. \<exists>now. we_clock env i = Inr now \<and> abs_diff now (unat time) \<le> 3000"
proof -
  have "fresh env s" by (rule recent_data.socket [OF _ assms(1)]) simp
  with assms(2,3) show ?thesis by (auto simp: fresh_def recent_def)
qed

theorem no_stale_book_sent_witness:
  "\<exists>s. handle_socket (demo_env (\<lambda>_. Subscribe hip4_view)) ready_listener ready_listener wc_default demo_trace
      [(ready_listener, wc_default, TextFrame ''s'' 64), (ready_listener, wc_default, Received (MsgSnapshot Map.empty 0 8) 96)] = Some (Inr False, s) \<and>
     BookFrame hip4_view 0 8 ''{}'' \<in> set (ss_frames s) \<and> (\<exists>i < ss_readings s. \<exists>now. abs_diff now 0 \<le> 3000)"
proof -
  let ?evs = "[(ready_listener, wc_default, TextFrame ''s'' 64), (ready_listener, wc_default, Received (MsgSnapshot Map.empty 0 8) 96)]"
  obtain s where s: "handle_socket (demo_env (\<lambda>_. Subscribe hip4_view)) ready_listener ready_listener wc_default demo_trace ?evs = Some (Inr False, s)"
    and f: "BookFrame hip4_view 0 8 ''{}'' \<in> set (ss_frames s)"
    using demo_run by (metis list.set_intros)
  from no_stale_book_sent [OF s f, of 0] have "\<exists>i < ss_readings s. \<exists>now. abs_diff now 0 \<le> 3000" by auto
  with s f show ?thesis by blast
qed

section \<open>Requests\<close>

lemma act_try_Inr [simp]: "act_try m s = Some (r', s') \<longleftrightarrow> (\<exists>r. r' = Inr r \<and> m s = Some (r, s'))"
  by (auto simp: act_try_def)

lemma act_get_then: "act_then (act_get g) f s = f (g s) s"
  by (simp add: act_then_def act_get_def)

lemma recent_frame:
  "require_recent_source env time s = Some (r, s') \<Longrightarrow> s' = s\<lparr>ss_readings := ss_readings s + 1\<rparr>"
  by (auto simp: require_recent_source_def read_clock_def act_then_def act_of_def act_return_def split: sum.splits if_splits)

lemma send_message_Inr:
  "send_socket_message env m s = Some (Inr u, s') \<Longrightarrow>
    \<exists>t. we_response env m = Inr t \<and> s' = s\<lparr>ss_writes := ss_writes s + 1, ss_frames := ss_frames s @ [Message m t]\<rparr>"
  by (auto simp: send_socket_message_def write_frame_def split: if_splits sum.splits)

lemma cached_frame: "cached_book env sub a time height s = Some (r, s') \<Longrightarrow>
    r = fst (wc_get (we_response env) sub a time height (ss_wire_cache s)) \<and>
    s' = s\<lparr>ss_wire_cache := snd (wc_get (we_response env) sub a time height (ss_wire_cache s))\<rparr>"
  by (auto simp: cached_book_def split: prod.splits)

lemma wc_advance_idem: "wc_position c = Some (fst a, time, height) \<or> \<not> wc_cacheable time height c \<Longrightarrow> wc_advance a time height c = c"
  by (auto simp: wc_advance_def)

lemma wc_store_lookup:
  "wc_position (wc_store sub e c) = wc_position c" "map_of (wc_entries (wc_store sub e c)) sub \<in> {map_of (wc_entries c) sub, Some e}"
  by (auto simp: wc_store_def update_conv')

lemma wc_get_again:
  assumes "fst (wc_get ser sub a time height c) = Inr (Some e)"
  shows "fst (wc_get ser sub a time height (snd (wc_get ser sub a time height c))) = Inr (Some e)"
proof (cases sub)
  case (SubL2Book coin sf nl mt)
  let ?c = "wc_advance a time height c" and ?pos = "Some (fst a, time, height)"
  have stays: "wc_advance a time height ?c = ?c" by (auto simp: wc_advance_def)
  show ?thesis
  proof (cases "if wc_position ?c = ?pos then map_of (wc_entries ?c) sub else None")
    case (Some e')
    then have hit: "wc_position ?c = ?pos" "map_of (wc_entries ?c) sub = Some e'" by (simp_all split: if_splits)
    have "wc_get ser sub a time height d = (Inr (Some e'), ?c)" if "wc_advance a time height d = ?c" for d
      using hit that SubL2Book by (simp add: wc_get_def)
    from this [OF refl] this [OF stays] assms show ?thesis by simp
  next
    case None
    with assms SubL2Book obtain levels where v: "view_levels coin sf nl mt (snd a) = Some levels" "encode_book ser coin levels time height = Inr e"
      by (auto simp: wc_get_def Let_def split: option.splits sum.splits)
    let ?d = "if wc_cacheable time height c then wc_store sub e ?c else ?c"
    have d: "snd (wc_get ser sub a time height c) = ?d" using None SubL2Book v by (auto simp: wc_get_def Let_def split: if_splits)
    have "wc_advance a time height ?d = ?d"
      by (cases "wc_cacheable time height c")
         (simp_all add: stays, simp add: wc_advance_idem wc_store_lookup wc_advance_position)
    moreover have "(if wc_position ?d = ?pos then map_of (wc_entries ?d) sub else None) \<in> {None, Some e}"
      using None wc_store_lookup [of sub e ?c] by (auto split: if_splits)
    ultimately show ?thesis unfolding d using v SubL2Book by (auto simp: wc_get_def Let_def split: option.splits)
  qed
qed (use assms in \<open>simp_all add: wc_get_def\<close>)

text \<open>A book that is in the cache is written unless the client has passed it.\<close>

lemma send_book_Inr:
  assumes "send_ws_data_from_snapshot env sub a time height s = Some (Inr b, s')" and "is_l2_book sub"
    and "we_subscription env sub = Inr key" and "ss_sent_positions s key = None"
    and "fst (wc_get (we_response env) sub a time height (ss_wire_cache s)) = Inr (Some e)"
  shows "ss_frames s' = ss_frames s @ [BookFrame sub time height e] \<and> ss_manager s' = ss_manager s"
proof -
  from assms obtain s1 where s1: "s1 = s\<lparr>ss_readings := ss_readings s + 1\<rparr>"
    and "act_then (act_get ss_sent_positions) (\<lambda>sent_positions.
          if (case sent_positions key of Some previous \<Rightarrow> height \<le> previous | None \<Rightarrow> False) then act_return False
          else
            act_then (cached_book env sub a time height) (\<lambda>encoded.
              (case encoded of
                 Some text \<Rightarrow>
                   act_then (write_frame env (BookFrame sub time height text)) (\<lambda>_.
                   act_then (act_modify (\<lambda>s. s\<lparr>ss_sent_positions := (ss_sent_positions s)(key \<mapsto> height)\<rparr>)) (\<lambda>_.
                     act_return True))
               | None \<Rightarrow> act_return False))) s1 = Some (Inr b, s')"
    by (auto simp: send_ws_data_from_snapshot_def dest!: recent_frame)
  with assms(4,5) show ?thesis by (auto simp: write_frame_def dest!: cached_frame split: sum.splits)
qed

lemma compute_l2_Inr:
  "compute_l2 env s = Some (Inr r, s') \<Longrightarrow>
    (\<exists>l. s' = s\<lparr>ss_listener := l\<rparr>) \<and>
    (\<forall>time height snaps. r = Some (time, height, snaps) \<longrightarrow>
       (\<exists>st st'. ln_order_book_state (ss_listener s) = Some st \<and> time = st_time st \<and> height = st_height st \<and>
          st_compute_l2_snapshot (we_log10 env) st = Some ((time, height, snaps), st')))"
  by (cases "ln_order_book_state (ss_listener s)")
     (auto simp: compute_l2_def ln_compute_l2_snapshot_def st_compute_l2_snapshot_def split: option.splits bind_splits
       intro: exI [of _ "ss_listener s"])

lemma unit_result: "(\<forall>e. r \<noteq> Inl e) \<longleftrightarrow> r = Inr ()"
  by (cases r) auto

lemma drop_subscription_Inr: "drop_subscription sub s = Some (Inr u, s') \<longleftrightarrow> s' = s\<lparr>ss_manager := ss_manager s - {sub}\<rparr>"
  by (auto simp: drop_subscription_def sm_unsubscribe_def)

text \<open>
  What follows the acknowledgement of a request: the first data of a new stream, from the live books. A book is the encoding, from scratch, of the view
  in the snapshot computed from the listener's state.
\<close>

definition written :: "ws_env \<Rightarrow> server_response \<Rightarrow> frame \<Rightarrow> bool" where
  "written env m f \<longleftrightarrow> (\<exists>t. f = Message m t \<and> we_response env m = Inr t)"

definition first_answer :: "ws_env \<Rightarrow> listener \<Rightarrow> client_message \<Rightarrow> frame list \<Rightarrow> bool" where
  "first_answer env l msg fs \<longleftrightarrow>
     (case msg of
        Subscribe (SubL2Book c sf nl mt) \<Rightarrow>
          \<exists>st st' views e. ln_order_book_state l = Some st \<and>
            st_compute_l2_snapshot (we_log10 env) st = Some ((st_time st, st_height st, views), st') \<and>
            fresh_frame (we_response env) (SubL2Book c sf nl mt) views (st_time st) (st_height st) = Inr (Some e) \<and>
            fs = [BookFrame (SubL2Book c sf nl mt) (st_time st) (st_height st) e]
      | Subscribe (SubL4Book coin) \<Rightarrow>
          \<exists>st snap f. ln_order_book_state l = Some st \<and> (Coin coin, snap) \<in> set (to_snapshots_par (st_order_book st)) \<and>
            written env (RespL4Book (L4Snapshot coin (st_time st) (st_height st)
              (map l4_of_inner (snap_bids snap), map l4_of_inner (snap_asks snap)))) f \<and> fs = [f]
      | _ \<Rightarrow> fs = [])"

definition refused :: "ws_env \<Rightarrow> frame list \<Rightarrow> bool" where
  "refused env fs \<longleftrightarrow> (\<exists>m f. written env (RespError m) f \<and> fs = [f])"

text \<open>The cache holds right entries, and the address of a new snapshot is not the one of the snapshot it retains.\<close>

definition cache_ready :: "ws_env \<Rightarrow> usize \<Rightarrow> book_wire_cache \<Rightarrow> bool" where
  "cache_ready env addr c \<longleftrightarrow> wc_ok (we_response env) c \<and> (\<forall>p v. wc_source c = Some (p, v) \<longrightarrow> p \<noteq> addr)"

lemma cache_ready_fresh:
  "cache_ready env addr c \<Longrightarrow>
    fst (wc_get (we_response env) sub (addr, snaps) time height c) = fresh_frame (we_response env) sub snaps time height"
  using wc_get_fresh(1) [of "we_response env" c "(addr, snaps)" sub time height]
  by (auto simp: cache_ready_def same_allocation_def split: option.splits)

lemma start_book_stream_Inr:
  assumes "start_book_stream env addr (Subscribe sub) sub k s = Some (Inr u, s')" and "is_l2_book sub"
    and "we_subscription env sub = Inr k" and "we_parse_subscription env k \<in> {Inr sub} \<union> range Inl" and "ss_sent_positions s k = None"
    and "cache_ready env addr (ss_wire_cache s)"
  shows "\<exists>new. ss_frames s' = ss_frames s @ new \<and>
    ((\<exists>ack fs. new = ack # fs \<and> written env (SubscriptionResponse (Subscribe sub)) ack \<and> first_answer env (ss_listener s) (Subscribe sub) fs \<and>
        ss_manager s' = ss_manager s) \<or>
     refused env new \<and> ss_manager s' = ss_manager s - {sub})"
proof -
  from assms(1) obtain r s1 started s2 where c: "compute_l2 env s = Some (Inr r, s1)"
    and body: "(case r of
          Some (time, height, snapshots) \<Rightarrow>
            act_then (cached_book env sub (addr, snapshots) time height) (\<lambda>view.
            act_then (if view \<noteq> None then act_try (require_recent_source env time) else act_return (Inl SnapshotFailed)) (\<lambda>recent.
              (case recent of
                 Inl _ \<Rightarrow> act_return False
               | Inr _ \<Rightarrow>
                   act_then (send_socket_message env (SubscriptionResponse (Subscribe sub))) (\<lambda>_.
                   act_then (act_of (we_parse_subscription env k)) (\<lambda>selection.
                   act_then (send_ws_data_from_snapshot env selection (addr, snapshots) time height) (\<lambda>_.
                     act_return True))))))
        | None \<Rightarrow> act_return False) s1 = Some (Inr started, s2)"
    and fin: "(if started then act_return ()
          else
            act_then (drop_subscription sub) (\<lambda>_.
              send_socket_message env (RespError ''Unable to grab fresh order book snapshot''))) s2 = Some (Inr u, s')"
    unfolding start_book_stream_def by (auto simp del: split_paired_Ex)
  obtain l where s1: "s1 = s\<lparr>ss_listener := l\<rparr>" using compute_l2_Inr [OF c] by blast
  show ?thesis
  proof (cases started)
    case False
    have "ss_frames s2 = ss_frames s \<and> ss_manager s2 = ss_manager s" using body False s1
      by (auto simp: unit_result split: option.splits sum.splits if_splits dest!: cached_frame recent_frame)
    with fin False show ?thesis by (auto simp: drop_subscription_Inr refused_def written_def dest!: send_message_Inr)
  next
    case True
    with body obtain time height snaps where r: "r = Some (time, height, snaps)" by (auto split: option.splits)
    obtain st st' where st: "ln_order_book_state (ss_listener s) = Some st" "time = st_time st" "height = st_height st"
      "st_compute_l2_snapshot (we_log10 env) st = Some ((time, height, snaps), st')"
      using compute_l2_Inr [OF c] r by blast
    let ?get = "wc_get (we_response env) sub (addr, snaps) time height"
    let ?s3 = "\<lambda>t. s\<lparr>ss_listener := l, ss_wire_cache := snd (?get (ss_wire_cache s)), ss_readings := Suc (ss_readings s),
          ss_writes := Suc (ss_writes s), ss_frames := ss_frames s @ [Message (SubscriptionResponse (Subscribe sub)) t]\<rparr>"
    from body True obtain e t b where g: "Inr (Some e) = fst (?get (ss_wire_cache s))"
      and ack: "we_response env (SubscriptionResponse (Subscribe sub)) = Inr t"
      and sent: "send_ws_data_from_snapshot env sub (addr, snaps) time height (?s3 t) = Some (Inr b, s2)"
      using assms(4) by (auto simp: r s1 unit_result split: sum.splits if_splits dest!: cached_frame recent_frame send_message_Inr)
    have "ss_frames s2 = ss_frames (?s3 t) @ [BookFrame sub time height e] \<and> ss_manager s2 = ss_manager (?s3 t)"
      by (rule send_book_Inr [OF sent assms(2,3)]) (simp_all add: assms(5) wc_get_again [OF g [symmetric]])
    moreover have "fresh_frame (we_response env) sub snaps time height = Inr (Some e)"
      using g cache_ready_fresh [OF assms(6)] by simp
    ultimately show ?thesis using fin True st ack assms(2) by (cases sub) (auto simp: first_answer_def written_def)
  qed
qed

lemma immediate_frame:
  "\<not> is_l2_book sub \<Longrightarrow> handle_immediate_snapshot env sub s = Some (r, s') \<Longrightarrow>
    ss_frames s' = ss_frames s \<and> ss_manager s' = ss_manager s \<and>
    (\<forall>m. r = Inr m \<longrightarrow>
       (case m of
          None \<Rightarrow> first_answer env (ss_listener s) (Subscribe sub) []
        | Some m \<Rightarrow> (\<forall>f. written env m f \<longrightarrow> first_answer env (ss_listener s) (Subscribe sub) [f]) \<and> (\<forall>b. m \<noteq> RespL2Book b)))"
proof (cases sub)
  case (SubL4Book coin)
  assume r: "handle_immediate_snapshot env sub s = Some (r, s')"
  show ?thesis
  proof (cases "ln_order_book_state (ss_listener s)")
    case None
    with r SubL4Book show ?thesis
      by (auto simp: handle_immediate_snapshot_def ln_compute_snapshot_def act_then_def act_get_def act_of_def)
  next
    case (Some st)
    let ?mine = "rev (filter (\<lambda>(c, _). c = Coin coin) (to_snapshots_par (st_order_book st)))"
    have mem: "x \<in> set (to_snapshots_par (st_order_book st)) \<and> fst x = Coin coin" if "?mine = x # xs" for x xs
    proof -
      have "x \<in> set ?mine" unfolding that by simp
      then show ?thesis by auto
    qed
    from r have r': "act_then (require_recent_source env (st_time st)) (\<lambda>_.
        (case ?mine of
           (c, snapshot) # _ \<Rightarrow>
             act_return (Some (RespL4Book (L4Snapshot (coin_value c) (st_time st) (st_height st)
               (map l4_of_inner (snap_bids snapshot), map l4_of_inner (snap_asks snapshot)))))
         | [] \<Rightarrow> act_of (Inl SnapshotFailed))) s = Some (r, s')"
      unfolding handle_immediate_snapshot_def SubL4Book subscription.case act_get_then ln_compute_snapshot_def Some option.map option.case
        st_compute_snapshot_def timed_snapshots.simps .
    then obtain q s1 where q: "require_recent_source env (st_time st) s = Some (q, s1)"
      by (auto simp: act_then_def split: option.splits)
    note s1 = recent_frame [OF q]
    show ?thesis
    proof (cases ?mine)
      case Nil
      with r' q s1 show ?thesis by (cases q) (auto simp: act_then_def act_of_def)
    next
      case (Cons x xs)
      obtain c snap where x: "x = (c, snap)" by (cases x)
      with mem [OF Cons] r' q s1 Cons SubL4Book Some show ?thesis
        by (cases q) (auto simp: act_then_def act_return_def first_answer_def)
    qed
  qed
qed (auto simp: handle_immediate_snapshot_def act_return_def first_answer_def)

lemma first_data_Inr:
  assumes "first_data env msg k s = Some (Inr r, s')" and "\<not> (is_subscribe msg \<and> is_l2_book (message_subscription msg))"
  shows "ss_frames s' = ss_frames s \<and> ss_manager s' = ss_manager s \<and>
    (\<forall>m. r = Inr m \<longrightarrow>
       (case m of
          None \<Rightarrow> first_answer env (ss_listener s) msg []
        | Some m \<Rightarrow> (\<forall>f. written env m f \<longrightarrow> first_answer env (ss_listener s) msg [f]) \<and> (\<forall>b. m \<noteq> RespL2Book b))) \<and>
    (r = Inl e \<longrightarrow> is_subscribe msg)"
proof (cases msg)
  case (Subscribe sub)
  with assms immediate_frame [of sub env s r s'] show ?thesis by (auto simp: first_data_def)
qed (use assms in \<open>auto simp: first_data_def first_answer_def\<close>)

lemma answer_Inr:
  assumes "answer_request env msg k r s = Some (Inr u, s')" and "\<forall>b. r \<noteq> Inr (Some (RespL2Book b))"
  shows "case r of
      Inl _ \<Rightarrow> (\<exists>m f. ss_frames s' = ss_frames s @ [f] \<and> written env (RespError m) f) \<and> ss_manager s' = ss_manager s - {message_subscription msg}
    | Inr None \<Rightarrow> (\<exists>ack. ss_frames s' = ss_frames s @ [ack] \<and> written env (SubscriptionResponse msg) ack) \<and> ss_manager s' = ss_manager s
    | Inr (Some m) \<Rightarrow> (\<exists>ack f. ss_frames s' = ss_frames s @ [ack, f] \<and> written env (SubscriptionResponse msg) ack \<and> written env m f) \<and>
        ss_manager s' = ss_manager s"
  using assms
  by (auto simp: written_def answer_request_def drop_subscription_Inr split: sum.splits option.splits server_response.splits dest!: send_message_Inr)

text \<open>How the set of subscriptions may change.\<close>

definition held_after :: "client_message \<Rightarrow> subscription set \<Rightarrow> subscription set \<Rightarrow> bool" where
  "held_after msg before after \<longleftrightarrow>
     (case msg of
        Subscribe sub \<Rightarrow> sub \<notin> before \<and> after = insert sub before \<and> card before < MAX_SUBSCRIPTIONS
      | Unsubscribe sub \<Rightarrow> sub \<in> before \<and> after = before - {sub})"

lemma manager_update_Inr:
  assumes "manager_update msg s = Some (Inr ok, s')"
    and "\<not> (is_subscribe msg \<and> card (ss_manager s) \<ge> MAX_SUBSCRIPTIONS \<and> message_subscription msg \<notin> ss_manager s)"
  shows "s' = s\<lparr>ss_manager := ss_manager s'\<rparr> \<and> (if ok then held_after msg (ss_manager s) (ss_manager s') else ss_manager s' = ss_manager s)"
  using assms by (cases msg) (auto simp: manager_update_def sm_subscribe_def sm_unsubscribe_def held_after_def Let_def split: if_splits)

lemma receive_accepted:
  assumes "receive_client_message env addr msg s = Some (Inr u, s')"
    and "\<not> (is_subscribe msg \<and> card (ss_manager s) \<ge> MAX_SUBSCRIPTIONS \<and> message_subscription msg \<notin> ss_manager s)"
    and "validate (message_subscription msg) (ss_universe s)"
    and "we_subscription env (message_subscription msg) = Inr k"
    and "we_parse_subscription env k \<in> {Inr (message_subscription msg)} \<union> range Inl"
    and "message_subscription msg \<notin> ss_manager s \<longrightarrow> ss_sent_positions s k = None" and "cache_ready env addr (ss_wire_cache s)"
  shows "\<exists>new. ss_frames s' = ss_frames s @ new \<and>
    ((\<exists>ack fs. new = ack # fs \<and> written env (SubscriptionResponse msg) ack \<and> first_answer env (ss_listener s) msg fs \<and>
        held_after msg (ss_manager s) (ss_manager s')) \<or>
     refused env new \<and> ss_manager s' = ss_manager s)"
proof -
  from assms(1) obtain ok s1 where m: "manager_update msg s = Some (Inr ok, s1)"
    and rest: "(if \<not> ok
              then send_socket_message env (RespError
                (''Already '' @ (if is_subscribe msg then [] else ''un'') @ ''subscribed: '' @ k))
              else if is_subscribe msg \<and> is_l2_book (message_subscription msg)
              then start_book_stream env addr msg (message_subscription msg) k
              else act_then (first_data env msg k) (answer_request env msg k)) s1 = Some (Inr u, s')"
    using assms(2,3,4) by (auto simp: receive_client_message_def Let_def split: if_splits)
  note s1 = manager_update_Inr [OF m assms(2)]
  have undo: "ss_manager s1 - {sub} = ss_manager s" if "msg = Subscribe sub" "ok" for sub
    using s1 that by (auto simp: held_after_def)
  show ?thesis
  proof (cases ok)
    case False
    with rest s1 show ?thesis by (auto simp: refused_def written_def dest!: send_message_Inr)
  next
    case ok: True
    have eqs: "ss_frames s1 = ss_frames s" "ss_listener s1 = ss_listener s" "ss_sent_positions s1 = ss_sent_positions s"
      "ss_wire_cache s1 = ss_wire_cache s"
      using s1 by (metis session.ext_inject session.surjective session.update_convs(4))+
    show ?thesis
    proof (cases "is_subscribe msg \<and> is_l2_book (message_subscription msg)")
      case True
      then obtain sub where sub: "msg = Subscribe sub" "is_l2_book sub" by (cases msg) auto
      with rest ok have "start_book_stream env addr (Subscribe sub) sub k s1 = Some (Inr u, s')" by simp
      moreover have "ss_sent_positions s k = None" using assms(6) s1 ok sub(1) by (auto simp: held_after_def)
      ultimately show ?thesis
        using start_book_stream_Inr [of env addr sub k s1] assms(4,5,7) sub eqs s1 ok undo [OF sub(1)] by auto
    next
      case False
      with rest ok obtain r s2 where f: "first_data env msg k s1 = Some (Inr r, s2)" and a: "answer_request env msg k r s2 = Some (Inr u, s')"
        by auto
      note fd = first_data_Inr [OF f False]
      have "\<forall>b. r \<noteq> Inr (Some (RespL2Book b))" using fd by (auto split: option.splits)
      note an = answer_Inr [OF a this]
      show ?thesis
      proof (cases r)
        case (Inl e)
        with fd have "is_subscribe msg" by blast
        then obtain sub where "msg = Subscribe sub" by (cases msg) auto
        with an fd Inl eqs undo [OF this ok] show ?thesis by (auto simp: refused_def)
      next
        case (Inr m)
        with an fd eqs s1 ok show ?thesis by (cases m) auto
      qed
    qed
  qed
qed


text \<open>The client subscribes and gets its book; it subscribes again and is told so.\<close>

definition reading_env :: ws_env where
  "reading_env = (demo_env (\<lambda>_. Subscribe hip4_view))\<lparr>we_parse_subscription :=
     (\<lambda>k. if k = demo_key hip4_view then Inr hip4_view else Inl SnapshotFailed)\<rparr>"


end
