(* ===== verification/Server.thy ===== *)
theory Server
  imports Session_Properties
begin

text \<open>
  Admission of connections (\<open>run_websocket_server\<close> and \<open>ws_handler\<close> of \<open>servers/websocket_server.rs\<close>): the semaphore of 256 permits, the upgrade and the life of
  the connections that hold a permit.
\<close>

section \<open>Connections\<close>

text \<open>
  A connection holds a permit from its request on: while the upgrade runs, while \<open>handle_socket\<close> starts (it subscribes to the channel, asks whether the listener is ready
  and then for the universe), and while its socket is served. It has received the messages of the channel from the first number to before the second.
\<close>

datatype connection =
    Upgrading delivery_trace
  | Subscribed delivery_trace nat
  | Checked delivery_trace nat listener
  | Open session nat nat

datatype http_response = TooManyRequests | SwitchingProtocols "string option"

text \<open>The permits left, the counter of trace ids and the connections.\<close>

record server =
  sr_permits :: nat
  sr_next_id :: u64
  sr_connections :: "connection list"

definition run_websocket_server :: server where
  "run_websocket_server = \<lparr>sr_permits = 256, sr_next_id = 1, sr_connections = []\<rparr>"

text \<open>\<open>HeaderValue::from_str\<close>: visible ASCII, spaces and tabs.\<close>

definition header_value :: "string \<Rightarrow> string option" where
  "header_value s = (if list_all (\<lambda>c. of_char c = (9 :: nat) \<or> 32 \<le> (of_char c :: nat) \<and> (of_char c :: nat) < 127) s then Some s else None)"

text \<open>
  \<open>upgrades\<close> tells whether the request is a valid upgrade; the handler panics when it is not, which returns the permit. The other
  arguments are the two clock readings, the process id and the port of the peer.
\<close>

definition ws_handler :: "bool \<Rightarrow> u64 \<Rightarrow> u64 \<Rightarrow> nat \<Rightarrow> nat \<Rightarrow> server \<Rightarrow> http_response option \<times> server" where
  "ws_handler upgrades ms opened pid source_peer_port srv =
     (if sr_permits srv = 0 then (Some TooManyRequests, srv)
      else if \<not> upgrades then (None, srv)
      else
        let (trace, next_id) = dt_new ms opened pid source_peer_port (sr_next_id srv)
        in (Some (SwitchingProtocols (header_value (dt_id trace))),
            srv\<lparr>sr_permits := sr_permits srv - 1, sr_next_id := next_id, sr_connections := sr_connections srv @ [Upgrading trace]\<rparr>))"

text \<open>The messages sent on the channel so far.\<close>

definition sent_messages :: "listener \<Rightarrow> internal_message list" where
  "sent_messages l = (case ln_internal_message_tx l of Some sent \<Rightarrow> sent | None \<Rightarrow> [])"

fun of_channel :: "ws_event \<Rightarrow> bool" where
  "of_channel (Received _ _) = True"
| "of_channel _ = False"

text \<open>The connections share serde's encodings; each has its own readings of the clock, outcomes of writes and order of subscriptions.\<close>

definition turn_env :: "ws_env \<Rightarrow> (nat \<Rightarrow> nat result) \<Rightarrow> (nat \<Rightarrow> unit result) \<Rightarrow> (subscription set \<Rightarrow> subscription list) \<Rightarrow> ws_env" where
  "turn_env env clock writes order = env\<lparr>we_clock := clock, we_write := writes, we_order := order\<rparr>"

text \<open>
  Steps of the connections, from the listener and the wire cache they share to what these become. A connection receives the messages of the channel in order; one
  that falls behind gets an error instead, which ends it. It ends for any reason (the upgrade fails or takes five seconds, the listener is not ready, the
  client leaves, an error, a panic), and then its permit is returned.
\<close>

inductive server_step :: "ws_env \<Rightarrow> listener \<Rightarrow> book_wire_cache \<Rightarrow> server \<Rightarrow> listener \<Rightarrow> book_wire_cache \<Rightarrow> server \<Rightarrow> bool"
  for env l c where
  request: "ws_handler upgrades ms opened pid port srv = (r, srv') \<Longrightarrow> server_step env l c srv l c srv'"
| upgraded: "sr_connections srv = xs @ Upgrading t # ys \<Longrightarrow>
    server_step env l c srv l c (srv\<lparr>sr_connections := xs @ Subscribed t (length (sent_messages l)) # ys\<rparr>)"
| checked: "sr_connections srv = xs @ Subscribed t n # ys \<Longrightarrow> is_ready l \<Longrightarrow>
    server_step env l c srv l c (srv\<lparr>sr_connections := xs @ Checked t n l # ys\<rparr>)"
| opened: "sr_connections srv = xs @ Checked t n l0 # ys \<Longrightarrow>
    server_step env l c srv l c (srv\<lparr>sr_connections := xs @ Open (session_new l0 l c t) n n # ys\<rparr>)"
| received: "sr_connections srv = xs @ Open s m n # ys \<Longrightarrow> n < length (sent_messages l) \<Longrightarrow>
    handle_events (turn_env env clock writes order) [(l, c, Received (sent_messages l ! n) addr)] s = Some (Inr False, s') \<Longrightarrow>
    server_step env l c srv (ss_listener s') (ss_wire_cache s') (srv\<lparr>sr_connections := xs @ Open s' m (Suc n) # ys\<rparr>)"
| asked: "sr_connections srv = xs @ Open s m n # ys \<Longrightarrow> \<not> of_channel ev \<Longrightarrow>
    handle_events (turn_env env clock writes order) [(l, c, ev)] s = Some (Inr False, s') \<Longrightarrow>
    server_step env l c srv (ss_listener s') (ss_wire_cache s') (srv\<lparr>sr_connections := xs @ Open s' m n # ys\<rparr>)"
| left: "sr_connections srv = xs @ Open s m n # ys \<Longrightarrow>
    handle_events (turn_env env clock writes order) [(l, c, ev)] s = Some (r, s') \<Longrightarrow>
    server_step env l c srv (ss_listener s') (ss_wire_cache s') (srv\<lparr>sr_permits := sr_permits srv + 1, sr_connections := xs @ ys\<rparr>)"
| ended: "sr_connections srv = xs @ cn # ys \<Longrightarrow>
    server_step env l c srv l c (srv\<lparr>sr_permits := sr_permits srv + 1, sr_connections := xs @ ys\<rparr>)"

text \<open>The connections on their own: between their steps the shared state is whatever the rest of the program makes of it.\<close>

inductive server_reached :: "ws_env \<Rightarrow> server \<Rightarrow> bool" for env where
  start: "server_reached env run_websocket_server"
| stepped: "server_reached env srv \<Longrightarrow> server_step env l c srv l' c' srv' \<Longrightarrow> server_reached env srv'"

section \<open>Subscriptions of a connection\<close>

definition within_capacity :: "session \<Rightarrow> bool" where
  "within_capacity s \<longleftrightarrow> finite (ss_manager s) \<and> card (ss_manager s) \<le> MAX_SUBSCRIPTIONS"

lemma subscriptions_same: "(\<And>s r s'. m s = Some (r, s') \<Longrightarrow> ss_manager s' = ss_manager s) \<Longrightarrow> keeps within_capacity m"
  by (rule validI) (auto simp: within_capacity_def)

lemma within_step: "within_capacity s \<Longrightarrow> within_capacity (s\<lparr>ss_manager := sm_step (ss_manager s) m\<rparr>)"
  using sm_step_bounded [of "ss_manager s" m] by (simp add: within_capacity_def)

lemma within_manager: "keeps within_capacity (manager_update m)" "keeps within_capacity (drop_subscription sub)"
  using within_step [of _ m] within_step [of _ "Unsubscribe sub"]
  by (cases m; force simp: valid_def manager_update_def drop_subscription_def act_modify_def Let_def split: prod.splits)+

interpretation subscriptions: session_part env within_capacity for env
  by unfold_locales (rule within_manager subscriptions_same; auto simp: act_modify_def read_clock_def write_frame_def cached_book_def compute_l2_def
      split: sum.splits prod.splits)+

interpretation capacity: connection_invariant env "\<lambda>_. True" within_capacity for env
proof (unfold_locales, goal_cases)
  case (3 l c)
  show ?case by (rule subscriptions_same) (auto simp: act_modify_def)
qed (auto simp: within_capacity_def session_new_def intro: act_rules subscriptions.turn)

section \<open>Properties\<close>

fun connection_within :: "connection \<Rightarrow> bool" where
  "connection_within (Open s m n) \<longleftrightarrow> within_capacity s"
| "connection_within _ \<longleftrightarrow> True"

definition server_ok :: "server \<Rightarrow> bool" where
  "server_ok srv \<longleftrightarrow> sr_permits srv + length (sr_connections srv) = 256 \<and> list_all connection_within (sr_connections srv)"

lemma server_turn_capacity:
  "server_ok srv \<Longrightarrow> sr_connections srv = xs @ Open s m n # ys \<Longrightarrow> handle_events env [e] s = Some (r, s') \<Longrightarrow> within_capacity s'"
  by (rule validD_any [OF capacity.turns]) (auto simp: server_ok_def)

lemma server_step_ok: "server_step env l c srv l' c' srv' \<Longrightarrow> server_ok srv \<Longrightarrow> server_ok srv'"
proof (induction rule: server_step.induct)
  case (request upgrades ms opened pid port srv r srv')
  then show ?case by (auto simp: ws_handler_def server_ok_def split: if_splits prod.splits)
next
  case (opened srv xs t n l0 ys)
  then show ?case using capacity.opens by (auto simp: server_ok_def)
next
  case (received srv xs s m n ys clock writes order addr s')
  with server_turn_capacity [OF received.prems received.hyps(1,3)] show ?case by (auto simp: server_ok_def)
next
  case (asked srv xs s m n ys ev clock writes order s')
  with server_turn_capacity [OF asked.prems asked.hyps(1,3)] show ?case by (auto simp: server_ok_def)
qed (auto simp: server_ok_def)

lemma server_reached_ok: "server_reached env srv \<Longrightarrow> server_ok srv"
proof (induction rule: server_reached.induct)
  case start
  show ?case by (simp add: run_websocket_server_def server_ok_def)
qed (rule server_step_ok)

lemma trace_id_header: "header_value (dt_id (fst (dt_new ms opened pid port n))) = Some (dt_id (fst (dt_new ms opened pid port n)))"
proof -
  have d: "32 \<le> (of_char (hex_digit d) :: nat) \<and> (of_char (hex_digit d) :: nat) < 127" if "d < 16" for d
    using hex_digit_code [OF that] that by simp
  have "c \<in> set (to_hex k) \<Longrightarrow> 32 \<le> (of_char c :: nat) \<and> (of_char c :: nat) < 127" for c k
  proof (induction k rule: to_hex.induct)
    case (1 k)
    then show ?case using d by (subst (asm) (2) to_hex.simps) (auto split: if_splits)
  qed
  then show ?thesis by (auto simp: header_value_def dt_new_def list_all_iff)
qed

text \<open>
  C40. The load on the server is bounded: however clients connect, subscribe and leave, it never serves more than 256 connections, counting those still
  being upgraded, each with at most \<open>MAX_SUBSCRIPTIONS\<close> subscriptions. A request is refused exactly when 256 are in use; otherwise a valid upgrade is accepted and
  its response names the trace of the connection.
\<close>

theorem server_capacity_bounded:
  assumes "server_reached env srv"
  shows "length (sr_connections srv) \<le> 256 \<and>
    (\<forall>s m n. Open s m n \<in> set (sr_connections srv) \<longrightarrow> card (ss_manager s) \<le> MAX_SUBSCRIPTIONS) \<and>
    (fst (ws_handler upgrades ms opened pid port srv) = Some TooManyRequests \<longleftrightarrow> length (sr_connections srv) = 256) \<and>
    (upgrades \<and> length (sr_connections srv) < 256 \<longrightarrow>
       (\<exists>trace. fst (ws_handler upgrades ms opened pid port srv) = Some (SwitchingProtocols (Some (dt_id trace))) \<and>
          sr_connections (snd (ws_handler upgrades ms opened pid port srv)) = sr_connections srv @ [Upgrading trace]))"
proof -
  have ok: "sr_permits srv + length (sr_connections srv) = 256"
    using server_reached_ok [OF assms] by (simp add: server_ok_def)
  have within: "within_capacity s" if "Open s m n \<in> set (sr_connections srv)" for s m n
    using server_reached_ok [OF assms] that by (auto simp: server_ok_def list_all_iff)
  obtain trace n where t: "dt_new ms opened pid port (sr_next_id srv) = (trace, n)" by fastforce
  have "header_value (dt_id trace) = Some (dt_id trace)" using trace_id_header [of ms opened pid port "sr_next_id srv"] t by simp
  with ok t within show ?thesis by (auto simp: ws_handler_def within_capacity_def)
qed

theorem server_capacity_bounded_witness:
  "\<exists>srv. server_reached (demo_env (\<lambda>_. Subscribe hip4_view)) srv \<and> length (sr_connections srv) = 1 \<and>
     fst (ws_handler True 0 0 1 80 srv) \<noteq> Some TooManyRequests"
proof -
  let ?env = "demo_env (\<lambda>_. Subscribe hip4_view)"
  obtain r srv where h: "ws_handler True 0 0 1 80 run_websocket_server = (r, srv)" by fastforce
  then have n: "length (sr_connections srv) = 1" by (auto simp: ws_handler_def run_websocket_server_def split: prod.splits)
  have s: "server_reached ?env srv" by (rule server_reached.stepped [OF server_reached.start server_step.request [OF h]])
  with server_capacity_bounded [OF s, of True 0 0 1 80] n show ?thesis by auto
qed

end
