(* ===== verification/Client_Stream.thy ===== *)
theory Client_Stream
  imports Session_Properties Listener_Protocol
begin

text \<open>
  The listener and one connection together: what a client that only listens is told of the blocks the listener applies.
\<close>

section \<open>What a connection is told of a block\<close>

fun l4_update :: "frame \<Rightarrow> l4_book_updates option" where
  "l4_update (Message (RespL4Book (L4Updates u)) _) = Some u"
| "l4_update _ = None"

definition l4_updates :: "frame list \<Rightarrow> l4_book_updates list" where
  "l4_updates fs = List.map_filter l4_update fs"

lemma l4_updates_simps [simp]:
  "l4_updates [] = []" "l4_updates (fs @ gs) = l4_updates fs @ l4_updates gs"
  "l4_updates [f] = (case l4_update f of None \<Rightarrow> [] | Some u \<Rightarrow> [u])"
  by (simp_all add: l4_updates_def List.map_filter_def split: option.splits)

fun coin_updates :: "(string \<rightharpoonup> l4_book_updates) \<Rightarrow> subscription \<Rightarrow> l4_book_updates option" where
  "coin_updates updates (SubL4Book coin) = updates coin"
| "coin_updates updates _ = None"

text \<open>The updates of a block for the coins followed, in the order the subscriptions are walked.\<close>

definition told :: "ws_env \<Rightarrow> subscription set \<Rightarrow> diff_batch \<Rightarrow> status_batch \<Rightarrow> l4_book_updates list" where
  "told env subs d b =
     (case block_time d of None \<Rightarrow> [] | Some time \<Rightarrow> List.map_filter (coin_updates (updates_of time d b)) (we_order env subs))"

lemma map_filter_eq: "(\<And>x. x \<in> set xs \<Longrightarrow> f x = g x) \<Longrightarrow> List.map_filter f xs = List.map_filter g xs"
  by (induction xs) (auto simp: List.map_filter_simps split: option.splits)

lemma send_updates_Inr:
  assumes "send_ws_data_from_book_updates env sub updates s = Some (Inr updates', s')"
  shows "ss_manager s' = ss_manager s \<and>
    l4_updates (ss_frames s') = l4_updates (ss_frames s) @ (case coin_updates updates sub of None \<Rightarrow> [] | Some u \<Rightarrow> [u]) \<and>
    (\<forall>sub'. sub' \<noteq> sub \<longrightarrow> coin_updates updates' sub' = coin_updates updates sub')"
proof (cases sub)
  case (SubL4Book coin)
  have "coin_updates (updates(coin := None)) sub' = coin_updates updates sub'" if "sub' \<noteq> SubL4Book coin" for sub'
    using that by (cases sub') auto
  with assms SubL4Book show ?thesis
    by (auto simp: send_ws_data_from_book_updates_def split: option.splits dest!: send_message_Inr)
qed (use assms in \<open>auto simp: send_ws_data_from_book_updates_def\<close>)

lemma l4_loop_exact:
  "act_fold (\<lambda>updates sub.
      if \<not> is_l4_book sub then act_return updates
      else act_then (require_recent_source env time) (\<lambda>_. send_ws_data_from_book_updates env sub updates)) updates subs s = Some (Inr x, s') \<Longrightarrow>
    distinct subs \<Longrightarrow>
    ss_manager s' = ss_manager s \<and> l4_updates (ss_frames s') = l4_updates (ss_frames s) @ List.map_filter (coin_updates updates) subs"
proof (induction subs arbitrary: updates s)
  case Nil
  then show ?case by (simp add: List.map_filter_def)
next
  case (Cons sub subs)
  have same: "List.map_filter (coin_updates updates') subs = List.map_filter (coin_updates updates) subs"
    if "\<forall>sub'. sub' \<noteq> sub \<longrightarrow> coin_updates updates' sub' = coin_updates updates sub'" for updates'
    using that Cons.prems(2) by (intro map_filter_eq) auto
  show ?case
  proof (cases "is_l4_book sub")
    case False
    then have "coin_updates updates sub = None" by (cases sub) auto
    with False Cons show ?thesis by (auto simp: List.map_filter_simps)
  next
    case True
    with Cons.prems(1) obtain s1 updates' s2 where "require_recent_source env time s = Some (Inr (), s1)"
      and u: "send_ws_data_from_book_updates env sub updates s1 = Some (Inr updates', s2)"
      and rest: "act_fold (\<lambda>updates sub.
          if \<not> is_l4_book sub then act_return updates
          else act_then (require_recent_source env time) (\<lambda>_. send_ws_data_from_book_updates env sub updates)) updates' subs s2 = Some (Inr x, s')"
      by auto
    with recent_frame have s1: "s1 = s\<lparr>ss_readings := ss_readings s + 1\<rparr>" by blast
    note one = send_updates_Inr [OF u]
    have "distinct subs" using Cons.prems(2) by simp
    from Cons.IH [OF rest this] one same [of updates'] show ?thesis
      by (simp add: s1 List.map_filter_simps split: option.splits)
  qed
qed

lemma send_l4_exact:
  assumes "send_l4_batch env subs d b s = Some (Inr u, s')" and "distinct (we_order env subs)" and "set (we_order env subs) = subs"
  shows "ss_manager s' = ss_manager s \<and> l4_updates (ss_frames s') = l4_updates (ss_frames s) @ told env subs d b"
proof (cases "\<exists>sub \<in> subs. is_l4_book sub")
  case True
  with assms(1) obtain time s1 x where t: "block_time d = Some time" and s1: "require_recent_source env time s = Some (Inr (), s1)"
    and l: "act_fold (\<lambda>updates sub.
      if \<not> is_l4_book sub then act_return updates
      else act_then (require_recent_source env time) (\<lambda>_. send_ws_data_from_book_updates env sub updates)) (updates_of time d b)
        (we_order env subs) s1 = Some (Inr x, s')"
    by (auto simp: send_l4_batch_def coin_to_book_updates_spec)
  from l4_loop_exact [OF l assms(2)] recent_frame [OF s1] show ?thesis by (simp add: told_def t)
next
  case False
  then have "coin_updates updates sub = None" if "sub \<in> subs" for updates sub using that by (cases sub) auto
  then have "told env subs d b = []" using assms(3) by (auto simp: told_def List.map_filter_def filter_empty_conv split: option.splits)
  with assms(1) False show ?thesis by (simp add: send_l4_batch_def)
qed

section \<open>Turns that tell nothing of blocks\<close>

definition quiet :: "l4_book_updates list \<Rightarrow> subscription set \<Rightarrow> session \<Rightarrow> bool" where
  "quiet us subs s \<longleftrightarrow> l4_updates (ss_frames s) = us \<and> ss_manager s = subs"

lemma quiet_rules [act_rules]:
  "(\<And>s. ss_frames (h s) = ss_frames s) \<Longrightarrow> (\<And>s. ss_manager (h s) = ss_manager s) \<Longrightarrow> keeps (quiet us subs) (act_modify h)"
  "keeps (quiet us subs) (read_clock env)"
  "l4_update f = None \<Longrightarrow> keeps (quiet us subs) (write_frame env f)"
  "keeps (quiet us subs) (cached_book env sub a t i)"
  by (auto simp: valid_def act_modify_def read_clock_def write_frame_def cached_book_def quiet_def split: sum.splits prod.splits)

lemma quiet_derived [act_rules]:
  "keeps (quiet us subs) (now_ms env)" "keeps (quiet us subs) (require_recent_source env time)"
  "keeps (quiet us subs) (send_socket_message env (RespTrades ts))" "keeps (quiet us subs) (send_socket_message env (RespError e))"
  unfolding now_ms_def require_recent_source_def send_socket_message_def by (intro act_rules; simp)+

lemma quiet_send_book [act_rules]: "keeps (quiet us subs) (send_ws_data_from_snapshot env sub a time height)"
  unfolding send_ws_data_from_snapshot_def by (intro act_rules) (auto split: option.splits intro!: act_rules)

lemma quiet_publish [act_rules]: "keeps (quiet us subs) (publish_snapshot env a time height)"
  unfolding publish_snapshot_def by (intro act_rules) simp_all

lemma quiet_trades [act_rules]: "keeps (quiet us subs) (send_fill_batch env subs' b)"
  unfolding send_fill_batch_def send_ws_data_from_trades_def
  by (intro act_rules) (auto split: subscription.splits option.splits intro!: act_rules)


section \<open>From the node's data to a client\<close>

fun block_of :: "internal_message \<Rightarrow> (diff_batch \<times> status_batch) option" where
  "block_of (MsgL4BookUpdates d b) = Some (d, b)"
| "block_of _ = None"

definition blocks :: "internal_message list \<Rightarrow> (diff_batch \<times> status_batch) list" where
  "blocks ms = List.map_filter block_of ms"

fun received :: "(listener \<times> book_wire_cache \<times> ws_event) list \<Rightarrow> internal_message list" where
  "received [] = []"
| "received ((_, _, Received m _) # evs) = m # received evs"
| "received (_ # evs) = received evs"

fun from_client :: "ws_event \<Rightarrow> bool" where
  "from_client (TextFrame _ _) = True"
| "from_client _ = False"

fun told_by :: "ws_env \<Rightarrow> subscription set \<Rightarrow> ws_event \<Rightarrow> l4_book_updates list" where
  "told_by env subs (Received (MsgL4BookUpdates d b) _) = told env subs d b"
| "told_by env subs _ = []"

lemma event_told:
  assumes "handle_event env ev s = Some (Inr False, s')" and "\<not> from_client ev"
    and "distinct (we_order env (ss_manager s))" and "set (we_order env (ss_manager s)) = ss_manager s"
  shows "ss_manager s' = ss_manager s \<and> l4_updates (ss_frames s') = l4_updates (ss_frames s) @ told_by env (ss_manager s) ev \<and>
    (\<forall>addr. ev \<noteq> Received MsgGap addr)"
proof (cases "\<exists>d b addr. ev = Received (MsgL4BookUpdates d b) addr")
  case True
  then obtain d b addr where ev: "ev = Received (MsgL4BookUpdates d b) addr" by blast
  with assms(1) have "send_l4_batch env (ss_manager s) d b s = Some (Inr (), s')" by (auto simp: handle_event_def)
  from send_l4_exact [OF this assms(3,4)] show ?thesis by (simp add: ev)
next
  case False
  have "keeps (quiet (l4_updates (ss_frames s)) (ss_manager s)) (handle_event env ev)"
    using False assms(2) unfolding handle_event_def by (auto split: ws_event.splits internal_message.splits intro!: act_rules)
  from validD_any [OF this _ assms(1)] have "quiet (l4_updates (ss_frames s)) (ss_manager s) s'" by (simp add: quiet_def)
  moreover have "told_by env (ss_manager s) ev = []" using False by (cases ev; cases "case ev of Received m _ \<Rightarrow> m | _ \<Rightarrow> MsgGap") auto
  moreover have "ev \<noteq> Received MsgGap addr" for addr using assms(1) by (auto simp: handle_event_def)
  ultimately show ?thesis by (simp add: quiet_def)
qed

lemma events_told:
  "handle_events env evs s = Some (Inr False, s') \<Longrightarrow> \<forall>e \<in> set evs. \<not> from_client (snd (snd e)) \<Longrightarrow>
    distinct (we_order env (ss_manager s)) \<Longrightarrow> set (we_order env (ss_manager s)) = ss_manager s \<Longrightarrow>
    ss_manager s' = ss_manager s \<and> MsgGap \<notin> set (received evs) \<and>
    l4_updates (ss_frames s') = l4_updates (ss_frames s) @ concat (map (\<lambda>(d, b). told env (ss_manager s) d b) (blocks (received evs)))"
proof (induction evs arbitrary: s)
  case Nil
  then show ?case by (simp add: blocks_def List.map_filter_def)
next
  case (Cons e evs)
  obtain l c ev where e: "e = (l, c, ev)" by (cases e)
  let ?s = "s\<lparr>ss_listener := l, ss_wire_cache := c\<rparr>"
  from Cons.prems(1) obtain s1 where h: "handle_event env ev ?s = Some (Inr False, s1)" and rest: "handle_events env evs s1 = Some (Inr False, s')"
    by (auto simp: e split: if_splits)
  have f: "\<not> from_client ev" using Cons.prems(2) by (simp add: e)
  note t = event_told [OF h f]
  have "received (e # evs) = (case ev of Received m _ \<Rightarrow> m # received evs | _ \<Rightarrow> received evs)" by (cases ev) (simp_all add: e)
  moreover have "concat (map (\<lambda>(d, b). told env subs d b) (blocks (case ev of Received m _ \<Rightarrow> m # ms | _ \<Rightarrow> ms))) =
      told_by env subs ev @ concat (map (\<lambda>(d, b). told env subs d b) (blocks ms))" for subs ms
  proof (cases ev)
    case (Received m addr)
    then show ?thesis by (cases m) (simp_all add: blocks_def List.map_filter_simps)
  qed simp_all
  ultimately show ?case using Cons.IH [OF rest] Cons.prems t by (auto split: ws_event.splits)
qed

fun consecutive :: "u64 list \<Rightarrow> bool" where
  "consecutive (h # k # hs) = (k = h + 1 \<and> consecutive (k # hs))"
| "consecutive _ = True"

lemma consecutive_Cons: "consecutive (h # hs) \<longleftrightarrow> (hs = [] \<or> hd hs = h + 1) \<and> consecutive hs"
  by (cases hs) auto

lemma foldl_scan_ok: "fst (foldl scan r ms) \<Longrightarrow> fst r"
proof (induction ms arbitrary: r)
  case (Cons m ms)
  then have "fst (scan r m)" by simp
  then show ?case by (rule scan_ok)
qed simp

lemma scan_consecutive:
  "fst (foldl scan r ms) \<Longrightarrow> MsgGap \<notin> set ms \<Longrightarrow>
    consecutive (map (ba_block_number \<circ> fst) (blocks ms)) \<and>
    (\<forall>k. snd r = Some k \<longrightarrow> blocks ms = [] \<or> ba_block_number (fst (hd (blocks ms))) = k + 1)"
proof (induction ms arbitrary: r)
  case Nil
  then show ?case by (simp add: blocks_def List.map_filter_def)
next
  case (Cons m ms)
  have ok: "fst (scan r m)" using foldl_scan_ok [of "scan r m" ms] Cons.prems(1) by simp
  from Cons.IH [of "scan r m"] Cons.prems have ih: "consecutive (map (ba_block_number \<circ> fst) (blocks ms)) \<and>
    (\<forall>k. snd (scan r m) = Some k \<longrightarrow> blocks ms = [] \<or> ba_block_number (fst (hd (blocks ms))) = k + 1)" by (simp add: comp_def)
  show ?case
  proof (cases "block_of m")
    case None
    then have "blocks (m # ms) = blocks ms" by (simp add: blocks_def List.map_filter_simps)
    moreover have "snd (scan r m) = snd r" using None Cons.prems(2) by (cases r; cases m) auto
    ultimately show ?thesis using ih by (simp add: comp_def)
  next
    case (Some p)
    then obtain d b where m: "m = MsgL4BookUpdates d b" by (cases m) auto
    then have "blocks (m # ms) = (d, b) # blocks ms" by (simp add: blocks_def List.map_filter_simps)
    with m ih ok show ?thesis by (cases r; cases "blocks ms") (auto simp: comp_def split: option.splits)
  qed
qed

section \<open>Properties\<close>

text \<open>
  C5. A client that listens is told of every block, end to end: take any state the listener reaches, any stretch of the messages it has sent, and a
  connection that receives exactly that stretch in order, in any shared state and with any clock and socket, and is still open afterwards. Then the L4
  updates written are, block by block, those of each block for every coin the client follows, nothing else and nothing
  missing, and the blocks are consecutive.
\<close>

theorem listening_client_sees_every_block:
  assumes "reached lg sys" and "ln_internal_message_tx (sy_listener sys) = Some (xs @ received evs @ ys)"
    and "handle_events env evs s = Some (Inr False, s')" and "\<forall>e \<in> set evs. \<not> from_client (snd (snd e))"
    and "distinct (we_order env (ss_manager s))" and "set (we_order env (ss_manager s)) = ss_manager s"
  shows "l4_updates (ss_frames s') =
      l4_updates (ss_frames s) @ concat (map (\<lambda>(d, b). told env (ss_manager s) d b) (blocks (received evs))) \<and>
    consecutive (map (ba_block_number \<circ> fst) (blocks (received evs)))"
proof -
  note t = events_told [OF assms(3-6)]
  have "fst (stream (xs @ received evs @ ys))"
    using reached_inv [OF assms(1)] assms(2) by (auto simp: system_inv_def live_ok_def tx_stream_def)
  then have "fst (stream (xs @ received evs))" using stream_prefix [of "xs @ received evs" ys] by simp
  then have "fst (foldl scan (stream xs) (received evs))" by (simp add: stream_def)
  from scan_consecutive [OF this] t show ?thesis by simp
qed

definition follower_env :: ws_env where
  "follower_env = (demo_env (\<lambda>_. Subscribe hip4_view))\<lparr>we_order := (\<lambda>_. [SubL4Book ''BTC''])\<rparr>"

definition follower :: session where
  "follower = (session_new ready_listener ready_listener wc_default demo_trace)\<lparr>ss_manager := {SubL4Book ''BTC''}\<rparr>"

theorem listening_client_sees_every_block_witness:
  "let evs = [(ready_listener, wc_default, Received (MsgL4BookUpdates (empty_block 8) (empty_block 8)) 64),
        (ready_listener, wc_default, Received (MsgL4BookUpdates (empty_block 9) (empty_block 9)) 64)]
   in \<exists>sys s'. reached int_log10 sys \<and> handle_events follower_env evs follower = Some (Inr False, s') \<and> l4_updates (ss_frames s') = [] \<and>
     consecutive (map (ba_block_number \<circ> fst) (blocks (received evs)))"
proof -
  let ?evs = "[(ready_listener, wc_default, Received (MsgL4BookUpdates (empty_block 8) (empty_block 8)) 64),
        (ready_listener, wc_default, Received (MsgL4BookUpdates (empty_block 9) (empty_block 9)) 64)]"
  obtain sys where sys: "reached int_log10 sys" "ln_internal_message_tx (sy_listener sys) =
      Some ([MsgSnapshot Map.empty 0 7] @ received ?evs @ [MsgSnapshot Map.empty 0 9])"
    using demo_reached by (auto simp: demo_listener_def)
  obtain s' where s': "handle_events follower_env ?evs follower = Some (Inr False, s')"
    by (simp add: act_unfold follower_env_def follower_def send_l4_batch_def send_ws_data_from_book_updates_def coin_to_book_updates_def
        block_time_def empty_block_def)
  have f: "distinct (we_order follower_env (ss_manager follower))" "set (we_order follower_env (ss_manager follower)) = ss_manager follower"
    by (simp_all add: follower_env_def follower_def)
  have t: "told follower_env {SubL4Book ''BTC''} (empty_block n) (empty_block n) = []" for n
    by (simp add: told_def follower_env_def updates_of_def empty_block_def List.map_filter_simps split: option.splits)
  have "\<forall>e \<in> set ?evs. \<not> from_client (snd (snd e))" by simp
  note c = listening_client_sees_every_block [OF sys s' this f]
  have "l4_updates (ss_frames s') = []" using conjunct1 [OF c] by (simp add: t blocks_def List.map_filter_simps follower_def session_new_def)
  with sys(1) s' conjunct2 [OF c] show ?thesis unfolding Let_def by blast
qed

end
