(* ===== verification/Program.thy ===== *)
theory Program
  imports Listen_Loop Snapshot_Task Server Client_Stream
begin

text \<open>
  The whole program (\<open>run_websocket_server\<close> of \<open>servers/websocket_server.rs\<close> and what it spawns): the listening loop, the snapshot task and the
  connections as one transition system on the state they share, and its invariant.
\<close>


section \<open>The channel only grows\<close>

definition grows :: "listener \<Rightarrow> listener \<Rightarrow> bool" where
  "grows l l' \<longleftrightarrow> (\<exists>ms. sent_messages l' = sent_messages l @ ms)"

lemma grows_refl [simp]: "grows l l"
  by (simp add: grows_def)

lemma grows_trans: "grows a b \<Longrightarrow> grows b c \<Longrightarrow> grows a c"
  by (auto simp: grows_def)

lemma grows_same: "ln_internal_message_tx l' = ln_internal_message_tx l \<Longrightarrow> grows l l'"
  by (simp add: grows_def sent_messages_def)

lemma grows_send: "grows l (tx_send m k)" if "ln_internal_message_tx k = ln_internal_message_tx l"
  using that by (auto simp: grows_def sent_messages_def split: option.split)

lemma grows_fence: "grows l (fence l)"
  unfolding fence_def by (rule grows_send) simp

lemma queue_batch_grows: "queue_batch now u l = (r, l') \<Longrightarrow> grows l l'"
  by (auto simp: queue_batch_def grows_same grows_send split: event_batch.splits prod.splits if_splits)

lemma record_pair_grows: "record_pair s d l = (r, l') \<Longrightarrow> grows l l'"
  by (auto simp: record_pair_def drop_validation_def Let_def grows_same grows_send split: option.splits if_splits)

lemma apply_pair_grows: "apply_pair s d l = Some (r, l') \<Longrightarrow> grows l l'"
  using record_pair_grows grows_trans [OF grows_same record_pair_grows, of "l\<lparr>ln_order_book_state := st\<rparr>" l for st]
  by (auto simp: apply_pair_def Let_def grows_same split: option.splits sum.splits if_splits bind_splits)

lemma receive_batch_grows:
  assumes "receive_batch now u l = Some (r, l')"
  shows "grows l l'"
proof -
  obtain q l1 where q: "queue_batch now u l = (q, l1)" by fastforce
  obtain p l2 where p: "pop_cache l1 = (p, l2)" by fastforce
  then have "grows l1 l2" by (auto simp: pop_cache_def Let_def split: prod.splits intro: grows_same)
  with queue_batch_grows [OF q] have "grows l l2" by (rule grows_trans)
  with assms q p queue_batch_grows [OF q] apply_pair_grows show ?thesis
    by (auto simp: receive_batch_def split: sum.splits if_splits option.splits intro: grows_trans)
qed

lemma process_records_grows: "process_records cd clock src rs l = Some (r, l') \<Longrightarrow> grows l l'"
proof (induction rs arbitrary: clock l)
  case (Cons x rs)
  from Cons.prems consider "l' = l" | "process_records cd (\<lambda>i. clock (Suc i)) src rs l = Some (r, l')"
    | u e k where "receive_batch (clock 0) u l = Some (e, k)" "l' = k\<lparr>ln_order_book_state := None\<rparr>"
    | u k where "receive_batch (clock 0) u l = Some (Inr (), k)" "process_records cd (\<lambda>i. clock (Suc i)) src rs k = Some (r, l')"
    by (auto simp: Let_def split: if_splits option.splits sum.splits prod.splits)
  then show ?case
  proof cases
    case 3
    from receive_batch_grows [OF 3(1)] 3(2) show ?thesis by (simp add: grows_def sent_messages_def)
  next
    case 4
    from grows_trans [OF receive_batch_grows [OF 4(1)] Cons.IH [OF 4(2)]] show ?thesis .
  qed (use Cons.IH in auto)
qed simp

lemma publish_l2_grows: "publish_l2 lg l = Some l' \<Longrightarrow> grows l l'"
  by (auto simp: publish_l2_def ln_l2_snapshots_def grows_same grows_send split: bind_splits option.splits)

lemma process_data_grows: "process_data lg cd clock content src l = Some (r, l') \<Longrightarrow> grows l l'"
  by (auto simp: process_data_def split: option.splits sum.splits)
     (metis grows_trans process_records_grows publish_l2_grows)+

lemma evolves_grows: "evolves lg n l l' \<Longrightarrow> grows l l'"
proof (induction rule: evolves.induct)
  case (fenced n l l')
  from grows_trans [OF fenced.IH grows_fence] show ?case .
next
  case (fed n l l' cd clock content src r)
  have "grows l' (snd r)" using process_data_grows [of lg cd clock content src l' "fst r" "snd r"] fed.hyps(2) by simp
  moreover have "grows (snd r) (settle r)" using grows_fence by (auto simp: settle_def split: sum.split)
  ultimately show ?case using fed.IH grows_trans by blast
next
  case (expired n l l' now)
  have "grows l' (expire_validation now l')" by (auto simp: expire_validation_def take_cache_def grows_same split: option.split)
  with expired.IH show ?case by (rule grows_trans)
next
  case (counted n l l' stats)
  from grows_trans [OF counted.IH grows_same] show ?case by simp
next
  case (viewed n l l' r l'')
  from grows_trans [OF viewed.IH grows_same] compute_l2_fields [OF viewed.hyps(2)] show ?case by auto
qed simp

lemma reconcile_grows:
  assumes "reconcile_snapshot lg render st snapshot height cache l = Some (r, l')"
  shows "grows l l'"
proof -
  have p: "publish_l2 lg k = Some l' \<Longrightarrow> ln_internal_message_tx k = ln_internal_message_tx l \<Longrightarrow> grows l l'" for k
    using grows_trans [OF grows_same publish_l2_grows] by blast
  from assms show ?thesis
    by (auto simp: reconcile_snapshot_def init_from_snapshot_def Let_def grows_same grows_send intro: p
        split: option.splits sum.splits if_splits prod.splits bind_splits)
qed

lemma finish_grows:
  assumes "finish_snapshot lg render ms e st snapshot height l = Some (r, l')"
  shows "grows l l'"
proof -
  have "grows l k" "grows k (k\<lparr>ln_stats := stats\<rparr>)" if "reconcile_snapshot lg render st snapshot height (fst (take_cache l)) (snd (take_cache l)) = Some (r, k)"
    for k stats
    using grows_trans [OF grows_same reconcile_grows [OF that], of l] by (auto simp: take_cache_def intro: grows_same)
  with assms show ?thesis
    by (auto simp: finish_snapshot_def split: if_splits prod.splits bind_splits) (metis fst_conv grows_trans snd_conv)
qed

section \<open>Steps of the parts on the listener\<close>

text \<open>A turn of a connection looks at the listener and may have it compute a view.\<close>

lemma shares_same: "(\<And>s r s'. m s = Some (r, s') \<Longrightarrow> ss_listener s' = ss_listener s) \<Longrightarrow> keeps (\<lambda>s. evolves lg 0 l (ss_listener s)) m"
  by (rule validI) auto

lemma shares_view: "keeps (\<lambda>s. evolves (we_log10 env) 0 l (ss_listener s)) (compute_l2 env)"
  by (rule validI) (auto simp: compute_l2_def intro: evolves.viewed)

interpretation shared_listener: session_part env "\<lambda>s. evolves (we_log10 env) 0 l (ss_listener s)" for env l
  by unfold_locales (rule shares_view shares_same; auto simp: act_modify_def read_clock_def write_frame_def cached_book_def manager_update_def
      drop_subscription_def Let_def split: sum.splits prod.splits)+

lemma turn_evolves:
  assumes "handle_events (turn_env env clock writes order) [(l, c, ev)] s = Some (r, s')"
  shows "evolves (we_log10 env) 0 l (ss_listener s')"
proof -
  let ?env = "turn_env env clock writes order" and ?I = "\<lambda>s. evolves (we_log10 env) 0 l (ss_listener s)"
  have e: "we_log10 ?env = we_log10 env" by (simp add: turn_env_def)
  have "valid (\<lambda>_. True) (act_modify (\<lambda>s. s\<lparr>ss_listener := l, ss_wire_cache := c\<rparr>)) (\<lambda>_. ?I) ?I"
    by (rule validI) (auto simp: act_modify_def intro: evolves.same)
  moreover have "keeps ?I (handle_event ?env ev)" using shared_listener.turn [where env = ?env] unfolding e .
  ultimately have "valid (\<lambda>_. True) (handle_events ?env [(l, c, ev)]) (\<lambda>_. ?I) ?I"
    unfolding handle_events.simps by (auto intro!: valid_then keeps_then act_rules)
  from validD_any [OF this _ assms] show ?thesis by simp
qed

lemma server_step_evolves: "server_step env l c srv l' c' srv' \<Longrightarrow> evolves (we_log10 env) 0 l l'"
  by (induction rule: server_step.induct) (rule evolves.same turn_evolves; assumption?)+

text \<open>The request a task has in flight.\<close>

fun task_epoch :: "task option \<Rightarrow> (u64 \<times> order_book_state option) option" where
  "task_epoch (Some (Requesting e st _)) = Some (e, st)"
| "task_epoch (Some (Answered e st _ _)) = Some (e, st)"
| "task_epoch (Some (Loading e st _ _)) = Some (e, st)"
| "task_epoch (Some (Loaded e st _ _)) = Some (e, st)"
| "task_epoch _ = None"

lemma task_step_reached:
  assumes "reached lg \<lparr>sy_listener = l, sy_task = task_epoch (Some t)\<rparr>" and "task_step lg render parse de env dir t d l = Some (t', d', l')"
  shows "reached lg \<lparr>sy_listener = l', sy_task = task_epoch (Some t')\<rparr>"
proof (cases t)
  case Spawned
  with assms step_to(1) [of lg "\<lparr>sy_listener = l, sy_task = None\<rparr>"] show ?thesis by (auto simp: task_step_def split: prod.splits)
next
  case (Requesting e st sc)
  with assms reached.stepped [OF assms(1) step.answered] show ?thesis by (auto simp: task_step_def split: prod.splits)
next
  case (Answered e st sc resp)
  with assms step_to(2,3) [OF assms(1)] show ?thesis by (auto simp: task_step_def split: sum.splits if_splits)
next
  case (Loading e st sc out)
  with assms reached.stepped [OF assms(1) step.parsed] show ?thesis by (auto simp: task_step_def)
next
  case (Loaded e st snap out)
  with assms step_to(3,4) [OF assms(1)] show ?thesis by (auto simp: task_step_def split: sum.splits prod.splits)
next
  case (Returned r)
  with assms show ?thesis by (simp add: task_step_def)
qed

lemma task_step_grows:
  assumes "task_step lg render parse de env dir t d l = Some (t', d', l')"
  shows "grows l l'"
proof -
  have c: "grows l (fetch_answered a b k l)" "grows l (fetch_parsed ms l)" "grows l (fetch_failed l)" for a b k ms
    by (auto intro!: grows_same simp: fetch_answered_def fetch_parsed_def fetch_failed_def take_cache_def Let_def)
  from assms c finish_grows show ?thesis
    by (cases t) (auto simp: task_step_def dest: fetch_begin_fields intro: grows_same split: prod.splits sum.splits if_splits)
qed

section \<open>What a connection has received\<close>

text \<open>Where a connection is in the messages sent, and that it was told of no gap.\<close>

fun streams :: "internal_message list \<Rightarrow> connection \<Rightarrow> bool" where
  "streams sent (Upgrading t) = True"
| "streams sent (Subscribed t n) = (n \<le> length sent)"
| "streams sent (Checked t n l) = (n \<le> length sent)"
| "streams sent (Open s m n) = (m \<le> n \<and> n \<le> length sent \<and> MsgGap \<notin> set (take (n - m) (drop m sent)))"

lemma streams_more: "streams sent cn \<Longrightarrow> streams (sent @ ms) cn"
  by (cases cn) auto

lemma streams_grows: "grows l l' \<Longrightarrow> list_all (streams (sent_messages l)) cns \<Longrightarrow> list_all (streams (sent_messages l')) cns"
  by (auto simp: grows_def streams_more elim!: list.pred_mono_strong)

lemma no_gap_received:
  "handle_events env [(l, c, Received m addr)] s = Some (Inr False, s') \<Longrightarrow> m \<noteq> MsgGap"
  by (auto simp: handle_event_def split: if_splits)

lemma streams_next:
  assumes "streams sent (Open s m n)" and "n < length sent" and "sent ! n \<noteq> MsgGap"
  shows "streams sent (Open s' m (Suc n))"
proof -
  have "take (Suc n - m) (drop m sent) = take (n - m) (drop m sent) @ [sent ! n]"
    using assms(1,2) take_Suc_conv_app_nth [of "n - m" "drop m sent"] diff_less_mono [of n "length sent" m] by (simp add: Suc_diff_le)
  with assms show ?thesis by simp
qed

lemma server_step_streams:
  assumes "server_step env l c srv l' c' srv'" and "list_all (streams (sent_messages l)) (sr_connections srv)"
  shows "list_all (streams (sent_messages l')) (sr_connections srv')"
proof (rule streams_grows [OF evolves_grows [OF server_step_evolves [OF assms(1)]]])
  show "list_all (streams (sent_messages l)) (sr_connections srv')"
    using assms
  proof (induction rule: server_step.induct)
    case (received srv xs s m n ys clock writes order addr s')
    from streams_next [OF _ received.hyps(2) no_gap_received [OF received.hyps(3)]] received show ?case by simp
  qed (auto simp: ws_handler_def split: if_splits prod.splits)
qed

lemma scan_last:
  "fst (foldl scan r ms) \<Longrightarrow> MsgGap \<notin> set ms \<Longrightarrow> blocks ms \<noteq> [] \<Longrightarrow>
    snd (foldl scan r ms) = Some (ba_block_number (fst (List.last (blocks ms))))"
proof (induction ms rule: rev_induct)
  case (snoc m ms)
  obtain ok h where q: "foldl scan r ms = (ok, h)" by fastforce
  show ?case
  proof (cases "block_of m")
    case None
    then have "blocks (ms @ [m]) = blocks ms" by (simp add: blocks_def List.map_filter_def)
    moreover have "scan (ok, h) m = (ok, h)" using None snoc.prems(2) by (cases m) auto
    ultimately show ?thesis using snoc q by simp
  next
    case (Some p)
    then obtain d b where "m = MsgL4BookUpdates d b" by (cases m) auto
    with snoc.prems(1) q show ?thesis by (simp add: blocks_def List.map_filter_def)
  qed
qed (simp add: blocks_def List.map_filter_def)

section \<open>The program\<close>

text \<open>
  What the program is started with: serde and the formatting of errors, the home directory and the environment variables, and what paths mean to the
  operating system. \<open>cf_watch\<close> is the outcome of watching the three directories.
\<close>

record config =
  cf_ws :: ws_env
  cf_codecs :: codecs
  cf_render :: "error \<Rightarrow> string"
  cf_json :: "string \<Rightarrow> json result"
  cf_order :: "json \<Rightarrow> (address \<times> l4_order) result"
  cf_home :: "string option"
  cf_vars :: "string \<Rightarrow> env_var"
  cf_canonicalize :: "string \<Rightarrow> path result"
  cf_join :: "string \<Rightarrow> string \<Rightarrow> string"
  cf_path :: "string \<Rightarrow> path"
  cf_watch :: "unit result"

text \<open>
  The loop with the listener, the snapshot task, the disk, the server and the cache of encoded books; and the locals of the loop that do not change: the home
  directory, the limits and the directories followed.
\<close>

record program =
  pg_loop :: listen_loop
  pg_task :: "task option"
  pg_disk :: disk
  pg_server :: server
  pg_cache :: book_wire_cache
  pg_dir :: path
  pg_limits :: resource_limits
  pg_roots :: "(path \<times> event_source) list"

abbreviation pg_listener :: "program \<Rightarrow> listener" where
  "pg_listener s \<equiv> lp_listener (pg_loop s)"

text \<open>\<open>run_websocket_server\<close> and \<open>hl_listen\<close> up to their loops; with an error the process ends.\<close>

definition program_start :: "config \<Rightarrow> instant \<Rightarrow> bool \<Rightarrow> disk \<Rightarrow> program result" where
  "program_start cf now ignore_spot d =
     and_then (case cf_home cf of None \<Rightarrow> Inl NoHomeDirectory | Some home_dir \<Rightarrow> Inr home_dir) (\<lambda>home_dir.
     and_then (scope_from_env (cf_vars cf ''BOOK_EXTRA_COINS'')) (\<lambda>scope.
     and_then (limits_from_env (cf_vars cf)) (\<lambda>limits.
     and_then (source_roots (cf_canonicalize cf) (cf_join cf) home_dir) (\<lambda>roots.
     and_then (cf_watch cf) (\<lambda>_.
       Inr \<lparr>pg_loop = listen_start now limits (listener_new (Some []) ignore_spot scope), pg_task = None, pg_disk = d,
            pg_server = run_websocket_server, pg_cache = wc_default, pg_dir = cf_path cf home_dir, pg_limits = limits, pg_roots = roots\<rparr>)))))"

text \<open>A branch of the loop that counts a new snapshot task starts it.\<close>

definition with_loop :: "listen_loop \<Rightarrow> program \<Rightarrow> program" where
  "with_loop lp s = s\<lparr>pg_loop := lp, pg_task := (if pg_task s = None \<and> lp_snapshots lp \<noteq> 0 then Some Spawned else pg_task s)\<rparr>"

text \<open>During a request the recovery epoch does not come round: a turn of the loop ends at most seven epochs.\<close>

definition epoch_room :: "program \<Rightarrow> bool" where
  "epoch_room s \<longleftrightarrow> (case task_epoch (pg_task s) of Some (e, _) \<Rightarrow> unat (ln_recovery_epoch (pg_listener s) - e) + 7 < 2 ^ 64 | None \<Rightarrow> True)"

text \<open>
  One step of the program: a notification, a branch of the loop, a section of the snapshot task or a step of a connection. A section of the task holds the
  listener's lock throughout. The branches of the loop and the turns of a connection are coarser than the code: \<open>woke\<close> is a whole wake turn, although
  the code takes and releases the lock several times in it (to fence, to hand over the records of each file, to settle) and the watcher or another task may run
  in between. The interleavings modelled are those in which each such turn runs without interruption.
\<close>

inductive program_step :: "config \<Rightarrow> program \<Rightarrow> program \<Rightarrow> bool" for cf where
  notified: "on_notification r (lp_dirty (pg_loop s)) = (queue, w) \<Longrightarrow>
    program_step cf s (s\<lparr>pg_loop := (pg_loop s)\<lparr>lp_dirty := queue, lp_wake := lp_wake (pg_loop s) \<or> w\<rparr>\<rparr>)"
| maintained: "epoch_room s \<Longrightarrow> program_step cf s (with_loop (maintenance now (pg_limits s) fs (pg_loop s)) s)"
| woke: "epoch_room s \<Longrightarrow> lp_wake (pg_loop s) \<Longrightarrow>
    wake_turn (we_log10 (cf_ws cf)) (cf_codecs cf) now clock spent (pg_limits s) fs (pg_roots s) (pg_loop s) = Some lp \<Longrightarrow>
    program_step cf s (s\<lparr>pg_loop := lp\<rparr>)"
| ticked: "program_step cf s (with_loop (snapshot_tick (pg_loop s)) s)"
| worked: "pg_task s = Some t \<Longrightarrow>
    task_step (we_log10 (cf_ws cf)) (cf_render cf) (cf_json cf) (cf_order cf) env (pg_dir s) t (pg_disk s) (pg_listener s) = Some (t', d, l) \<Longrightarrow>
    program_step cf s (s\<lparr>pg_loop := (pg_loop s)\<lparr>lp_listener := l\<rparr>, pg_task := Some t', pg_disk := d\<rparr>)"
| joined: "pg_task s = Some (Returned r) \<Longrightarrow> snapshot_joined now (Some r) (pg_loop s) = Inr lp \<Longrightarrow>
    program_step cf s (s\<lparr>pg_loop := lp, pg_task := None\<rparr>)"
| served: "server_step (cf_ws cf) (pg_listener s) (pg_cache s) (pg_server s) l c srv \<Longrightarrow>
    program_step cf s (s\<lparr>pg_loop := (pg_loop s)\<lparr>lp_listener := l\<rparr>, pg_server := srv, pg_cache := c\<rparr>)"

inductive program_reached :: "config \<Rightarrow> program \<Rightarrow> bool" for cf where
  start: "program_start cf now ignore_spot d = Inr s \<Longrightarrow> program_reached cf s"
| stepped: "program_reached cf s \<Longrightarrow> program_step cf s s' \<Longrightarrow> program_reached cf s'"

section \<open>Its invariant\<close>

definition program_inv :: "config \<Rightarrow> program \<Rightarrow> bool" where
  "program_inv cf s \<longleftrightarrow>
     reached (we_log10 (cf_ws cf)) \<lparr>sy_listener = pg_listener s, sy_task = task_epoch (pg_task s)\<rparr> \<and>
     loop_ok (pg_limits s) (pg_loop s) \<and> 0 < rl_dirty_files (pg_limits s) \<and> (pg_task s = None \<longleftrightarrow> lp_snapshots (pg_loop s) = 0) \<and>
     server_ok (pg_server s) \<and> list_all (streams (sent_messages (pg_listener s))) (sr_connections (pg_server s))"

lemma evolves_task:
  assumes "evolves lg n l l'" and "n \<le> 7" and "reached lg \<lparr>sy_listener = l, sy_task = task\<rparr>"
    and "case task of Some (e, _) \<Rightarrow> unat (ln_recovery_epoch l - e) + n < 2 ^ 64 | None \<Rightarrow> True"
  shows "reached lg \<lparr>sy_listener = l', sy_task = task\<rparr>"
  using assms evolves_reached evolves_idle by (cases task) auto

lemma wake_snapshots:
  assumes "wake_turn lg cd now clock spent limits fs roots lp = Some lp'"
  shows "lp_snapshots lp' = lp_snapshots lp"
proof -
  have r: "read_file lg cd now clock spent limits fs p src k = Some k' \<Longrightarrow> lp_snapshots k' = lp_snapshots k" for p src k k'
    by (auto simp: read_file_def Let_def split: option.splits prod.splits sum.splits bind_splits if_splits)
  have a: "lp_snapshots (attach_file now limits fs src_root p created k) = lp_snapshots k" for src_root p created k
    by (auto simp: attach_file_def Let_def split: sum.split)
  have v: "visit_path lg cd now clock spent limits fs roots p created k = Some k' \<Longrightarrow> lp_snapshots k' = lp_snapshots k" for p created k k'
    by (auto simp: visit_path_def forget_gone_def a Let_def dest!: r split: option.splits if_splits prod.splits)
  show ?thesis using assms by (auto simp: wake_turn_alt woken_def Let_def dest!: v split: option.splits)
qed

lemma with_loop_inv:
  assumes inv: "program_inv cf s" and ev: "evolves (we_log10 (cf_ws cf)) n (pg_listener s) (lp_listener lp)" "n \<le> 7" and room: "epoch_room s"
    and ok: "loop_ok (pg_limits s) lp" and spawned: "lp_snapshots (pg_loop s) \<noteq> 0 \<Longrightarrow> lp_snapshots lp \<noteq> 0"
  shows "program_inv cf (with_loop lp s)"
proof -
  have "reached (we_log10 (cf_ws cf)) \<lparr>sy_listener = lp_listener lp, sy_task = task_epoch (pg_task s)\<rparr>"
    by (rule evolves_task [OF ev(1)]) (use inv room ev(2) in \<open>auto simp: program_inv_def epoch_room_def split: option.splits\<close>)
  with inv ok spawned streams_grows [OF evolves_grows [OF ev(1)]] show ?thesis by (auto simp: program_inv_def with_loop_def)
qed

lemma program_step_inv:
  assumes "program_step cf s s'" and "program_inv cf s"
  shows "program_inv cf s'"
  using assms
proof (induction rule: program_step.induct)
  case (notified r s queue w)
  with on_notification_ok [of "lp_dirty (pg_loop s)" r] show ?case by (auto simp: program_inv_def loop_ok_def)
next
  case (maintained s now fs)
  have "lp_snapshots (maintenance now (pg_limits s) fs (pg_loop s)) \<noteq> 0" if "lp_snapshots (pg_loop s) \<noteq> 0"
    using that by (simp add: maintenance_def Let_def)
  moreover have "loop_ok (pg_limits s) (maintenance now (pg_limits s) fs (pg_loop s))"
    using maintained.prems by (intro maintenance_ok) (simp add: program_inv_def)
  ultimately show ?case using maintained by (intro with_loop_inv [OF _ maintenance_evolves]) auto
next
  case (woke s now clock spent fs lp)
  have ok: "loop_ok (pg_limits s) lp" using wake_ok woke by (auto simp: program_inv_def)
  have n: "lp_snapshots lp = lp_snapshots (pg_loop s)" using wake_snapshots [OF woke.hyps(3)] .
  have "with_loop lp s = s\<lparr>pg_loop := lp\<rparr>" using woke.prems n by (auto simp: with_loop_def program_inv_def)
  with with_loop_inv [OF woke.prems wake_evolves [OF woke.hyps(3)] _ woke.hyps(1) ok] n show ?case by simp
next
  case (ticked s)
  then show ?case by (auto simp: program_inv_def with_loop_def snapshot_tick_def loop_ok_def)
next
  case (worked s t env t' d l)
  have "reached (we_log10 (cf_ws cf)) \<lparr>sy_listener = l, sy_task = task_epoch (Some t')\<rparr>"
    by (rule task_step_reached [OF _ worked.hyps(2)]) (use worked in \<open>simp add: program_inv_def\<close>)
  with worked streams_grows [OF task_step_grows [OF worked.hyps(2)]] show ?case by (auto simp: program_inv_def loop_ok_def)
next
  case (joined s r now lp)
  note e = joined_evolves [OF joined.hyps(2), of "we_log10 (cf_ws cf)"]
  have "reached (we_log10 (cf_ws cf)) \<lparr>sy_listener = lp_listener lp, sy_task = None\<rparr>"
    by (rule evolves_idle [OF e]) (use joined in \<open>simp add: program_inv_def\<close>)
  with joined streams_grows [OF evolves_grows [OF e]] show ?case
    by (auto simp: program_inv_def snapshot_joined_def loop_ok_def split: sum.splits)
next
  case (served s l c srv)
  note e = server_step_evolves [OF served.hyps]
  have "reached (we_log10 (cf_ws cf)) \<lparr>sy_listener = l, sy_task = task_epoch (pg_task s)\<rparr>"
    by (rule evolves_task [OF e]) (use served unat_u64_less in \<open>auto simp: program_inv_def split: option.split\<close>)
  with served server_step_ok [OF served.hyps] server_step_streams [OF served.hyps] show ?case by (auto simp: program_inv_def loop_ok_def)
qed

lemma program_reached_inv: "program_reached cf s \<Longrightarrow> program_inv cf s"
proof (induction rule: program_reached.induct)
  case (start now ignore_spot d s)
  then show ?case using reached.init limits_from_env_pos [of "cf_vars cf"]
    by (auto simp: program_start_def program_inv_def listen_start_def loop_ok_def df_ok_def df_new_def server_ok_def run_websocket_server_def)
qed (rule program_step_inv)

lemma stretch_stream:
  assumes "reached lg \<lparr>sy_listener = l, sy_task = task\<rparr>" and "m \<le> n" and "n \<le> length (sent_messages l)"
    and "got = take (n - m) (drop m (sent_messages l))" and "MsgGap \<notin> set got"
  shows "consecutive (map (ba_block_number \<circ> fst) (blocks got))"
    and "n = length (sent_messages l) \<Longrightarrow> blocks got \<noteq> [] \<Longrightarrow>
      map_option st_height (ln_order_book_state l) = Some (ba_block_number (fst (List.last (blocks got))))"
proof -
  obtain h where h: "stream (sent_messages l) = (True, h)"
    "case ln_order_book_state l of None \<Rightarrow> h = None | Some st \<Rightarrow> h = None \<or> h = Some (st_height st)"
    using reached_inv [OF assms(1)] by (auto simp: system_inv_def live_ok_def tx_stream_def sent_messages_def)
  let ?before = "take m (sent_messages l)" and ?after = "drop n (sent_messages l)"
  have split: "sent_messages l = (?before @ got) @ ?after"
    using assms(2,4) by (metis append.assoc append_take_drop_id drop_drop le_add_diff_inverse2)
  have ok: "fst (foldl scan (stream ?before) got)"
    using stream_prefix [of "?before @ got" ?after] h(1) unfolding split [symmetric] by (simp add: stream_def)
  from scan_consecutive [OF ok assms(5)] show "consecutive (map (ba_block_number \<circ> fst) (blocks got))" by simp
  assume n: "n = length (sent_messages l)" "blocks got \<noteq> []"
  then have "sent_messages l = ?before @ got" using split by simp
  then have "foldl scan (stream ?before) got = (True, h)" using h(1) by (metis foldl_append stream_def)
  with scan_last [OF ok assms(5) n(2)] h(2)
  show "map_option st_height (ln_order_book_state l) = Some (ba_block_number (fst (List.last (blocks got))))"
    by (auto split: option.splits)
qed

text \<open>
  What an open connection is owed: it holds no more subscriptions than allowed, what it received is a stretch of the messages sent, without a gap notice and with
  consecutive blocks, and if that is all of them the book is live and stands at the last block received.
\<close>

definition served_gapless :: "listener \<Rightarrow> session \<Rightarrow> nat \<Rightarrow> nat \<Rightarrow> bool" where
  "served_gapless l ss m n \<longleftrightarrow>
     (let sent = sent_messages l; got = take (n - m) (drop m sent)
      in card (ss_manager ss) \<le> MAX_SUBSCRIPTIONS \<and> m \<le> n \<and> n \<le> length sent \<and> MsgGap \<notin> set got \<and>
         consecutive (map (ba_block_number \<circ> fst) (blocks got)) \<and>
         (n = length sent \<and> blocks got \<noteq> [] \<longrightarrow>
            map_option st_height (ln_order_book_state l) = Some (ba_block_number (fst (List.last (blocks got))))))"

end
