(* ===== verification/Program_Properties.thy ===== *)
theory Program_Properties
  imports Program
begin

text \<open>
  What the whole program guarantees to its clients, and a run of it from the start to a client that has received two blocks.
\<close>

section \<open>Properties\<close>

text \<open>
  C1. The whole program, its tasks interleaved in any way: whatever the node writes, the operating system answers and the clients do, it keeps at most the
  configured number of files open and of paths pending, runs at most one snapshot task and serves at most 256 connections with at most
  \<open>MAX_SUBSCRIPTIONS\<close> subscriptions each; and each open connection has received an uninterrupted stretch of the messages sent, with no gap notice in it and whose
  blocks are consecutive. If it has read all of them, the book is live and stands at the last block the connection received.
\<close>

theorem program_serves_consecutive_blocks:
  assumes "program_reached cf s"
  shows "length (lp_cursors (pg_loop s)) \<le> rl_dirty_files (pg_limits s) \<and> length (df_paths (lp_dirty (pg_loop s))) \<le> rl_dirty_files (pg_limits s) \<and>
    lp_snapshots (pg_loop s) \<le> 1 \<and> length (sr_connections (pg_server s)) \<le> 256 \<and>
    (\<forall>ss m n. Open ss m n \<in> set (sr_connections (pg_server s)) \<longrightarrow> served_gapless (pg_listener s) ss m n)"
proof -
  note inv = program_reached_inv [OF assms, unfolded program_inv_def]
  have "card (ss_manager ss) \<le> MAX_SUBSCRIPTIONS" "streams (sent_messages (pg_listener s)) (Open ss m n)"
    if "Open ss m n \<in> set (sr_connections (pg_server s))" for ss m n
    using inv that by (auto simp: server_ok_def list_all_iff within_capacity_def)
  then have "served_gapless (pg_listener s) ss m n" if "Open ss m n \<in> set (sr_connections (pg_server s))" for ss m n
    using that stretch_stream [OF conjunct1 [OF inv], of m n] unfolding served_gapless_def Let_def by fastforce
  with inv show ?thesis by (auto simp: loop_ok_def df_ok_def server_ok_def)
qed

subsection \<open>A run\<close>

text \<open>
  The node answers the first snapshot request and writes a file of statuses and one of diffs, each with blocks 8 and 9, while a client connects and
  receives what is sent.
\<close>

text \<open>The limits are the defaults and all coins are served; the node's snapshots hold no books, at height 7.\<close>

definition demo_config :: config where
  "demo_config = \<lparr>cf_ws = demo_env (\<lambda>_. Subscribe hip4_view), cf_codecs = demo_codecs, cf_render = (\<lambda>_. []),
     cf_json = (\<lambda>_. Inr (JArr [JInt 7, JArr []])), cf_order = (\<lambda>_. Inl IncompleteRecord), cf_home = Some ''home'', cf_vars = (\<lambda>v. if v = ''BOOK_EXTRA_COINS'' then Present ''*'' else NotPresent),
     cf_canonicalize = (\<lambda>s. Inr [s]), cf_join = (\<lambda>a b. b), cf_path = (\<lambda>s. [s]), cf_watch = Inr ()\<rparr>"

definition statuses_dir :: string where
  "statuses_dir = ''hl/data/node_order_statuses_by_block''"

definition diffs_dir :: string where
  "diffs_dir = ''hl/data/node_raw_book_diffs_by_block''"

definition demo_start :: program where
  "demo_start = \<lparr>pg_loop = listen_start 0 DEFAULT_LIMITS (listener_new (Some []) False scope_all), pg_task = None, pg_disk = \<lparr>dk_files = {}, dk_next = 0\<rparr>,
     pg_server = run_websocket_server, pg_cache = wc_default, pg_dir = [''home''], pg_limits = DEFAULT_LIMITS,
     pg_roots = [([statuses_dir], OrderStatuses), ([diffs_dir], OrderDiffs), ([''hl/data/node_fills_by_block''], Fills)]\<rparr>"

lemma demo_starts: "program_reached demo_config demo_start"
proof -
  have "limits_from_env (cf_vars demo_config) = Inr DEFAULT_LIMITS"
    by (simp add: limits_from_env_def limit_number_def DEFAULT_LIMITS_def as_secs_def from_secs_def demo_config_def)
  moreover have "scope_parse ''*'' = Inr scope_all"
    by (simp add: scope_parse_def str_trim_def white_chars_def strip_front.simps char_of_def Let_def)
  ultimately have "program_start demo_config 0 False \<lparr>dk_files = {}, dk_next = 0\<rparr> = Inr demo_start"
    by (simp add: program_start_def demo_config_def demo_start_def source_roots_def event_source_dir_def statuses_dir_def diffs_dir_def scope_from_env_def)
  then show ?thesis by (rule program_reached.start)
qed

lemmas run_defs = demo_start_def demo_config_def listen_start_def listener_new_def

text \<open>A snapshot task that runs without interruption.\<close>

lemma task_runs:
  "program_reached cf s \<Longrightarrow> pg_task s = Some t \<Longrightarrow>
    task_run (we_log10 (cf_ws cf)) (cf_render cf) (cf_json cf) (cf_order cf) env (pg_dir s) (\<lambda>_ l. l) k n t (pg_disk s) (pg_listener s) =
      Some ((r, l), d) \<Longrightarrow>
    program_reached cf (s\<lparr>pg_loop := (pg_loop s)\<lparr>lp_listener := l\<rparr>, pg_task := Some (Returned r), pg_disk := d\<rparr>)"
proof (induction n arbitrary: k t s)
  case (Suc n)
  from Suc.prems(3) obtain t1 d1 l1 where one:
    "task_step (we_log10 (cf_ws cf)) (cf_render cf) (cf_json cf) (cf_order cf) env (pg_dir s) t (pg_disk s) (pg_listener s) = Some (t1, d1, l1)"
    by (auto split: option.splits prod.splits)
  note stepped = program_reached.stepped [OF Suc.prems(1) program_step.worked [OF Suc.prems(2) one]]
  show ?case
  proof (cases "\<exists>r'. t1 = Returned r'")
    case True
    with Suc.prems(3) one stepped show ?thesis by auto
  next
    case False
    with Suc.prems(3) one have "task_run (we_log10 (cf_ws cf)) (cf_render cf) (cf_json cf) (cf_order cf) env (pg_dir s) (\<lambda>_ l. l) (Suc k) n t1 d1 l1 =
      Some ((r, l), d)" by (cases t1) auto
    with Suc.IH [OF stepped, of t1 "Suc k"] show ?thesis by simp
  qed
qed simp

definition live_loop :: "resource_stats \<Rightarrow> listen_loop" where
  "live_loop stats = (pg_loop demo_start)\<lparr>lp_recovery_retry_at := from_secs 10,
     lp_listener := (pg_listener demo_start)\<lparr>ln_order_book_state := Some (st_from_snapshot [] 7 0 True False), ln_stats := stats\<rparr>\<rparr>"

lemma snapshot_run: "\<exists>stats n. program_reached demo_config (demo_start\<lparr>pg_loop := live_loop stats, pg_disk := \<lparr>dk_files = {}, dk_next = n\<rparr>\<rparr>)"
proof -
  let ?env = "bad_answer\<lparr>sv_read := Inr ''[7,[]]''\<rparr>" and ?d = "\<lparr>dk_files = {}, dk_next = 0\<rparr>"
  from program_reached.stepped [OF demo_starts program_step.ticked]
  obtain s1 where r1: "program_reached demo_config s1" and s1: "s1 = demo_start\<lparr>pg_loop := (pg_loop demo_start)\<lparr>lp_snapshots := 1\<rparr>, pg_task := Some Spawned\<rparr>"
    by (simp add: with_loop_def snapshot_tick_def run_defs)
  let ?run = "task_run (we_log10 (cf_ws demo_config)) (cf_render demo_config) (cf_json demo_config) (cf_order demo_config) ?env (pg_dir s1)
      (\<lambda>_ l. l) 0 5 Spawned (pg_disk s1) (pg_listener s1)"
  obtain stats n where "?run = Some ((Inr (), lp_listener (live_loop stats)), \<lparr>dk_files = {}, dk_next = n\<rparr>)"
    by (simp add: task_run_fetch_snapshot s1 live_loop_def run_defs fetch_snapshot_def process_rmp_file_def snapshot_file_create_def bad_answer_def
        snapshot_file_drop_def load_snapshots_from_json_def load_snapshots_from_str_def snapshot_seed_def books_seed_def fetch_begin_def begin_caching_def
        fetch_answered_def fetch_parsed_def finish_snapshot_def take_cache_def reconcile_snapshot_def
        init_from_snapshot_def replay_queues.simps sync_queues.simps bq_front_def bq_new_def Let_def)
  from task_runs [OF r1 _ this] have "program_reached demo_config (s1\<lparr>pg_loop := (pg_loop s1)\<lparr>lp_listener := lp_listener (live_loop stats)\<rparr>,
      pg_task := Some (Returned (Inr ())), pg_disk := \<lparr>dk_files = {}, dk_next = n\<rparr>\<rparr>)" by (simp add: s1)
  from program_reached.stepped [OF this program_step.joined [of _ "Inr ()" 0]]
  have "program_reached demo_config (demo_start\<lparr>pg_loop := live_loop stats, pg_disk := \<lparr>dk_files = {}, dk_next = n\<rparr>\<rparr>)"
    by (simp add: s1 snapshot_joined_def live_loop_def run_defs)
  then show ?thesis by blast
qed

definition fed_listener :: "resource_stats \<Rightarrow> u64 \<Rightarrow> bool \<Rightarrow> node_data_order_status batch_queue \<Rightarrow> node_data_order_diff batch_queue
    \<Rightarrow> internal_message list \<Rightarrow> listener" where
  "fed_listener stats h snapped sq dq sent = (demo_listener h snapped sq dq sent)\<lparr>ln_limits := DEFAULT_LIMITS, ln_stats := stats\<rparr>"

abbreviation pending_statuses :: "node_data_order_status batch_queue" where
  "pending_statuses \<equiv> \<lparr>bq_deque = [(empty_block 8, 0), (empty_block 9, 0)], bq_last_ts = Some 9, bq_bytes = 17\<rparr>"

abbreviation all_applied :: "'e batch_queue" where
  "all_applied \<equiv> \<lparr>bq_deque = [], bq_last_ts = Some 9, bq_bytes = 0\<rparr>"

definition demo_messages :: "internal_message list" where
  "demo_messages = [MsgSnapshot Map.empty 0 7, MsgL4BookUpdates (empty_block 8) (empty_block 8), MsgL4BookUpdates (empty_block 9) (empty_block 9),
     MsgSnapshot Map.empty 0 9]"

lemma feed_statuses:
  "process_data lg demo_codecs (\<lambda>_. 0) demo_text OrderStatuses (fed_listener stats 7 False bq_new bq_new []) =
    Some (Inr (), fed_listener stats 7 True pending_statuses bq_new [MsgSnapshot Map.empty 0 7])"
  by (simp add: Listener_Protocol.demo_run fed_listener_def DEFAULT_LIMITS_def demo_messages_def)

lemma feed_diffs:
  "process_data lg demo_codecs (\<lambda>_. 0) demo_text OrderDiffs (fed_listener stats 7 True pending_statuses bq_new [MsgSnapshot Map.empty 0 7]) =
    Some (Inr (), fed_listener stats 9 True all_applied all_applied demo_messages)"
  by (simp add: Listener_Protocol.demo_run fed_listener_def DEFAULT_LIMITS_def demo_messages_def)

definition text_env :: file_env where
  "text_env = \<lparr>fe_open = Inr (), fe_seek_end = Inr 0, fe_file = Inr \<lparr>md_dev = 1, md_ino = 2, md_len = 19\<rparr>,
     fe_path = Inr \<lparr>md_dev = 1, md_ino = 2, md_len = 19\<rparr>, fe_read = (\<lambda>_. Inr demo_text)\<rparr>"

definition text_view :: fs_view where
  "text_view = \<lparr>fv_exists = (\<lambda>_. True), fv_is_file = (\<lambda>_. True), fv_still_file = (\<lambda>_. True), fv_env = (\<lambda>_. text_env), fv_reopen = (\<lambda>_. text_env)\<rparr>"

abbreviation no_times :: turn_times where
  "no_times \<equiv> \<lparr>tt_lock_wait = 0, tt_read = 0, tt_process = 0\<rparr>"

lemma text_view_simps [simp]:
  "fv_exists text_view p" "fv_is_file text_view p" "fv_still_file text_view p" "fv_env text_view p = text_env" "rl_dirty_files DEFAULT_LIMITS = 32"
  by (simp_all add: text_view_def DEFAULT_LIMITS_def)

lemma text_utf8: "valid_utf8 demo_text"
  by (simp add: demo_text_def byte_in_def)

lemma text_read: "\<exists>c c'. open_cursor DEFAULT_LIMITS text_env False = Inr c \<and> read_turn 0 text_env (rl_turn_bytes DEFAULT_LIMITS) c = (Inr (demo_text, True, 19), c')"
  using text_utf8 by (simp add: open_cursor_def fc_open_def text_env_def DEFAULT_LIMITS_def with_max_age_def read_turn_def verify_file_def partial_expired_def
      demo_text_def demo_limits_def)

text \<open>A new file with this text, visited when the listener takes the text.\<close>

lemma visit_text:
  assumes "map_of (lp_cursors lp) p = None" and "length (lp_cursors lp) < 32" and "find (\<lambda>(src_root, _). path_starts_with p src_root) roots = Some (src_root, src)"
    and f: "\<And>stats. process_data lg demo_codecs (\<lambda>_. 0) demo_text src ((lp_listener lp)\<lparr>ln_stats := stats\<rparr>) = Some (Inr (), l'\<lparr>ln_stats := stats\<rparr>)"
  obtains c' stats where "visit_path lg demo_codecs 0 (\<lambda>_. 0) no_times DEFAULT_LIMITS text_view roots p True lp =
    Some (lp\<lparr>lp_listener := l'\<lparr>ln_stats := stats\<rparr>, lp_cursors := AList.update p c' (lp_cursors lp), lp_dirty := df_push p False (lp_dirty lp)\<rparr>)"
proof -
  obtain c c' where c: "open_cursor DEFAULT_LIMITS text_env False = Inr c" "read_turn 0 text_env (rl_turn_bytes DEFAULT_LIMITS) c = (Inr (demo_text, True, 19), c')"
    using text_read by blast
  have "retain_cursors text_view cs = cs" for cs by (simp add: retain_cursors_def)
  then have a: "attach_file 0 DEFAULT_LIMITS text_view src_root p True lp = lp\<lparr>lp_cursors := AList.update p c (lp_cursors lp)\<rparr>"
    using assms(2) c(1) by (simp add: attach_file_def make_room_def)
  have up: "map_of (AList.update p x cs) p = Some x" "AList.update p y (AList.update p x cs) = AList.update p y cs" for x y :: file_cursor and cs
    by (simp_all add: update_conv')
  have n: "demo_text \<noteq> []" by (simp add: demo_text_def)
  obtain stats where "read_file lg demo_codecs 0 (\<lambda>_. 0) no_times DEFAULT_LIMITS text_view p src (attach_file 0 DEFAULT_LIMITS text_view src_root p True lp) =
    Some (lp\<lparr>lp_listener := l'\<lparr>ln_stats := stats\<rparr>, lp_cursors := AList.update p c' (lp_cursors lp), lp_dirty := df_push p False (lp_dirty lp)\<rparr>)"
    using c(2) n by (simp add: read_file_def a up count_read_def count_process_def f settle_def Let_def)
  with assms that show thesis by (simp add: visit_path_def forget_gone_def Let_def)
qed

definition demo_at :: "listen_loop \<Rightarrow> u64 \<Rightarrow> server \<Rightarrow> program" where
  "demo_at lp n srv = demo_start\<lparr>pg_loop := lp, pg_disk := \<lparr>dk_files = {}, dk_next = n\<rparr>, pg_server := srv\<rparr>"

lemma demo_at_simps [simp]:
  "pg_loop (demo_at lp n srv) = lp" "pg_task (demo_at lp n srv) = None" "pg_server (demo_at lp n srv) = srv" "pg_cache (demo_at lp n srv) = wc_default"
  "(demo_at lp n srv)\<lparr>pg_loop := lp'\<rparr> = demo_at lp' n srv" "(demo_at lp n srv)\<lparr>pg_server := srv'\<rparr> = demo_at lp n srv'"
  "(demo_at lp n srv)\<lparr>pg_cache := wc_default\<rparr> = demo_at lp n srv"
  "pg_limits (demo_at lp n srv) = DEFAULT_LIMITS" "pg_roots (demo_at lp n srv) = pg_roots demo_start"
  by (simp_all add: demo_at_def run_defs)

lemma live_fed:
  "live_loop stats = \<lparr>lp_listener = fed_listener stats 7 False bq_new bq_new [], lp_dirty = df_new 32, lp_cursors = [], lp_wake = False, lp_snapshots = 0,
     lp_recovery_retry_at = from_secs 10\<rparr>"
  by (simp add: live_loop_def fed_listener_def demo_listener_def demo_state_def st_from_snapshot_def demo_defs run_defs DEFAULT_LIMITS_def)

lemma fed_stats [simp]: "(fed_listener stats h b sq dq ms)\<lparr>ln_stats := stats'\<rparr> = fed_listener stats' h b sq dq ms"
  by (simp add: fed_listener_def)

lemma demo_roots:
  "find (\<lambda>(src_root, _). path_starts_with [statuses_dir, f] src_root) (pg_roots demo_start) = Some ([statuses_dir], OrderStatuses)"
  "find (\<lambda>(src_root, _). path_starts_with [diffs_dir, f] src_root) (pg_roots demo_start) = Some ([diffs_dir], OrderDiffs)"
  by (simp_all add: demo_start_def path_starts_with_def statuses_dir_def diffs_dir_def)

lemma dirs_differ: "statuses_dir \<noteq> diffs_dir"
  by (simp add: statuses_dir_def diffs_dir_def)

lemma demo_served:
  assumes "program_reached demo_config (demo_at lp n srv)"
    and "server_step (cf_ws demo_config) (lp_listener lp) wc_default srv (lp_listener lp) wc_default srv'"
  shows "program_reached demo_config (demo_at lp n srv')"
  using program_reached.stepped [OF assms(1) program_step.served, of "lp_listener lp" wc_default srv'] assms(2) by simp

text \<open>A client connects.\<close>

lemma connect_run:
  "\<exists>stats n srv s. program_reached demo_config (demo_at (live_loop stats) n srv) \<and> sr_connections srv = [Open s 0 0] \<and> ss_manager s = {}"
proof -
  obtain stats n where "program_reached demo_config (demo_at (live_loop stats) n run_websocket_server)"
    using snapshot_run by (auto simp: demo_at_def run_defs)
  let ?l = "lp_listener (live_loop stats)"
  obtain r srv where srv: "ws_handler True 0 0 1 80 run_websocket_server = (r, srv)" by fastforce
  then obtain t where t: "sr_connections srv = [] @ Upgrading t # []" by (auto simp: ws_handler_def run_websocket_server_def split: prod.splits)
  note r1 = demo_served [OF \<open>program_reached _ _\<close> server_step.request [OF srv]]
  note r2 = demo_served [OF r1 server_step.upgraded [OF t]]
  have "is_ready ?l" by (simp add: live_loop_def is_ready_def)
  note r3 = demo_served [OF r2 server_step.checked [OF _ this]]
  note r4 = demo_served [OF r3 server_step.opened]
  have "ln_internal_message_tx ?l = Some []" by (simp add: live_fed fed_listener_def demo_listener_def)
  then show ?thesis using r4 by (force simp: sent_messages_def session_new_def)
qed

text \<open>The node writes two files, and each is read.\<close>

lemma demo_woke:
  assumes "program_reached demo_config (demo_at lp n srv)" and "lp_wake lp"
    and "lp_dirty lp = \<lparr>df_paths = p # ps, df_created = created, df_limit = 32, df_overflow = False\<rparr>" and "created p = Some True"
    and "map_of (lp_cursors lp) p = None" and "length (lp_cursors lp) < 32" and "find (\<lambda>(src_root, _). path_starts_with p src_root) (pg_roots demo_start) = Some (src_root, src)"
    and "\<And>stats. process_data (\<lambda>_. 0) demo_codecs (\<lambda>_. 0) demo_text src ((lp_listener lp)\<lparr>ln_stats := stats\<rparr>) = Some (Inr (), l'\<lparr>ln_stats := stats\<rparr>)"
    and "length ps < 32" "p \<notin> set ps"
  obtains c' stats where "program_reached demo_config (demo_at (lp\<lparr>lp_listener := l'\<lparr>ln_stats := stats\<rparr>, lp_cursors := AList.update p c' (lp_cursors lp),
    lp_dirty := \<lparr>df_paths = ps @ [p], df_created = created(p \<mapsto> False), df_limit = 32, df_overflow = False\<rparr>, lp_wake := True\<rparr>) n srv)"
proof -
  have w: "woken lp = lp\<lparr>lp_dirty := \<lparr>df_paths = ps, df_created = created(p := None), df_limit = 32, df_overflow = False\<rparr>\<rparr>"
    using assms(3,4) by (simp add: woken_def df_take_overflow_def df_pop_def)
  obtain c' stats where "visit_path (\<lambda>_. 0) demo_codecs 0 (\<lambda>_. 0) no_times DEFAULT_LIMITS text_view (pg_roots demo_start) p True (woken lp) =
    Some ((woken lp)\<lparr>lp_listener := l'\<lparr>ln_stats := stats\<rparr>, lp_cursors := AList.update p c' (lp_cursors (woken lp)), lp_dirty := df_push p False (lp_dirty (woken lp))\<rparr>)"
    by (rule visit_text [of "woken lp" p "pg_roots demo_start" src_root src "\<lambda>_. 0" l']) (use assms w in auto)
  then have "wake_turn (we_log10 (cf_ws demo_config)) (cf_codecs demo_config) 0 (\<lambda>_. 0) no_times DEFAULT_LIMITS text_view (pg_roots demo_start) lp =
    Some (lp\<lparr>lp_listener := l'\<lparr>ln_stats := stats\<rparr>, lp_cursors := AList.update p c' (lp_cursors lp),
      lp_dirty := \<lparr>df_paths = ps @ [p], df_created = created(p \<mapsto> False), df_limit = 32, df_overflow = False\<rparr>, lp_wake := True\<rparr>)"
    using assms(3,4,9,10) by (simp add: wake_turn_alt w df_take_overflow_def df_pop_def df_push_def demo_config_def demo_env_def)
  moreover have "epoch_room (demo_at lp n srv)" by (simp add: epoch_room_def)
  ultimately show thesis using that program_reached.stepped [OF assms(1) program_step.woke] assms(2) by fastforce
qed

lemma feed_run:
  "\<exists>lp n srv s stats. program_reached demo_config (demo_at lp n srv) \<and> lp_listener lp = fed_listener stats 9 True all_applied all_applied demo_messages \<and>
     sr_connections srv = [Open s 0 0] \<and> ss_manager s = {}"
proof -
  let ?s = "[statuses_dir, ''f'']" and ?d = "[diffs_dir, ''f'']"
  let ?loop = "\<lambda>l q cs. \<lparr>lp_listener = l, lp_dirty = q, lp_cursors = cs, lp_wake = True, lp_snapshots = 0, lp_recovery_retry_at = from_secs 10\<rparr>"
  let ?queue = "\<lambda>ps m. \<lparr>df_paths = ps, df_created = m, df_limit = 32, df_overflow = False\<rparr>"
  obtain stats n srv s where r0: "program_reached demo_config (demo_at (live_loop stats) n srv)" and srv: "sr_connections srv = [Open s 0 0]" "ss_manager s = {}"
    using connect_run by blast
  have q: "on_notification (FsEvent KindCreate [?s, ?d]) (df_new 32) = (?queue [?s, ?d] [?s \<mapsto> True, ?d \<mapsto> True], True)"
    by (simp add: on_notification_def df_new_def df_push_def dirs_differ dirs_differ [symmetric])
  have r1: "program_reached demo_config (demo_at (?loop (fed_listener stats 7 False bq_new bq_new []) (?queue [?s, ?d] [?s \<mapsto> True, ?d \<mapsto> True]) []) n srv)"
    using program_reached.stepped [OF r0 program_step.notified] q by (simp add: live_fed)
  let ?l1 = "fed_listener stats 7 True pending_statuses bq_new [MsgSnapshot Map.empty 0 7]"
  obtain c stats1 where r2: "program_reached demo_config (demo_at (?loop (fed_listener stats1 7 True pending_statuses bq_new [MsgSnapshot Map.empty 0 7])
      (?queue [?d, ?s] [?d \<mapsto> True, ?s \<mapsto> False]) [(?s, c)]) n srv)"
    by (rule demo_woke [OF r1, of ?s "[?d]" "[?s \<mapsto> True, ?d \<mapsto> True]" "[statuses_dir]" OrderStatuses ?l1]) (simp_all add: demo_roots dirs_differ feed_statuses)
  let ?l2 = "fed_listener stats 9 True all_applied all_applied demo_messages"
  obtain c' stats2 where "program_reached demo_config (demo_at (?loop (fed_listener stats2 9 True all_applied all_applied demo_messages)
      (?queue [?s, ?d] [?d \<mapsto> False, ?s \<mapsto> False]) [(?s, c), (?d, c')]) n srv)"
    by (rule demo_woke [OF r2, of ?d "[?s]" "[?d \<mapsto> True, ?s \<mapsto> False]" "[diffs_dir]" OrderDiffs ?l2]) (simp_all add: demo_roots dirs_differ dirs_differ [symmetric] feed_diffs fun_upd_twist)
  with srv show ?thesis by fastforce
qed

text \<open>The client follows nothing yet; it receives the messages one by one.\<close>

lemma demo_received:
  assumes "program_reached demo_config (demo_at lp n srv)" and "sr_connections srv = [Open s 0 i]" "ss_manager s = {}"
    and "i < length (sent_messages (lp_listener lp))" and "sent_messages (lp_listener lp) ! i \<noteq> MsgGap"
  shows "\<exists>srv' s'. program_reached demo_config (demo_at lp n srv') \<and> sr_connections srv' = [Open s' 0 (Suc i)] \<and> ss_manager s' = {}"
proof -
  let ?m = "sent_messages (lp_listener lp) ! i" and ?env = "turn_env (cf_ws demo_config) (\<lambda>_. Inr 0) (\<lambda>_. Inr ()) (\<lambda>_. [])"
  obtain s' where s': "handle_events ?env [(lp_listener lp, wc_default, Received ?m 64)] s = Some (Inr False, s')"
    "ss_listener s' = lp_listener lp" "ss_wire_cache s' = wc_default" "ss_manager s' = {}"
    using assms(3,5) by (cases ?m) (simp_all add: act_unfold turn_env_def demo_config_def demo_env_def send_fill_batch_def send_l4_batch_def)
  from assms(2) have "sr_connections srv = [] @ Open s 0 i # []" by simp
  from demo_served [OF assms(1), unfolded s'(2,3) [symmetric]] server_step.received [OF this assms(4) s'(1)] s'
  show ?thesis by (intro exI [of _ "srv\<lparr>sr_connections := [] @ Open s' 0 (Suc i) # []\<rparr>"] exI [of _ s']) (simp add: demo_served [OF assms(1)])
qed

lemma demo_serves:
  "\<exists>lp n srv s stats. program_reached demo_config (demo_at lp n srv) \<and> lp_listener lp = fed_listener stats 9 True all_applied all_applied demo_messages \<and>
     sr_connections srv = [Open s 0 i] \<and> ss_manager s = {}" if "i \<le> 4"
  using that
proof (induction i)
  case (Suc i)
  then obtain lp n srv s stats where r: "program_reached demo_config (demo_at lp n srv)"
    "lp_listener lp = fed_listener stats 9 True all_applied all_applied demo_messages" "sr_connections srv = [Open s 0 i]" "ss_manager s = {}"
    by auto
  have m: "sent_messages (lp_listener lp) = demo_messages" by (simp add: r(2) fed_listener_def demo_listener_def sent_messages_def)
  have "\<forall>m \<in> set demo_messages. m \<noteq> MsgGap" "length demo_messages = 4" by (simp_all add: demo_messages_def)
  then have "i < length (sent_messages (lp_listener lp))" "sent_messages (lp_listener lp) ! i \<noteq> MsgGap" using Suc.prems unfolding m by auto
  from demo_received [OF r(1,3,4) this] r(2) show ?case by blast
qed (rule feed_run)

theorem program_serves_consecutive_blocks_witness:
  "\<exists>s ss. program_reached demo_config s \<and> Open ss 0 4 \<in> set (sr_connections (pg_server s)) \<and> sent_messages (pg_listener s) = demo_messages \<and>
     map (ba_block_number \<circ> fst) (blocks demo_messages) = [8, 9] \<and> served_gapless (pg_listener s) ss 0 4 \<and>
     map_option st_height (ln_order_book_state (pg_listener s)) = Some 9"
proof -
  obtain lp n srv ss stats where r: "program_reached demo_config (demo_at lp n srv)"
    "lp_listener lp = fed_listener stats 9 True all_applied all_applied demo_messages" "sr_connections srv = [Open ss 0 4]"
    using demo_serves [of 4] by auto
  from program_serves_consecutive_blocks [OF r(1)] r(3) have "served_gapless (lp_listener lp) ss 0 4" by simp
  moreover have "map (ba_block_number \<circ> fst) (blocks demo_messages) = [8, 9]"
    by (simp add: demo_messages_def blocks_def List.map_filter_simps empty_block_def)
  moreover have "sent_messages (lp_listener lp) = demo_messages" "map_option st_height (ln_order_book_state (lp_listener lp)) = Some 9"
    by (simp_all add: r(2) fed_listener_def demo_listener_def sent_messages_def demo_state_def st_from_snapshot_def Let_def)
  ultimately show ?thesis using r(1,3) by (intro exI [of _ "demo_at lp n srv"] exI [of _ ss]) simp
qed

end
