(* ===== verification/Spec2Isabelle.thy ===== *)
theory Spec2Isabelle
  imports Linked_List Listener_Bounds Loop_Progress Program_Properties
begin

text \<open>
  \<^bold>\<open>The order book server.\<close> The program rebuilds the order books of an exchange node from the event files the node writes, audits them
  against snapshots it requests from the node, and serves aggregated (L2) and full (L4) books and trades to websocket clients. This
  development models the code under \<open>server/src\<close> and proves what makes it correct.

  \<^bold>\<open>How the parts interact.\<close> A file watcher queues changed paths; the listen loop reads each file in bounded turns and hands whole records
  to the listener. The listener parses them, pairs the status and the diff batch of each block, applies the block to the books, and sends messages
  (L4 updates, fills, L2 snapshots, gap notices) on a channel. When anything is lost or inconsistent it \<^emph>\<open>fences\<close>: it drops the books, sends a
  gap notice and waits for a snapshot. A snapshot task, at most one at a time, asks the node for a snapshot and has the listener reconcile it with the
  blocks applied meanwhile. Each connection turns the messages and the requests of its client into frames.

  \<^bold>\<open>Theories and code.\<close>

  \<^descr> \<open>Book_Prelude\<close>: machine integers, the error values of \<open>prelude::Result\<close>, \<open>BTreeMap\<close> as a sorted association list (locale
  \<open>ordered_map\<close>, interpreted on it), shared lemmas and the collection \<open>book_simps\<close>.

  \<^descr> \<open>Keyed_List\<close>, \<open>Linked_List\<close>: \<open>order_book/linked_list.rs\<close>. \<open>Linked_List\<close> is the code over a slab given by its documented
  laws (locale \<open>slab_laws\<close>); \<open>Keyed_List\<close> is the sequence it implements (locale \<open>keyed_queue\<close>, a sublocale for every lawful slab, interpreted
  on a slab made of a list). The order book is built on \<open>Keyed_List\<close>.

  \<^descr> \<open>Book_Types\<close>, \<open>Fixed_Point\<close>, \<open>Node_Data\<close>: \<open>order_book/types.rs\<close>, \<open>types/inner.rs\<close>, \<open>types/mod.rs\<close>,
  \<open>types/node_data.rs\<close>: prices and sizes (with the \<open>f64\<close> arithmetic, parsing and printing they go through), orders, diffs, fills, batches and
  their conversions.

  \<^descr> \<open>Order_Book\<close>, \<open>Price_Time\<close>, \<open>Order_Book_Refinement\<close>, \<open>Order_Book_Properties\<close>: \<open>order_book/mod.rs\<close>. \<open>Price_Time\<close> is
  the abstract specification: each side is one queue in price-time priority. The refinement theory has the representation invariant, the simulation of
  every operation and the locale \<open>price_time_book\<close>, interpreted on the model of \<open>OrderBook\<close>.

  \<^descr> \<open>L2_Levels\<close>, \<open>Bucketing\<close>, \<open>L2_Views\<close>, \<open>L2_Cache\<close>: \<open>order_book/levels.rs\<close> and \<open>refresh_l2_snapshots\<close> of
  \<open>listeners/order_book/utils.rs\<close>: bucketing of prices, the aggregation of a book, and the cache whose views are derived from one another.

  \<^descr> \<open>Multi_Book\<close>, \<open>Snapshot_Audit\<close>: \<open>order_book/multi_book.rs\<close> (all books; the streaming reader of a snapshot file) and
  \<open>validate_snapshot_consistency\<close> of \<open>utils.rs\<close>.

  \<^descr> \<open>Subscriptions\<close>, \<open>Scoped_Parse\<close>: \<open>types/subscription.rs\<close> and \<open>Batch::parse_in_scope\<close> of \<open>types/node_data.rs\<close>.

  \<^descr> \<open>Batch_Queue\<close>, \<open>Book_State\<close>: \<open>BatchQueue\<close> (locale \<open>block_queue\<close>, interpreted on it) and \<open>ResourceLimits\<close>; \<open>OrderBookState\<close>
  of \<open>listeners/order_book/state.rs\<close>: how a block is applied, and the cache of published views.

  \<^descr> \<open>Listener\<close>, \<open>Listener_Protocol\<close>, \<open>Listener_Bounds\<close>, \<open>Listener_Turns\<close>: \<open>OrderBookListener\<close> of
  \<open>listeners/order_book/mod.rs\<close>, every method; the listener and the request it has in flight as a transition system (\<open>step\<close>, \<open>reached\<close>), its
  invariants by rule induction; and the changes to the listener that keep within that system (\<open>evolves\<close>).

  \<^descr> \<open>Ingestion\<close>, \<open>Listen_Loop\<close>, \<open>Loop_Progress\<close>, \<open>Snapshot_Task\<close>: \<open>ingestion.rs\<close>; the branches of the loop in
  \<open>hl_listen_with_source\<close>, and that it comes to rest; and \<open>fetch_snapshot\<close> with \<open>SnapshotFile\<close> and \<open>process_rmp_file\<close>, once as a function with
  interference and once by its critical sections (\<open>task_step\<close>), which is shown to be the same.

  \<^descr> \<open>Dispatch\<close>, \<open>Wire_Cache\<close>, \<open>Delivery_Trace\<close>, \<open>Client_Session\<close>: \<open>servers/websocket_server.rs\<close> and
  \<open>servers/delivery_trace.rs\<close>: what a block means for each coin, the cache of encoded books, and the whole of \<open>handle_socket\<close> with its
  request handling, as actions that change the connection and may fail or panic. \<open>Session_Logic\<close> has Hoare rules for these actions and two locales, for
  invariants of a connection (\<open>connection_invariant\<close>) and for parts of its state that few actions touch (\<open>session_part\<close>), each interpreted for every
  invariant used; \<open>Session_Properties\<close> has what a client can rely on, \<open>Client_Stream\<close> the listener and a connection together, and \<open>Server\<close> the admission of
  connections (\<open>ws_handler\<close>) and all connections with their permits and their positions in the channel.

  \<^descr> \<open>Program\<close>, \<open>Program_Properties\<close>: \<open>run_websocket_server\<close> and \<open>hl_listen\<close> from their start on. The listening loop, the snapshot task and the
  connections are one transition system (\<open>program_step\<close>), each step a notification, a turn of the loop or of a connection, or a critical section of the
  task; its invariant joins those of the parts.

  \<^bold>\<open>What is shown.\<close>

  \<^item> The book: any run of operations of \<open>OrderBook\<close> answers as the price-time queues do; matching conserves quantity; books stay uncrossed; snapshots
  round-trip; an insert that trades with nothing and is refused changes nothing; the linked list implements its sequence without panics. Coins do not
  interfere: a run over all books is one run per coin, whatever the interleaving.

  \<^item> Views: a view is the ordered aggregation by outward-rounded price; the derived views of the cache equal the direct ones for every accepted
  subscription, for prices from \<open>0.0001\<close> up to the bound to which digit counts are exact; below \<open>0.0001\<close> it is shown exactly when the cached and the
  direct four-figure views differ; published views are current although only changed coins are recomputed.

  \<^item> Blocks: a state applies blocks in sequence and acts on each coin's queues as the block's operations do; a block that fails leaves height and time and
  keeps exactly the operations before the failing diff.

  \<^item> Streams: in every reachable state, under any interleaving of data, fences, expiries and snapshot requests, two updates without a gap notice between
  them are for consecutive blocks. The branches of the loop, the sections of the snapshot task and the turns of the connections are shown to be runs of this system, and
  a client that listens is told the updates of every block for its coins. A fenced listener is restored by a snapshot exactly when the blocks queued above it apply.

  \<^item> The whole program: from any start and under any interleaving of the turns of its tasks, its resources stay bounded and each open connection has received an uninterrupted
  stretch of consecutive blocks, which ends at the live book when the connection has caught up. A run with the default limits shows a client receive two blocks.

  \<^item> Files: a cursor delivers every byte once in whole records; notifications are never lost silently; a turn of the loop that leaves the books served has
  dropped no unread data; once the node stops writing, the loop reads all pending files to their ends within an explicit number of turns and sleeps.

  \<^item> Bounds: queues, validation cache, open files, pending paths, connections, wire cache, subscriptions and traces stay within their limits.

  \<^item> Connections: the heights of a book stream ascend; nothing older than three seconds is sent; a request is acknowledged exactly when it takes effect;
  the shared wire cache is transparent.

  \<^item> Texts: orders with prices and sizes below \<open>2^51\<close> units round-trip through their wire form; reading in scope is reading everything and filtering.

  \<^bold>\<open>Conventions.\<close> \<open>u64\<close> is a word and wraps, as in a release build; \<open>usize\<close> is a natural number, with \<open>checked_add\<close>
  where the code uses it. \<open>u32\<close> is a natural number too: it holds digit counts, numbers of figures and the date and hour
  of a file name, with the range check of the parser that reads them; nothing wraps there. A panic is \<open>None\<close>; an error is \<open>Inl\<close>. A \<open>HashMap\<close> that is only looked up is a map, one that is iterated an association
  list with distinct keys, and properties hold for every order. A broadcast channel is the list of the messages sent. Loops are structural or come with a termination
  proof. Two definitions count turns: \<open>wake_turns\<close>, with a number of turns that is shown to be enough, and \<open>task_run\<close>, for which five are always enough. Clock readings, measured times, answers of the operating system and outcomes of socket writes are arguments, so properties hold
  for all of them.

  \<^bold>\<open>Assumptions.\<close> Of code outside the repository only documented behaviour is assumed, as named hypotheses: the laws of a slab; that \<open>f64::log10\<close>
  counts digits exactly up to a bound; that serde's whole and raw readers agree and that its writer tells subscriptions apart. The recovery epoch is a
  64-bit counter that identifies requests; it is assumed not to come round during one request (\<open>epoch_fresh\<close>, \<open>epoch_room\<close>, or a bound on the epochs that end). A wake
  turn of the loop is one step of the whole program, although it takes the listener's lock several times and notifications or other tasks may come in between; and a turn of a connection is one step of the whole program, although its task may be suspended between
  the frames it writes; it locks the listener at most once. A panic of the loop ends the run, one of a connection ends that connection.

  \<^bold>\<open>Not modelled.\<close> The HTTP routes, the TCP listener and the websocket handshake (in \<open>run_websocket_server\<close> and \<open>ws_handler\<close>) are calls of axum, tokio and yawc; what
  they answer is an argument. \<open>listeners/directory.rs\<close> is a trait implemented only by its own test. Which
  branch of a \<open>select!\<close> runs when, the timers and the capacity of the channel belong to tokio: the branches may run in any order here, and a connection may be cut off at
  any message. A panic inside a snapshot task is not continued. The error for a lock of the wire cache that another thread poisoned by a panic is left out
  (\<open>cached_book\<close>). The branch of \<open>handle_immediate_snapshot\<close> for L2 books is modelled although no request reaches it. The
  log, the \<open>Debug\<close> printers, the command line binaries and the tests are left out.
\<close>

end
